(* ===== verification/Prelude.thy ===== *)
theory Prelude
  imports Main "HOL-Library.Word"
begin

text \<open>
  The shared basis of the development: the names of Rust's machine integers, the outcome of a
  Rust computation (a value, an error value of the program, or a panic), arithmetic whose overflow
  depends on the build profile, the iterator functions of the standard library the sources use,
  and the lemmas on lists and maps that several components need.
\<close>

unbundle bit_operations_syntax

named_theorems outcome_simps \<open>equations that evaluate the outcome combinators\<close>
named_theorems frame \<open>fields of a state that an operation leaves alone\<close>

section \<open>Machine integers and hashes\<close>

type_synonym u8 = "8 word"
type_synonym u32 = "32 word"
type_synonym u64 = "64 word"
type_synonym u128 = "128 word"
type_synonym u256 = "256 word"

text \<open>
  A \<open>Sha256dHash\<close> is an array of 32 bytes; it is kept as the 256-bit word whose byte \<open>i\<close>
  (counted from the least significant one) is byte \<open>i\<close> of the array. \<open>Sha256dHash::default()\<close>,
  the array of zeros, is the word 0.
\<close>

type_synonym hash = "256 word"

definition into_inner :: "hash \<Rightarrow> u8 list" where
  "into_inner h = map (\<lambda>i. ucast (drop_bit (8 * i) h)) [0..<32]"

section \<open>Outcomes\<close>

text \<open>
  What a call of a Rust function gives: \<open>Ok\<close> or \<open>Err\<close> as the source's \<open>Result\<close>, or
  \<open>Panicked\<close> for a failed \<open>unwrap\<close>, \<open>assert!\<close>, index or checked arithmetic operation. A
  function that returns a plain value but may panic has an outcome without \<open>Err\<close>.
\<close>

datatype ('e, 'a) outcome = Ok 'a | Err 'e | Panicked

text \<open>Sequencing: the \<open>?\<close> operator, and the propagation of a panic.\<close>

fun obind :: "('e, 'a) outcome \<Rightarrow> ('a \<Rightarrow> ('e, 'b) outcome) \<Rightarrow> ('e, 'b) outcome" where
  "obind (Ok a) f = f a"
| "obind (Err e) f = Err e"
| "obind Panicked f = Panicked"

declare obind.simps [outcome_simps]

fun unwrap :: "'a option \<Rightarrow> ('e, 'a) outcome" where
  "unwrap (Some a) = Ok a"
| "unwrap None = Panicked"

declare unwrap.simps [outcome_simps]

lemma obind_eq_Ok: "obind m f = Ok b \<longleftrightarrow> (\<exists>a. m = Ok a \<and> f a = Ok b)"
  by (cases m) auto

lemma obind_eq_Err: "obind m f = Err e \<longleftrightarrow> m = Err e \<or> (\<exists>a. m = Ok a \<and> f a = Err e)"
  by (cases m) auto

lemma obind_eq_Panicked:
  "obind m f = Panicked \<longleftrightarrow> m = Panicked \<or> (\<exists>a. m = Ok a \<and> f a = Panicked)"
  by (cases m) auto

lemma unwrap_eq_Ok [simp]: "unwrap m = Ok a \<longleftrightarrow> m = Some a"
  by (cases m) auto

lemma unwrap_not_Err [simp]: "unwrap m \<noteq> Err e"
  by (cases m) auto

lemmas obind_conv = obind_eq_Ok obind_eq_Err obind_eq_Panicked

section \<open>Arithmetic under the build profile\<close>

text \<open>
  Overflow of \<open>+\<close> and \<open>-\<close> on Rust's unsigned integers panics in a build with overflow checks
  (the development profile) and wraps around in one without (the release profile). The flag is
  the first argument.
\<close>

definition rust_add :: "bool \<Rightarrow> 'a::len word \<Rightarrow> 'a word \<Rightarrow> ('e, 'a word) outcome" where
  "rust_add checks a b =
     (if checks \<and> 2 ^ LENGTH('a) \<le> unat a + unat b then Panicked else Ok (a + b))"

definition rust_sub :: "bool \<Rightarrow> 'a::len word \<Rightarrow> 'a word \<Rightarrow> ('e, 'a word) outcome" where
  "rust_sub checks a b = (if checks \<and> a < b then Panicked else Ok (a - b))"

lemma rust_add_not_Err [simp]: "rust_add c a b \<noteq> Err e"
  by (simp add: rust_add_def)

lemma rust_sub_not_Err [simp]: "rust_sub c a b \<noteq> Err e"
  by (simp add: rust_sub_def)

lemma rust_add_Ok:
  fixes a b :: "'a::len word"
  assumes "unat a + unat b < 2 ^ LENGTH('a)"
  shows "rust_add c a b = Ok (a + b)"
  using assms by (simp add: rust_add_def)

lemma rust_sub_Ok: "b \<le> a \<Longrightarrow> rust_sub c a b = Ok (a - b)"
  by (simp add: rust_sub_def not_less)

lemma rust_add_eq_Ok: "rust_add c a b = Ok s \<Longrightarrow> s = a + b"
  by (auto simp: rust_add_def split: if_splits)

lemma rust_sub_eq_Ok: "rust_sub c a b = Ok s \<Longrightarrow> s = a - b"
  by (auto simp: rust_sub_def split: if_splits)

section \<open>Iterators\<close>

text \<open>\<open>Iterator::position\<close> and \<open>Iterator::rposition\<close>.\<close>

fun position :: "('a \<Rightarrow> bool) \<Rightarrow> 'a list \<Rightarrow> nat option" where
  "position P [] = None"
| "position P (x # xs) = (if P x then Some 0 else map_option Suc (position P xs))"

definition rposition :: "('a \<Rightarrow> bool) \<Rightarrow> 'a list \<Rightarrow> nat option" where
  "rposition P xs = map_option (\<lambda>p. length xs - p - 1) (position P (rev xs))"

lemma position_None: "position P xs = None \<longleftrightarrow> (\<forall>x\<in>set xs. \<not> P x)"
  by (induction xs) auto

lemma position_SomeD:
  "position P xs = Some i \<Longrightarrow> i < length xs \<and> P (xs ! i) \<and> (\<forall>j<i. \<not> P (xs ! j))"
proof (induction xs arbitrary: i)
  case Nil
  then show ?case by simp
next
  case (Cons x xs)
  then show ?case
    by (auto split: if_splits simp: nth_Cons split: nat.split)
qed

lemma rposition_None: "rposition P xs = None \<longleftrightarrow> (\<forall>x\<in>set xs. \<not> P x)"
  by (simp add: rposition_def position_None)

lemma rposition_SomeD:
  assumes "rposition P xs = Some i"
  shows "i < length xs" "P (xs ! i)" "\<And>j. i < j \<Longrightarrow> j < length xs \<Longrightarrow> \<not> P (xs ! j)"
proof -
  from assms obtain p where p: "position P (rev xs) = Some p" and i: "i = length xs - p - 1"
    by (auto simp: rposition_def)
  note D = position_SomeD [OF p]
  show "i < length xs" using D i by auto
  show "P (xs ! i)" using D i by (auto simp: rev_nth)
  fix j assume j: "i < j" "j < length xs"
  then have "length xs - j - 1 < p" using D i by auto
  with D have "\<not> P (rev xs ! (length xs - j - 1))" by blast
  with j show "\<not> P (xs ! j)" by (simp add: rev_nth)
qed

lemma rposition_nth_distinct:
  assumes "distinct xs" "i < length xs"
  shows "rposition (\<lambda>e. e = xs ! i) xs = Some i"
proof (cases "rposition (\<lambda>e. e = xs ! i) xs")
  case None
  then show ?thesis using assms by (auto simp: rposition_None)
next
  case (Some j)
  with rposition_SomeD(1,2) [OF Some] assms show ?thesis
    by (simp add: nth_eq_iff_index_eq)
qed

section \<open>Lists whose neighbours are related\<close>

text \<open>\<open>linked R xs\<close>: every element is related to the one after it.\<close>

fun linked :: "('a \<Rightarrow> 'a \<Rightarrow> bool) \<Rightarrow> 'a list \<Rightarrow> bool" where
  "linked R [] = True"
| "linked R [x] = True"
| "linked R (x # y # xs) = (R x y \<and> linked R (y # xs))"

lemma linked_Cons: "linked R (x # xs) \<longleftrightarrow> (xs = [] \<or> R x (hd xs)) \<and> linked R xs"
  by (cases xs) auto

lemma linked_append:
  "linked R (xs @ ys) \<longleftrightarrow>
     linked R xs \<and> linked R ys \<and> (xs = [] \<or> ys = [] \<or> R (last xs) (hd ys))"
  by (induction xs) (auto simp: linked_Cons hd_append)

lemma linked_mono:
  assumes "linked R xs" "\<And>x y. x \<in> set xs \<Longrightarrow> y \<in> set xs \<Longrightarrow> R x y \<Longrightarrow> S x y"
  shows "linked S xs"
  using assms by (induction xs rule: induct_list012) auto

lemma linked_nth: "linked R xs \<Longrightarrow> Suc i < length xs \<Longrightarrow> R (xs ! i) (xs ! Suc i)"
proof (induction R xs arbitrary: i rule: linked.induct)
  case (3 R x y xs)
  then show ?case by (cases i) auto
qed simp_all

lemma linked_nthI:
  "(\<And>i. Suc i < length xs \<Longrightarrow> R (xs ! i) (xs ! Suc i)) \<Longrightarrow> linked R xs"
proof (induction xs rule: induct_list012)
  case (3 x y zs)
  have "R x y" using 3(3) [of 0] by simp
  moreover have "linked R (y # zs)" by (rule 3(2)) (use 3(3) [of "Suc _"] in simp)
  ultimately show ?case by simp
qed simp_all

lemma linked_rev: "linked R (rev xs) = linked (\<lambda>x y. R y x) xs"
  by (induction xs) (auto simp: linked_append linked_Cons last_rev hd_conv_nth)

section \<open>Words and natural numbers\<close>

lemma unat_push_bit: "unat (push_bit n (a::'a::len word)) = (unat a * 2 ^ n) mod 2 ^ LENGTH('a)"
  by (simp add: unsigned_push_bit_eq take_bit_eq_mod) (simp add: push_bit_eq_mult)

lemma unat_drop_bit: "unat (drop_bit n (a::'a::len word)) = unat a div 2 ^ n"
  by (simp add: unat_drop_bit_eq) (simp add: drop_bit_eq_div)

lemma ucast_ucast_take:
  fixes w :: "'a::len word"
  shows "ucast (ucast w :: 'b::len word) = (take_bit LENGTH('b) w :: 'a word)"
  by (rule bit_word_eqI) (auto simp: bit_simps)

lemma bits_split: "take_bit n a + push_bit n (drop_bit n a) = (a :: 'a::len word)"
  by (metis add.commute bits_ident)

lemma unat_ucast_up:
  fixes m :: "'a::len word"
  assumes "LENGTH('a) \<le> LENGTH('b::len)"
  shows "unat (ucast m :: 'b word) = unat m"
proof -
  have "unat m < 2 ^ LENGTH('a)" by (rule unsigned_less)
  also have "\<dots> \<le> 2 ^ LENGTH('b)" using assms by simp
  finally show ?thesis by (simp add: unsigned_ucast_eq unsigned_take_bit_eq take_bit_nat_eq_self_iff)
qed

lemma unat_minus_one: "unat (-1 :: 'a::len word) = 2 ^ LENGTH('a) - 1"
  by (simp add: unsigned_minus_1_eq_mask mask_eq_exp_minus_1)

lemma unat_NOT: "unat (NOT a :: 'a::len word) = 2 ^ LENGTH('a) - 1 - unat a"
proof -
  have "NOT a = -1 - a" by (simp add: not_eq_complement)
  moreover have "a \<le> -1" by simp
  ultimately show ?thesis by (simp add: unat_sub unat_minus_one)
qed

lemma unat_less_exp: "unat (w :: 'a::len word) < 2 ^ LENGTH('a)"
  by (rule unsigned_less)

lemma unat_word_of_nat: "n < 2 ^ LENGTH('a) \<Longrightarrow> unat (word_of_nat n :: 'a::len word) = n"
  by (simp add: unsigned_of_nat take_bit_nat_eq_self)

lemma word_of_nat_unat_self: "word_of_nat (unat w) = (w :: 'a::len word)"
  by simp

lemma power_256: "(256::nat) ^ k = 2 ^ (8 * k)"
  by (simp add: power_mult)

end
