(* ===== verification/Murmel_Error.thy ===== *)
theory Murmel_Error
  imports Prelude
begin

text \<open>
  The error class of the library (\<open>src/src/error.rs\<close>): the enum, its descriptions, what it prints
  and its conversions. An error value of another crate is represented by what the library reads
  of it: the texts its \<open>description\<close> and \<open>Display\<close> give and, where the library matches on it, the
  case it is.
\<close>

section \<open>Errors of other crates, as the library reads them\<close>

record foreign_error =
  fe_description :: string
  fe_display :: string

datatype io_kind = UnexpectedEof | InvalidData | WouldBlock | Other

record io_error = foreign_error +
  io_kind :: io_kind

text \<open>\<open>encode::Error\<close> of the bitcoin crate: the library tells its \<open>Io\<close> case from the rest.\<close>

record encode_error = foreign_error +
  ee_io :: "io_error option"

text \<open>\<open>bip158::Error\<close> of the bitcoin crate.\<close>

datatype bip158_error = Bip158Io io_error | UtxoMissing string

section \<open>The error class\<close>

datatype error =
    SpvBadTarget
  | SpvBadProofOfWork
  | UnconnectedHeader
  | NoTip
  | NoPeers
  | UnknownUTXO
  | BadMerkleRoot
  | Downstream string
  | IO io_error
  | Util foreign_error
  | Serialize encode_error
  | Hammersbald foreign_error
  | Handshake
  | Lost string

type_synonym 'a result = "(error, 'a) outcome"

fun error_description :: "error \<Rightarrow> string" where
  "error_description SpvBadTarget = ''bad proof of work target''"
| "error_description SpvBadProofOfWork = ''bad proof of work''"
| "error_description UnconnectedHeader = ''unconnected header''"
| "error_description NoTip = ''no chain tip found''"
| "error_description UnknownUTXO = ''unknown utxo''"
| "error_description NoPeers = ''no peers''"
| "error_description BadMerkleRoot = ''merkle root of header does not match transaction list''"
| "error_description (Downstream s) = s"
| "error_description (IO err) = fe_description err"
| "error_description (Util err) = fe_description err"
| "error_description (Hammersbald err) = fe_description err"
| "error_description (Serialize err) = fe_description err"
| "error_description Handshake = ''handshake''"
| "error_description (Lost s) = s"

text \<open>The source of an error is an error of another crate: its two texts.\<close>

fun error_source :: "error \<Rightarrow> foreign_error option" where
  "error_source (IO err) = Some (foreign_error.truncate err)"
| "error_source (Util err) = Some err"
| "error_source (Hammersbald err) = Some err"
| "error_source (Serialize err) = Some (foreign_error.truncate err)"
| "error_source _ = None"

fun error_display :: "error \<Rightarrow> string" where
  "error_display (Lost s) = s"
| "error_display (Downstream s) = s"
| "error_display (IO err) = ''IO error: '' @ fe_display err"
| "error_display (Util err) = ''Util error: '' @ fe_display err"
| "error_display (Hammersbald err) = ''Hammersbald error: '' @ fe_display err"
| "error_display (Serialize err) = ''Serialize error: '' @ fe_display err"
| "error_display e = error_description e"

definition error_debug :: "error \<Rightarrow> string" where
  "error_debug e = error_display e"

section \<open>Conversions\<close>

text \<open>\<open>io::Error::new\<close> with a text: the text is what it describes and displays.\<close>

definition io_Error_new :: "io_kind \<Rightarrow> string \<Rightarrow> io_error" where
  "io_Error_new kind s = \<lparr>fe_description = s, fe_display = s, io_kind = kind\<rparr>"

fun io_from_error :: "error \<Rightarrow> io_error" where
  "io_from_error (IO e) = e"
| "io_from_error err = io_Error_new Other (error_description err)"

definition error_from_io :: "io_error \<Rightarrow> error" where
  "error_from_io err = IO err"

definition error_from_util :: "foreign_error \<Rightarrow> error" where
  "error_from_util err = Util err"

definition error_from_hammersbald :: "foreign_error \<Rightarrow> error" where
  "error_from_hammersbald err = Hammersbald err"

definition error_from_encode :: "encode_error \<Rightarrow> error" where
  "error_from_encode err = Serialize err"

definition error_from_box :: "foreign_error \<Rightarrow> error" where
  "error_from_box err = Downstream (fe_description err)"

fun error_from_bip158 :: "bip158_error \<Rightarrow> error" where
  "error_from_bip158 (Bip158Io io) = IO io"
| "error_from_bip158 (UtxoMissing _) = UnknownUTXO"

text \<open>The \<open>?\<close> operator converts the error of the called function.\<close>

fun map_err :: "('e \<Rightarrow> 'f) \<Rightarrow> ('e, 'a) outcome \<Rightarrow> ('f, 'a) outcome" where
  "map_err f (Ok a) = Ok a"
| "map_err f (Err e) = Err (f e)"
| "map_err f Panicked = Panicked"

declare map_err.simps [outcome_simps]

lemma map_err_eq_Ok [simp]: "map_err f m = Ok a \<longleftrightarrow> m = Ok a"
  by (cases m) auto

section \<open>What conversions keep\<close>

lemma source_description: "error_source e = Some s \<Longrightarrow> error_description e = fe_description s"
  by (cases e) (auto simp: foreign_error.defs)

text \<open>
  Turning an error of the library into an \<open>io::Error\<close> keeps its description, an \<open>io::Error\<close>
  survives the way there and back unchanged, and only the errors that wrap another one have a
  source, whose description is theirs.
\<close>

theorem error_io_conversion:
  "fe_description (io_from_error e) = error_description e \<and>
   io_from_error (error_from_io x) = x \<and>
   (case error_source e of
      Some s \<Rightarrow> fe_description s = error_description e \<and> (\<exists>p. error_display e = p @ fe_display s)
    | None \<Rightarrow> error_display e = error_description e)"
  by (cases e) (auto simp: io_Error_new_def error_from_io_def foreign_error.defs)

end
