(* ===== verification/Header_Work.thy ===== *)
theory Header_Work
  imports Complex_Main Murmel_Error
begin

text \<open>
  Block headers, their proof of work and the arithmetic on it
  (\<open>src/src/headercache.rs\<close>: \<open>CachedHeader\<close>, \<open>log2\<close>, \<open>exp2\<close>, \<open>max_target\<close>,
  \<open>satoshi_the_precision\<close>; \<open>src/src/chaindb.rs\<close>: \<open>StoredHeader\<close>). The functions of other crates
  that this code calls are the fields of the record \<open>ext\<close>, the first argument of the
  definitions; what is documented of them is the hypothesis \<open>ext_ok\<close>.
\<close>

section \<open>Floating point numbers\<close>

text \<open>
  \<open>f64\<close>: the finite values are rational numbers. Comparisons with \<open>NaN\<close> are false.
\<close>

datatype f64 = NaN | NegInf | PosInf | Fin rat

fun f64_less :: "f64 \<Rightarrow> f64 \<Rightarrow> bool" where
  "f64_less (Fin a) (Fin b) = (a < b)"
| "f64_less NegInf (Fin b) = True"
| "f64_less NegInf PosInf = True"
| "f64_less (Fin a) PosInf = True"
| "f64_less _ _ = False"

text \<open>The number of binary digits of a number.\<close>

fun bit_length :: "nat \<Rightarrow> nat" where
  "bit_length n = (if n = 0 then 0 else Suc (bit_length (n div 2)))"

declare bit_length.simps [simp del]

text \<open>\<open>as f64\<close> on an unsigned integer rounds to 53 binary digits, ties to even.\<close>

definition round_f64 :: "nat \<Rightarrow> nat" where
  "round_f64 n =
     (let k = bit_length n - 53; q = n div 2 ^ k; r = n mod 2 ^ k
      in if 2 * r < 2 ^ k \<or> 2 * r = 2 ^ k \<and> even q then q * 2 ^ k else (q + 1) * 2 ^ k)"

definition u128_as_f64 :: "u128 \<Rightarrow> f64" where
  "u128_as_f64 w = Fin (of_nat (round_f64 (unat w)))"

text \<open>\<open>as u128\<close> on a float truncates and saturates.\<close>

fun f64_as_u128 :: "f64 \<Rightarrow> u128" where
  "f64_as_u128 NaN = 0"
| "f64_as_u128 NegInf = 0"
| "f64_as_u128 PosInf = -1"
| "f64_as_u128 (Fin r) =
     (if r < 0 then 0 else if 2 ^ 128 \<le> r then -1 else of_nat (nat \<lfloor>r\<rfloor>))"

section \<open>Headers\<close>

text \<open>The header of a block, as the bitcoin crate declares it.\<close>

record BlockHeader =
  bh_version :: u32
  prev_blockhash :: hash
  merkle_root :: hash
  bh_time :: u32
  bh_bits :: u32
  bh_nonce :: u32

text \<open>A header enriched with its position on the block chain (\<open>chaindb.rs\<close>).\<close>

record StoredHeader =
  sh_header :: BlockHeader
  sh_height :: u32
  sh_log2work :: f64

record CachedHeader =
  ch_stored :: StoredHeader
  ch_id :: hash

abbreviation ch_header :: "CachedHeader \<Rightarrow> BlockHeader" where
  "ch_header c \<equiv> sh_header (ch_stored c)"

abbreviation ch_height :: "CachedHeader \<Rightarrow> u32" where
  "ch_height c \<equiv> sh_height (ch_stored c)"

abbreviation ch_log2work :: "CachedHeader \<Rightarrow> f64" where
  "ch_log2work c \<equiv> sh_log2work (ch_stored c)"

abbreviation ch_prev :: "CachedHeader \<Rightarrow> hash" where
  "ch_prev c \<equiv> prev_blockhash (ch_header c)"

section \<open>What other crates and the build supply\<close>

text \<open>
  \<open>x_checks\<close>: whether the build has overflow checks. \<open>x_from_u64\<close> to \<open>x_bit\<close>: the operations of
  \<open>Uint256\<close> of the bitcoin crate (division by zero panics: \<open>None\<close>). \<open>x_hash\<close>, \<open>x_target\<close>,
  \<open>x_work\<close>: the methods \<open>bitcoin_hash\<close>, \<open>target\<close> and \<open>work\<close> of its \<open>BlockHeader\<close>.
  \<open>x_read_u64_into\<close>: \<open>LittleEndian::read_u64_into\<close> of the byteorder crate. \<open>x_log2\<close>, \<open>x_exp2\<close>: the
  methods of \<open>f64\<close>, whose precision Rust leaves to the platform.
\<close>

record ext =
  x_checks :: bool
  x_from_u64 :: "u64 \<Rightarrow> u256 option"
  x_shl :: "u256 \<Rightarrow> nat \<Rightarrow> u256"
  x_shr :: "u256 \<Rightarrow> nat \<Rightarrow> u256"
  x_not :: "u256 \<Rightarrow> u256"
  x_div :: "u256 \<Rightarrow> u256 \<Rightarrow> u256 option"
  x_add :: "u256 \<Rightarrow> u256 \<Rightarrow> u256"
  x_mul_u32 :: "u256 \<Rightarrow> u32 \<Rightarrow> u256"
  x_increment :: "u256 \<Rightarrow> u256"
  x_le :: "u256 \<Rightarrow> u256 \<Rightarrow> bool"
  x_bits :: "u256 \<Rightarrow> nat"
  x_bit :: "u256 \<Rightarrow> nat \<Rightarrow> bool"
  x_hash :: "BlockHeader \<Rightarrow> hash"
  x_target :: "BlockHeader \<Rightarrow> u256"
  x_work :: "BlockHeader \<Rightarrow> u256"
  x_read_u64_into :: "u8 list \<Rightarrow> u64 list"
  x_log2 :: "f64 \<Rightarrow> f64"
  x_exp2 :: "f64 \<Rightarrow> f64"

text \<open>
  \<open>Uint256\<close> is declared as an array of four \<open>u64\<close>, the least significant first: \<open>limbs\<close> is the
  constructor applied to such an array and \<open>limb\<close> the access to an element.
\<close>

fun limbs :: "u64 list \<Rightarrow> u256" where
  "limbs [] = 0"
| "limbs (l # ls) = ucast l + push_bit 64 (limbs ls)"

definition limb :: "nat \<Rightarrow> u256 \<Rightarrow> u64" where
  "limb i w = ucast (drop_bit (64 * i) w)"

section \<open>CachedHeader\<close>

definition CachedHeader_new :: "hash \<Rightarrow> StoredHeader \<Rightarrow> CachedHeader" where
  "CachedHeader_new i header = \<lparr>ch_stored = header, ch_id = i\<rparr>"

definition CachedHeader_bitcoin_hash :: "CachedHeader \<Rightarrow> hash" where
  "CachedHeader_bitcoin_hash c = ch_id c"

definition StoredHeader_bitcoin_hash :: "ext \<Rightarrow> StoredHeader \<Rightarrow> hash" where
  "StoredHeader_bitcoin_hash X s = x_hash X (sh_header s)"

text \<open>The target a block hash must not exceed, from the compact encoding in \<open>bits\<close>.\<close>

definition CachedHeader_target :: "ext \<Rightarrow> CachedHeader \<Rightarrow> u256 result" where
  "CachedHeader_target X c =
     (let bits = bh_bits (ch_header c);
          unshifted_expt = drop_bit 24 bits;
          (mant, expt) =
            (if unshifted_expt \<le> 3
             then (drop_bit (unat (8 * (3 - unshifted_expt))) (bits AND 0xFFFFFF), 0)
             else (bits AND 0xFFFFFF, 8 * (drop_bit 24 bits - 3)))
      in if 0x7FFFFF < mant then Ok 0
         else obind (unwrap (x_from_u64 X (ucast mant))) (\<lambda>m. Ok (x_shl X m (unat expt))))"

definition CachedHeader_spv_validate :: "ext \<Rightarrow> CachedHeader \<Rightarrow> u256 \<Rightarrow> unit result" where
  "CachedHeader_spv_validate X c required_target =
     obind (CachedHeader_target X c) (\<lambda>target.
       if target \<noteq> required_target then Err SpvBadTarget
       else let data = into_inner (CachedHeader_bitcoin_hash c);
                ret = x_read_u64_into X data;
                hash = limbs ret
            in if x_le X hash target then Ok () else Err SpvBadProofOfWork)"

definition CachedHeader_work :: "ext \<Rightarrow> CachedHeader \<Rightarrow> u256 result" where
  "CachedHeader_work X c =
     obind (CachedHeader_target X c) (\<lambda>t.
       let ret = x_not X t; ret1 = x_increment X t
       in obind (unwrap (x_div X ret ret1)) (\<lambda>q. Ok (x_increment X q)))"

section \<open>The logarithm of the work\<close>

definition HeaderCache_log2 :: "ext \<Rightarrow> u256 \<Rightarrow> f64 result" where
  "HeaderCache_log2 X work =
     (if limb 2 work = 0 \<and> limb 3 work = 0
      then Ok (x_log2 X (u128_as_f64 (ucast (limb 0 work) + push_bit 64 (ucast (limb 1 work)))))
      else Panicked)"

definition HeaderCache_exp2 :: "ext \<Rightarrow> f64 \<Rightarrow> u256 result" where
  "HeaderCache_exp2 X n =
     (if f64_less n (Fin 128)
      then let e = f64_as_u128 (x_exp2 X n)
           in Ok (limbs [ucast e, ucast (drop_bit 64 e), 0, 0])
      else Panicked)"

section \<open>Targets\<close>

definition HeaderCache_max_target :: "ext \<Rightarrow> u256 result" where
  "HeaderCache_max_target X = obind (unwrap (x_from_u64 X 0xFFFF)) (\<lambda>m. Ok (x_shl X m 208))"

definition HeaderCache_satoshi_the_precision :: "ext \<Rightarrow> u256 \<Rightarrow> u256 result" where
  "HeaderCache_satoshi_the_precision X n =
     obind (rust_sub (x_checks X) ((word_of_nat (x_bits X n) + 7) div 8 :: u64) 3) (\<lambda>d.
       let bits = unat (8 * d);
           ret = x_shr X n bits;
           ret = (if x_bit X ret 23 then x_shl X (x_shr X ret 8) 8 else ret)
       in Ok (x_shl X ret bits))"

section \<open>What is documented of the other crates\<close>

text \<open>Little-endian reading of 64-bit words, as the byteorder crate documents it.\<close>

definition le_u64 :: "u8 list \<Rightarrow> u64" where
  "le_u64 bs = foldr (\<lambda>b w. ucast b + push_bit 8 w) bs 0"

definition le_u64s :: "u8 list \<Rightarrow> u64 list" where
  "le_u64s bs = map (\<lambda>i. le_u64 (take 8 (drop (8 * i) bs))) [0..<4]"

text \<open>
  \<open>Uint256\<close> is an unsigned integer of 256 bits: shifts drop what leaves the word, division is
  integer division, addition, multiplication by a \<open>u32\<close> and increment are exact where the result
  fits, \<open>bits\<close> is the number of binary digits and \<open>bit\<close> tests one.
\<close>

definition ext_ok :: "ext \<Rightarrow> bool" where
  "ext_ok X \<longleftrightarrow>
     (\<forall>v. x_from_u64 X v = Some (ucast v)) \<and>
     (\<forall>a n. x_shl X a n = push_bit n a) \<and>
     (\<forall>a n. x_shr X a n = drop_bit n a) \<and>
     (\<forall>a. x_not X a = NOT a) \<and>
     (\<forall>a b. b \<noteq> 0 \<longrightarrow> x_div X a b = Some (a div b)) \<and>
     (\<forall>a b. unat a + unat b < 2 ^ 256 \<longrightarrow> x_add X a b = a + b) \<and>
     (\<forall>a b. unat a * unat b < 2 ^ 256 \<longrightarrow> x_mul_u32 X a b = a * ucast b) \<and>
     (\<forall>a. a \<noteq> -1 \<longrightarrow> x_increment X a = a + 1) \<and>
     (\<forall>a b. x_le X a b = (a \<le> b)) \<and>
     (\<forall>a. x_bits X a = bit_length (unat a)) \<and>
     (\<forall>a i. x_bit X a i = bit a i) \<and>
     (\<forall>bs. length bs = 32 \<longrightarrow> x_read_u64_into X bs = le_u64s bs)"

text \<open>
  A model of these functions on HOL's words. The header hash, the compact decoding and the two
  float functions are given with it; a concrete choice makes the definitions below evaluate.
\<close>

text \<open>The number the compact encoding stands for, and the target of a header.\<close>

definition compact_target :: "nat \<Rightarrow> nat" where
  "compact_target bits =
     (let e = bits div 2 ^ 24; m = bits mod 2 ^ 24;
          mant = (if e \<le> 3 then m div 256 ^ (3 - e) else m)
      in if 0x7FFFFF < mant then 0 else if e \<le> 3 then mant else mant * 256 ^ (e - 3) mod 2 ^ 256)"

definition header_target :: "BlockHeader \<Rightarrow> u256" where
  "header_target h = word_of_nat (compact_target (unat (bh_bits h)))"

definition ext_word :: "bool \<Rightarrow> (BlockHeader \<Rightarrow> hash) \<Rightarrow> ext" where
  "ext_word checks h =
     \<lparr>x_checks = checks, x_from_u64 = (\<lambda>v. Some (ucast v)),
      x_shl = (\<lambda>a n. push_bit n a), x_shr = (\<lambda>a n. drop_bit n a), x_not = (\<lambda>a. NOT a),
      x_div = (\<lambda>a b. if b = 0 then None else Some (a div b)), x_add = (\<lambda>a b. a + b),
      x_mul_u32 = (\<lambda>a b. a * ucast b), x_increment = (\<lambda>a. a + 1), x_le = (\<lambda>a b. a \<le> b),
      x_bits = (\<lambda>a. bit_length (unat a)), x_bit = (\<lambda>a i. bit a i), x_hash = h,
      x_target = header_target,
      x_work = (\<lambda>b. word_of_nat (2 ^ 256 div (unat (header_target b) + 1))),
      x_read_u64_into = le_u64s, x_log2 = (\<lambda>f. f), x_exp2 = (\<lambda>f. f)\<rparr>"

text \<open>Dropping the precision of a target, on natural numbers.\<close>

definition satoshi_nat :: "nat \<Rightarrow> nat" where
  "satoshi_nat n =
     (let s = 8 * ((bit_length n + 7) div 8 - 3); r = n div 2 ^ s
      in if 2 ^ 23 \<le> r then r div 256 * 256 * 2 ^ s else r * 2 ^ s)"

lemma ext_okD:
  assumes "ext_ok X"
  shows "x_from_u64 X v = Some (ucast v)"
    and "x_shl X a n = push_bit n a"
    and "x_shr X a n = drop_bit n a"
    and "x_not X a = NOT a"
    and "b \<noteq> 0 \<Longrightarrow> x_div X a b = Some (a div b)"
    and "unat a + unat b < 2 ^ 256 \<Longrightarrow> x_add X a b = a + b"
    and "unat a * unat t < 2 ^ 256 \<Longrightarrow> x_mul_u32 X a t = a * ucast t"
    and "a \<noteq> -1 \<Longrightarrow> x_increment X a = a + 1"
    and "x_le X a b = (a \<le> b)"
    and "x_bits X a = bit_length (unat a)"
    and "x_bit X a n = bit a n"
    and "length bs = 32 \<Longrightarrow> x_read_u64_into X bs = le_u64s bs"
  using assms unfolding ext_ok_def by blast+

lemma ext_word_ok: "ext_ok (ext_word checks h)"
  by (simp add: ext_ok_def ext_word_def)

section \<open>Limbs and bytes\<close>

lemma limbs_limb: "limbs [limb 0 w, limb 1 w, limb 2 w, limb 3 w] = w"
proof -
  have top: "take_bit 64 (drop_bit 192 w) = drop_bit 192 w"
    by (rule bit_word_eqI) (auto simp: bit_simps dest: bit_imp_le_length)
  have 2: "take_bit 64 (drop_bit 128 w) + push_bit 64 (drop_bit 192 w) = drop_bit 128 w"
    using bits_split [of 64 "drop_bit 128 w"] by (simp add: drop_bit_drop_bit)
  have 1: "take_bit 64 (drop_bit 64 w) + push_bit 64 (drop_bit 128 w) = drop_bit 64 w"
    using bits_split [of 64 "drop_bit 64 w"] by (simp add: drop_bit_drop_bit)
  show ?thesis
    using bits_split [of 64 w] 1 2 top by (simp add: limb_def ucast_ucast_take)
qed

lemma le_u64_bytes:
  "le_u64 (map (\<lambda>i. ucast (drop_bit (8 * i) w)) [0..<8]) = (w :: u64)"
proof -
  have top: "take_bit 8 (drop_bit 56 w) = drop_bit 56 w"
    by (rule bit_word_eqI) (auto simp: bit_simps dest: bit_imp_le_length)
  have s: "take_bit 8 (drop_bit k w) + push_bit 8 (drop_bit (8 + k) w) = drop_bit k w" for k
    using bits_split [of 8 "drop_bit k w"] by (simp add: drop_bit_drop_bit)
  show ?thesis
    using bits_split [of 8 w] s [of 8] s [of 16] s [of 24] s [of 32] s [of 40] s [of 48] top
    by (simp add: le_u64_def upt_conv_Cons ucast_ucast_take)
qed

lemma byte_of_limb:
  fixes h :: u256
  assumes "i < 4" "j < 8"
  shows "(ucast (drop_bit (8 * j) (limb i h)) :: u8) = ucast (drop_bit (64 * i + 8 * j) h)"
  unfolding limb_def using assms
  by (intro bit_word_eqI) (auto simp: bit_simps algebra_simps)

lemma le_u64s_into_inner: "le_u64s (into_inner h) = map (\<lambda>i. limb i h) [0..<4]"
proof -
  have "le_u64 (take 8 (drop (8 * i) (into_inner h))) = limb i h" if i: "i < 4" for i
  proof -
    have "take 8 (drop (8 * i) (into_inner h)) = map (\<lambda>j. ucast (drop_bit (64 * i + 8 * j) h)) [0..<8]"
      using i by (intro nth_equalityI) (auto simp: into_inner_def algebra_simps)
    also have "\<dots> = map (\<lambda>j. ucast (drop_bit (8 * j) (limb i h))) [0..<8]"
      using i by (intro map_cong) (auto simp: byte_of_limb)
    finally show ?thesis by (simp add: le_u64_bytes del: map_map)
  qed
  then show ?thesis by (simp add: le_u64s_def)
qed

lemma limbs_le: "limbs (le_u64s (into_inner h)) = h"
  using limbs_limb [of h] by (simp add: le_u64s_into_inner upt_conv_Cons eval_nat_numeral)

section \<open>The compact encoding\<close>

lemma unat_and_mask24: "unat (w AND 0xFFFFFF :: u32) = unat w mod 2 ^ 24"
proof -
  have "w AND 0xFFFFFF = take_bit 24 w"
    by (simp add: take_bit_eq_mask mask_eq_exp_minus_1)
  then show ?thesis by (simp add: unsigned_take_bit_eq) (simp add: take_bit_eq_mod)
qed

lemma unat_mult8: "unat x < 2 ^ 29 \<Longrightarrow> unat (8 * x :: u32) = 8 * unat x"
  by (simp add: unat_word_ariths)

lemma compact_shift_small:
  fixes e b :: u32
  assumes e: "e \<le> 3"
  shows "unat (drop_bit (unat (8 * (3 - e))) (b AND 0xFFFFFF)) = unat b mod 2 ^ 24 div 256 ^ (3 - unat e)"
proof -
  have s: "unat (3 - e) = 3 - unat e" using e by (simp add: unat_sub)
  have "unat (8 * (3 - e)) = 8 * (3 - unat e)"
    by (subst unat_mult8) (simp_all add: s)
  then show ?thesis by (simp only: unat_drop_bit unat_and_mask24 power_256)
qed

lemma ucast_u32_u64: "(ucast (ucast (m::u32) :: u64) :: u256) = word_of_nat (unat m)"
  by (rule bit_word_eqI) (auto simp: bit_simps dest: bit_imp_le_length)

lemma compact_shift_large:
  fixes e m :: u32
  assumes e: "3 < e" "unat e < 256"
  shows "push_bit (unat (8 * (e - 3))) (ucast (ucast m :: u64)) =
    (word_of_nat (unat m * 256 ^ (unat e - 3) mod 2 ^ 256) :: u256)"
proof -
  have s: "unat (e - 3) = unat e - 3" using e by (simp add: unat_sub)
  have "unat (8 * (e - 3)) = 8 * (unat e - 3)"
    by (subst unat_mult8) (use e in \<open>simp_all add: s\<close>)
  moreover have "unat (ucast (ucast m :: u64) :: u256) = unat m"
    by (simp only: unat_ucast_up len_of_numeral_defs len_num1)
  ultimately show ?thesis
    by (intro unsigned_word_eqI [where ?'a = nat]) (simp add: unat_push_bit power_256 unsigned_of_nat take_bit_eq_mod)
qed

lemma CachedHeader_target_eq:
  assumes X: "ext_ok X"
  shows "CachedHeader_target X c = Ok (word_of_nat (compact_target (unat (bh_bits (ch_header c)))))"
proof -
  define b where "b = bh_bits (ch_header c)"
  define e where "e = drop_bit 24 b"
  have e: "unat b div 2 ^ 24 = unat e" by (simp add: e_def unat_drop_bit)
  have "unat b < 2 ^ 32" using unsigned_less [of b] by simp
  then have e256: "unat e < 256" by (simp add: e [symmetric] less_mult_imp_div_less)
  show ?thesis
  proof (cases "e \<le> 3")
    case True
    define m where "m = drop_bit (unat (8 * (3 - e))) (b AND 0xFFFFFF)"
    have m: "unat b mod 2 ^ 24 div 256 ^ (3 - unat e) = unat m"
      using compact_shift_small [OF True, of b] by (simp add: m_def)
    have "unat e \<le> 3" using True by (simp add: word_le_nat_alt)
    then show ?thesis using True
      unfolding CachedHeader_target_def b_def [symmetric] e_def [symmetric] Let_def compact_target_def e
        m m_def [symmetric]
      by (simp add: ext_okD [OF X] word_less_nat_alt ucast_u32_u64)
  next
    case False
    define m where "m = b AND 0xFFFFFF"
    have m: "unat b mod 2 ^ 24 = unat m" by (simp add: m_def unat_and_mask24)
    have e_gt: "3 < e" using False by (simp add: not_le)
    have e3: "(unat e \<le> 3) = False" "(e \<le> 3) = False"
      using False by (simp_all add: word_le_nat_alt)
    show ?thesis using compact_shift_large [OF e_gt e256, of m]
      unfolding CachedHeader_target_def b_def [symmetric] e_def [symmetric] Let_def compact_target_def e
        m m_def [symmetric] e3
      by (simp add: ext_okD [OF X] word_less_nat_alt not_le)
  qed
qed

lemma CachedHeader_target_ok:
  "ext_ok X \<Longrightarrow> CachedHeader_target X c = Ok (header_target (ch_header c))"
  by (simp add: CachedHeader_target_eq header_target_def)

lemma spv_validate_eq:
  assumes "ext_ok X"
  shows "CachedHeader_spv_validate X c t =
    (if header_target (ch_header c) \<noteq> t then Err SpvBadTarget
     else if ch_id c \<le> t then Ok () else Err SpvBadProofOfWork)"
proof -
  have "length (into_inner (ch_id c)) = 32" by (simp add: into_inner_def)
  then show ?thesis using assms
    by (simp add: CachedHeader_spv_validate_def CachedHeader_target_ok CachedHeader_bitcoin_hash_def
        ext_okD limbs_le)
qed

lemma compact_target_less: "compact_target b < 2 ^ 256"
  by (simp add: compact_target_def Let_def)

lemma compact_target_even_or_small: "compact_target b < 2 ^ 24 \<or> 256 dvd compact_target b"
proof -
  have "256 dvd m * 256 ^ k mod 2 ^ 256" if "0 < k" for m k :: nat
    using that by (intro dvd_mod dvd_mult) (simp_all add: dvd_power)
  then show ?thesis by (simp add: compact_target_def Let_def not_le)
qed

lemma unat_header_target: "unat (header_target h) = compact_target (unat (bh_bits h))"
  using compact_target_less by (simp add: header_target_def unat_word_of_nat)

lemma header_target_not_max: "header_target h \<noteq> -1"
proof
  assume "header_target h = -1"
  then have "unat (header_target h) = unat (-1 :: u256)" by simp
  then have *: "compact_target (unat (bh_bits h)) = 2 ^ 256 - 1"
    by (simp add: unat_header_target unat_minus_one)
  show False
    using compact_target_even_or_small [of "unat (bh_bits h)"] unfolding * by simp
qed

theorem CachedHeader_work_eq:
  assumes X: "ext_ok X" and pos: "header_target (ch_header c) \<noteq> 0"
  shows "\<exists>w. CachedHeader_work X c = Ok w \<and>
    unat w = 2 ^ 256 div (unat (header_target (ch_header c)) + 1)"
proof -
  define t where "t = header_target (ch_header c)"
  have t: "t \<noteq> -1" "t \<noteq> 0" "0 < unat t"
    using header_target_not_max pos by (simp_all add: t_def unat_gt_0)
  have lt: "unat t + 1 < 2 ^ 256"
  proof -
    have "unat t \<noteq> unat (-1 :: u256)" using t(1) by (metis unsigned_word_eqI)
    then show ?thesis using unat_less_exp [of t] by (simp add: unat_minus_one)
  qed
  have inc: "unat (t + 1) = unat t + 1" using lt by (simp add: unat_word_ariths)
  have nt: "unat (NOT t) = 2 ^ 256 - 1 - unat t" by (simp add: unat_NOT)
  define q where "q = NOT t div (t + 1)"
  have uq: "unat q = (2 ^ 256 - 1 - unat t) div (unat t + 1)" by (simp add: q_def unat_div nt inc)
  have sum: "2 ^ 256 = (2 ^ 256 - 1 - unat t) + (unat t + 1)" using lt by simp
  have q1: "2 ^ 256 div (unat t + 1) = Suc (unat q)"
    unfolding uq by (subst sum, subst div_add_self2) simp_all
  have "2 ^ 256 div (unat t + 1) \<le> (2 ^ 256 :: nat) div 2" by (rule div_le_mono2) (use t in auto)
  then have qs: "Suc (unat q) < 2 ^ 256 - 1" unfolding q1 by simp
  then have "q \<noteq> -1" using unat_minus_one [where 'a=256] by auto
  moreover have "unat (q + 1) = Suc (unat q)" using qs by (simp add: unat_word_ariths)
  moreover have "t + 1 \<noteq> 0" using inc by (metis add_eq_0_iff_both_eq_0 unat_0 zero_neq_one)
  ultimately show ?thesis
    using X t q1 by (simp add: CachedHeader_work_def CachedHeader_target_ok t_def [symmetric] ext_okD q_def)
qed

section \<open>The logarithm of the work\<close>

lemma unat_limb: "unat (limb i w) = unat w div 2 ^ (64 * i) mod 2 ^ 64"
  by (simp add: limb_def unsigned_ucast_eq unsigned_take_bit_eq take_bit_eq_mod unat_drop_bit)

lemma limb_zero_iff: "limb 2 w = 0 \<and> limb 3 w = 0 \<longleftrightarrow> unat w < 2 ^ 128"
proof -
  have *: "limb i w = 0 \<longleftrightarrow> unat w div 2 ^ (64 * i) mod 2 ^ 64 = 0" for i
    by (metis unat_limb unat_eq_zero)
  have "unat w < 2 ^ 256" using unat_less_exp [of w] by simp
  then have "unat w div 2 ^ 192 < 2 ^ 64" by (simp add: less_mult_imp_div_less)
  then have 3: "limb 3 w = 0 \<longleftrightarrow> unat w < 2 ^ 192" unfolding * by (simp add: div_eq_0_iff)
  have "limb 2 w = 0 \<longleftrightarrow> unat w < 2 ^ 128" if "unat w < 2 ^ 192"
  proof -
    have "unat w div 2 ^ 128 < 2 ^ 64" using that by (simp add: less_mult_imp_div_less)
    then show ?thesis unfolding * by (simp add: div_eq_0_iff)
  qed
  moreover have "unat w < 2 ^ 192" if "unat w < 2 ^ 128" using that by simp
  ultimately show ?thesis using 3 by blast
qed

lemma u128_of_limbs:
  "ucast (limb 0 w) + push_bit 64 (ucast (limb 1 w)) = (ucast w :: u128)"
proof -
  have "(ucast (limb 0 w) :: u128) = take_bit 64 (ucast w)"
    by (rule bit_word_eqI) (auto simp: limb_def bit_simps)
  moreover have "(ucast (limb 1 w) :: u128) = drop_bit 64 (ucast w)"
    by (rule bit_word_eqI) (auto simp: limb_def bit_simps)
  ultimately show ?thesis using bits_split [of 64 "ucast w :: u128"] by simp
qed

section \<open>Dropping precision\<close>

lemma bit_length_bounds:
  "0 < n \<Longrightarrow> 0 < bit_length n \<and> 2 ^ (bit_length n - 1) \<le> n \<and> n < 2 ^ bit_length n"
proof (induction n rule: bit_length.induct)
  case (1 n)
  show ?case
  proof (cases "n div 2 = 0")
    case True
    with 1 have "n = 1" by auto
    then show ?thesis by (simp add: bit_length.simps [of "Suc 0"] bit_length.simps [of 0])
  next
    case False
    with 1 have IH: "0 < bit_length (n div 2)" "2 ^ (bit_length (n div 2) - 1) \<le> n div 2"
      "n div 2 < 2 ^ bit_length (n div 2)" by auto
    obtain k where k: "bit_length (n div 2) = Suc k" using IH(1) gr0_conv_Suc by auto
    have "2 ^ Suc k \<le> n" "n < 2 ^ Suc (Suc k)" using IH k by auto
    then show ?thesis using 1 k by (simp add: bit_length.simps [of n])
  qed
qed

lemma bit_length_le: "n < 2 ^ k \<Longrightarrow> bit_length n \<le> k"
proof (cases "n = 0")
  case True
  then show ?thesis by (simp add: bit_length.simps)
next
  case False
  assume "n < 2 ^ k"
  then have "(2::nat) ^ (bit_length n - 1) < 2 ^ k" using bit_length_bounds [of n] False by linarith
  then show ?thesis by (simp add: power_strict_increasing_iff)
qed

text \<open>The shift of a number of more than 16 binary digits, and what is left of it.\<close>

lemma satoshi_shift:
  assumes n: "2 ^ 16 \<le> n" "n < 2 ^ 256"
  defines "k \<equiv> (bit_length n + 7) div 8"
  shows "3 \<le> k" "k \<le> 32" "n div 2 ^ (8 * (k - 3)) < 2 ^ 24" "2 ^ (8 * (k - 3)) * 2 ^ 16 \<le> n"
proof -
  have b: "2 ^ (bit_length n - 1) \<le> n" "n < 2 ^ bit_length n" "0 < bit_length n"
    using bit_length_bounds [of n] n by (auto intro: Nat.gr0I)
  have "(2::nat) ^ 16 < 2 ^ bit_length n" using n b by linarith
  then have "16 < bit_length n" by (rule power_less_imp_less_exp [rotated]) simp
  then have len: "17 \<le> bit_length n" by simp
  then show k3: "3 \<le> k" unfolding k_def by presburger
  show "k \<le> 32" using bit_length_le [OF n(2)] by (simp add: k_def)
  have "bit_length n \<le> 8 * (k - 3) + 24" using k3 unfolding k_def by presburger
  then have "n < 2 ^ (8 * (k - 3) + 24)"
    using b(2) by (meson less_le_trans one_le_numeral power_increasing)
  then show "n div 2 ^ (8 * (k - 3)) < 2 ^ 24"
    by (simp add: less_mult_imp_div_less power_add mult.commute)
  have "8 * (k - 3) + 16 \<le> bit_length n - 1" using len unfolding k_def by presburger
  then have "(2::nat) ^ (8 * (k - 3) + 16) \<le> 2 ^ (bit_length n - 1)" by (simp add: power_increasing)
  then show "2 ^ (8 * (k - 3)) * 2 ^ 16 \<le> n" using b(1) by (simp add: power_add)
qed

lemma satoshi_nat_le: "satoshi_nat n \<le> n"
proof -
  define s where "s = 8 * ((bit_length n + 7) div 8 - 3)"
  have "n div 2 ^ s div 256 * 256 * 2 ^ s \<le> n div 2 ^ s * 2 ^ s" by simp
  also have "\<dots> \<le> n" by simp
  finally show ?thesis by (simp add: satoshi_nat_def Let_def s_def)
qed

lemma satoshi_nat_precise:
  assumes n: "2 ^ 16 \<le> n" "n < 2 ^ 256"
  shows "(n - satoshi_nat n) * 2 ^ 15 \<le> n"
proof -
  define s where "s = 8 * ((bit_length n + 7) div 8 - 3)"
  define r where "r = n div 2 ^ s"
  have n_eq: "n = r * 2 ^ s + n mod 2 ^ s" unfolding r_def by (rule div_mult_mod_eq [symmetric])
  have m: "n mod 2 ^ s < 2 ^ s" by simp
  note S = satoshi_shift [OF n, folded s_def]
  show ?thesis
  proof (cases "2 ^ 23 \<le> r")
    case True
    have r: "r * 2 ^ s = r div 256 * 256 * 2 ^ s + r mod 256 * 2 ^ s"
      by (metis add_mult_distrib div_mult_mod_eq)
    have "n - satoshi_nat n = n - r div 256 * 256 * 2 ^ s"
      using True by (simp add: satoshi_nat_def Let_def s_def r_def)
    also have "\<dots> = (r mod 256) * 2 ^ s + n mod 2 ^ s"
      using n_eq r by linarith
    also have "\<dots> \<le> 255 * 2 ^ s + 2 ^ s"
      using m by (intro add_mono mult_right_mono) auto
    finally have "(n - satoshi_nat n) * 2 ^ 15 \<le> 2 ^ 23 * 2 ^ s" by simp
    also have "\<dots> \<le> r * 2 ^ s" using True by simp
    finally show ?thesis using n_eq by linarith
  next
    case False
    have "n - satoshi_nat n = n mod 2 ^ s"
      using False n_eq by (simp add: satoshi_nat_def Let_def s_def [symmetric] r_def [symmetric])
    then have "(n - satoshi_nat n) * 2 ^ 15 \<le> 2 ^ s * 2 ^ 15" using m by simp
    also have "\<dots> \<le> 2 ^ s * 2 ^ 16" by simp
    finally show ?thesis using S(4) by (simp add: s_def)
  qed
qed

lemma compact_target_encode:
  assumes "3 \<le> e" "m \<le> 0x7FFFFF" "m * 256 ^ (e - 3) < 2 ^ 256"
  shows "compact_target (e * 2 ^ 24 + m) = m * 256 ^ (e - 3)"
proof -
  have "(e * 2 ^ 24 + m) div 2 ^ 24 = e" "(e * 2 ^ 24 + m) mod 2 ^ 24 = m"
    using assms(2) by simp_all
  then show ?thesis using assms by (auto simp: compact_target_def Let_def)
qed

lemma satoshi_nat_encodable:
  assumes n: "2 ^ 16 \<le> n" "n < 2 ^ 256"
  shows "\<exists>bits < 2 ^ 32. compact_target bits = satoshi_nat n"
proof -
  define k where "k = (bit_length n + 7) div 8"
  define r where "r = n div 2 ^ (8 * (k - 3))"
  note S = satoshi_shift [OF n, folded k_def, folded r_def]
  have lt: "satoshi_nat n < 2 ^ 256" using satoshi_nat_le [of n] n(2) by linarith
  show ?thesis
  proof (cases "2 ^ 23 \<le> r")
    case True
    have "k + 1 - 3 = Suc (k - 3)" using S(1) by simp
    then have eq: "satoshi_nat n = r div 256 * 256 ^ (k + 1 - 3)"
      using True by (simp add: satoshi_nat_def Let_def k_def [symmetric] r_def [symmetric] power_256)
    have "r div 256 \<le> 0x7FFFFF" using S(3) by simp
    then have "compact_target ((k + 1) * 2 ^ 24 + r div 256) = satoshi_nat n"
      using lt S(1) eq by (subst compact_target_encode) auto
    moreover have "(k + 1) * 2 ^ 24 + r div 256 < 2 ^ 32" using S(2,3) by auto
    ultimately show ?thesis by blast
  next
    case False
    then have eq: "satoshi_nat n = r * 256 ^ (k - 3)"
      by (simp add: satoshi_nat_def Let_def k_def [symmetric] r_def [symmetric] power_256)
    have "compact_target (k * 2 ^ 24 + r) = satoshi_nat n"
      using lt False S(1) eq by (subst compact_target_encode) auto
    moreover have "k * 2 ^ 24 + r < 2 ^ 32" using S(2) False by auto
    ultimately show ?thesis by blast
  qed
qed

lemma unat_u64_byte_count:
  assumes "b \<le> 256"
  shows "unat ((word_of_nat b + 7) div 8 :: u64) = (b + 7) div 8"
proof -
  have "unat (word_of_nat b :: u64) = b" using assms by (simp add: unat_word_of_nat)
  moreover have "unat (word_of_nat b + 7 :: u64) = unat (word_of_nat b :: u64) + 7"
    using assms calculation by (simp add: unat_word_ariths)
  ultimately show ?thesis by (simp add: unat_div)
qed

lemma unat_mult8_u64: "unat x < 2 ^ 61 \<Longrightarrow> unat (8 * x :: u64) = 8 * unat x"
  by (simp add: unat_word_ariths)

lemma bit_23_iff:
  fixes r :: u256
  assumes "unat r < 2 ^ 24"
  shows "bit r 23 \<longleftrightarrow> 2 ^ 23 \<le> unat r"
proof -
  have "bit r 23 \<longleftrightarrow> bit (unat r) 23" by (simp add: bit_unsigned_iff)
  also have "\<dots> \<longleftrightarrow> odd (unat r div 2 ^ 23)" by (simp add: bit_iff_odd)
  also have "\<dots> \<longleftrightarrow> 2 ^ 23 \<le> unat r"
  proof (cases "2 ^ 23 \<le> unat r")
    case True
    then have "unat r div 2 ^ 23 = 1" using assms by (intro div_nat_eqI) simp_all
    then show ?thesis using True by simp
  qed simp
  finally show ?thesis .
qed

lemma unat_shift_back:
  fixes n a :: u256
  assumes "unat a * 2 ^ s \<le> unat n"
  shows "unat (push_bit s a) = unat a * 2 ^ s"
  using assms unat_less_exp [of n] by (simp add: unat_push_bit)

lemma satoshi_the_precision_eq:
  assumes X: "ext_ok X" and n: "2 ^ 16 \<le> unat n"
  shows "HeaderCache_satoshi_the_precision X n = Ok (word_of_nat (satoshi_nat (unat n)))"
proof -
  define k where "k = (bit_length (unat n) + 7) div 8"
  define s where "s = 8 * (k - 3)"
  have lt: "unat n < 2 ^ 256" using unat_less_exp [of n] by simp
  note S = satoshi_shift [OF n lt, folded k_def, folded s_def]
  define q :: u64 where "q = (word_of_nat (bit_length (unat n)) + 7) div 8"
  have q: "unat q = k" using bit_length_le [OF lt] by (simp add: q_def k_def unat_u64_byte_count)
  have q3: "3 \<le> q" using q S(1) by (simp add: word_le_nat_alt)
  have d: "unat (q - 3) = k - 3" using q q3 by (simp add: unat_sub)
  have sh: "unat (8 * (q - 3)) = s"
    by (subst unat_mult8_u64) (use S(2) d in \<open>simp_all add: s_def\<close>)
  define r where "r = drop_bit s n"
  have r: "unat r = unat n div 2 ^ s" by (simp add: r_def unat_drop_bit)
  have bit: "bit r 23 \<longleftrightarrow> 2 ^ 23 \<le> unat r" using S(3) r by (intro bit_23_iff) simp
  define r' where "r' = (if bit r 23 then push_bit 8 (drop_bit 8 r) else r)"
  have r': "unat r' = (if 2 ^ 23 \<le> unat r then unat r div 256 * 256 else unat r)"
    using unat_less_exp [of r] by (simp add: r'_def bit unat_push_bit unat_drop_bit)
  have eq: "unat r' * 2 ^ s = satoshi_nat (unat n)"
    by (simp add: r' r satoshi_nat_def Let_def k_def [symmetric] s_def [symmetric])
  then have "unat (push_bit s r') = satoshi_nat (unat n)"
    using unat_shift_back [of r' s n] satoshi_nat_le [of "unat n"] by simp
  then have "push_bit s r' = word_of_nat (satoshi_nat (unat n))"
    using word_of_nat_unat_self [of "push_bit s r'"] by simp
  then show ?thesis
    unfolding HeaderCache_satoshi_the_precision_def ext_okD(10) [OF X] q_def [symmetric]
      rust_sub_Ok [OF q3] obind.simps Let_def sh
      ext_okD(2,3,11) [OF X] r_def [symmetric] r'_def by (simp only:)
qed

lemma log2_eq:
  "HeaderCache_log2 X w =
     (if unat w < 2 ^ 128 then Ok (x_log2 X (u128_as_f64 (word_of_nat (unat w)))) else Panicked)"
proof -
  have "(word_of_nat (unat w) :: u128) = ucast w" by (simp add: of_nat_unat)
  then show ?thesis
    unfolding HeaderCache_log2_def limb_zero_iff using u128_of_limbs [of w] by auto
qed

section \<open>Correctness of the proof of work arithmetic\<close>

definition sample_header :: BlockHeader where
  "sample_header = \<lparr>bh_version = 1, prev_blockhash = 0, merkle_root = 0, bh_time = 1231006505,
     bh_bits = 0x1d00ffff, bh_nonce = 7\<rparr>"

definition sample_cached :: CachedHeader where
  "sample_cached = CachedHeader_new 7 \<lparr>sh_header = sample_header, sh_height = 0, sh_log2work = Fin 32\<rparr>"

lemma sample_target: "unat (header_target sample_header) = 0xFFFF * 2 ^ 208"
  by (simp add: unat_header_target compact_target_def sample_header_def Let_def)

lemma sample_cached_header: "ch_header sample_cached = sample_header"
  by (simp add: sample_cached_def CachedHeader_new_def)

text \<open>
  The target decoded from the field \<open>bits\<close> is the number of the compact encoding, mantissa
  times a power of 256; a mantissa with the sign bit set gives 0. No input makes it panic.
\<close>

theorem target_decodes_compact:
  assumes "ext_ok X"
  shows "\<exists>t. CachedHeader_target X c = Ok t \<and>
    unat t = compact_target (unat (bh_bits (ch_header c)))"
  using assms by (simp add: CachedHeader_target_ok unat_header_target)

theorem target_decodes_compact_witness:
  "ext_ok (ext_word True (\<lambda>h. 0)) \<and>
   (\<exists>t. CachedHeader_target (ext_word True (\<lambda>h. 0)) sample_cached = Ok t \<and> unat t = 0xFFFF * 2 ^ 208)"
  using ext_word_ok target_decodes_compact [OF ext_word_ok, of True "\<lambda>h. 0" sample_cached]
    sample_target [unfolded unat_header_target]
  by (simp add: sample_cached_header)

text \<open>
  C31. \<open>spv_validate\<close> accepts exactly the headers whose target is the required one and whose hash,
  read as a little-endian number, does not exceed it; a wrong target and an insufficient hash are
  told apart by the error.
\<close>

theorem spv_validate_exact:
  assumes "ext_ok X"
  shows "CachedHeader_spv_validate X c t =
    (if header_target (ch_header c) \<noteq> t then Err SpvBadTarget
     else if unat (ch_id c) \<le> unat t then Ok () else Err SpvBadProofOfWork)"
  using assms by (simp add: spv_validate_eq word_le_nat_alt)

theorem spv_validate_exact_witness:
  "CachedHeader_spv_validate (ext_word True (\<lambda>h. 0)) sample_cached (header_target sample_header) = Ok ()"
  using spv_validate_exact [OF ext_word_ok, of True "\<lambda>h. 0" sample_cached "header_target sample_header"]
    sample_target
  by (simp add: sample_cached_header) (simp add: sample_cached_def CachedHeader_new_def)

text \<open>
  The work of a header with a positive target \<open>t\<close> is \<open>2 ^ 256 div (t + 1)\<close>, although that
  dividend does not fit into 256 bits.
\<close>

theorem work_of_target:
  assumes "ext_ok X" and "header_target (ch_header c) \<noteq> 0"
  shows "\<exists>w. CachedHeader_work X c = Ok w \<and>
    unat w = 2 ^ 256 div (unat (header_target (ch_header c)) + 1)"
  using assms by (rule CachedHeader_work_eq)

theorem work_of_target_witness:
  "header_target (ch_header sample_cached) \<noteq> 0 \<and>
   (\<exists>w. CachedHeader_work (ext_word True (\<lambda>h. 0)) sample_cached = Ok w \<and>
      unat w = 2 ^ 256 div (0xFFFF * 2 ^ 208 + 1))"
proof -
  have "header_target (ch_header sample_cached) \<noteq> 0"
    using sample_target by (auto simp: sample_cached_header)
  with work_of_target [OF ext_word_ok this, of True "\<lambda>h. 0"] sample_target show ?thesis
    by (simp add: sample_cached_header)
qed

text \<open>
  \<open>satoshi_the_precision\<close> of a number of at least 17 binary digits returns a number that the
  compact encoding can express, that is not larger, and that differs by at most one part in
  \<open>2 ^ 15\<close>.
\<close>

theorem satoshi_the_precision_encodable:
  assumes "ext_ok X" and "2 ^ 16 \<le> unat n"
  shows "\<exists>r bits. HeaderCache_satoshi_the_precision X n = Ok r \<and> bits < 2 ^ 32 \<and>
    compact_target bits = unat r \<and> unat r \<le> unat n \<and> (unat n - unat r) * 2 ^ 15 \<le> unat n"
proof -
  have n: "unat n < 2 ^ 256" using unat_less_exp [of n] by simp
  have "unat (word_of_nat (satoshi_nat (unat n)) :: u256) = satoshi_nat (unat n)"
    using satoshi_nat_le [of "unat n"] n by (intro unat_word_of_nat) simp
  with satoshi_the_precision_eq [OF assms] satoshi_nat_encodable [OF assms(2) n]
    satoshi_nat_le [of "unat n"] satoshi_nat_precise [OF assms(2) n]
  show ?thesis by auto
qed

theorem satoshi_the_precision_encodable_witness:
  "2 ^ 16 \<le> unat (0x12345678 :: u256) \<and>
   (\<exists>r bits. HeaderCache_satoshi_the_precision (ext_word True (\<lambda>h. 0)) 0x12345678 = Ok r \<and>
      bits < 2 ^ 32 \<and> compact_target bits = unat r \<and> unat r \<le> 0x12345678)"
  using satoshi_the_precision_encodable [of "ext_word True (\<lambda>h. 0)" "0x12345678", OF ext_word_ok] by auto

text \<open>
  The logarithm of an amount of work panics exactly from \<open>2 ^ 128\<close> on, and otherwise is taken
  of the whole amount: the two limbs lose nothing.
\<close>

theorem log2_domain:
  "HeaderCache_log2 X w =
     (if unat w < 2 ^ 128 then Ok (x_log2 X (u128_as_f64 (word_of_nat (unat w)))) else Panicked)"
  by (rule log2_eq)

end
