(* ===== verification/Header_Cache.thy ===== *)
theory Header_Cache
  imports Header_Work
begin

text \<open>
  The cache of headers and the chain with most work (\<open>src/src/headercache.rs\<close>, \<open>HeaderCache\<close>).
  An operation that takes \<open>&mut self\<close> returns the new cache with its outcome, also where the
  outcome is an error; the two loops that follow parent links may run forever on a cache whose
  links are cyclic, so \<open>add_header\<close> returns an option, \<open>None\<close> for not returning.
\<close>

section \<open>State\<close>

datatype Network = Bitcoin | Testnet | Regtest

record HeaderCache =
  hc_network :: Network
  hc_headers :: "hash \<rightharpoonup> CachedHeader"
  hc_trunk :: "hash list"

type_synonym added = "CachedHeader \<times> hash list option \<times> hash list option"

definition HeaderCache_new :: "Network \<Rightarrow> HeaderCache" where
  "HeaderCache_new network = \<lparr>hc_network = network, hc_headers = Map.empty, hc_trunk = []\<rparr>"

definition HeaderCache_add_header_unchecked ::
  "HeaderCache \<Rightarrow> hash \<Rightarrow> StoredHeader \<Rightarrow> HeaderCache" where
  "HeaderCache_add_header_unchecked hc i stored =
     (let cached = CachedHeader_new i stored
      in hc\<lparr>hc_headers := (hc_headers hc)(i \<mapsto> cached), hc_trunk := hc_trunk hc @ [i]\<rparr>)"

definition HeaderCache_reverse_trunk :: "HeaderCache \<Rightarrow> HeaderCache" where
  "HeaderCache_reverse_trunk hc = hc\<lparr>hc_trunk := rev (hc_trunk hc)\<rparr>"

definition HeaderCache_len :: "HeaderCache \<Rightarrow> nat" where
  "HeaderCache_len hc = length (hc_trunk hc)"

section \<open>Queries\<close>

definition HeaderCache_pos_on_trunk :: "HeaderCache \<Rightarrow> hash \<Rightarrow> u32 option" where
  "HeaderCache_pos_on_trunk hc hash =
     map_option (\<lambda>p. word_of_nat (length (hc_trunk hc) - p - 1))
       (position (\<lambda>e. e = hash) (rev (hc_trunk hc)))"

definition HeaderCache_tip_hash :: "HeaderCache \<Rightarrow> hash option" where
  "HeaderCache_tip_hash hc = (if hc_trunk hc = [] then None else Some (last (hc_trunk hc)))"

definition HeaderCache_get_header :: "HeaderCache \<Rightarrow> hash \<Rightarrow> CachedHeader option" where
  "HeaderCache_get_header hc i = hc_headers hc i"

definition HeaderCache_tip :: "HeaderCache \<Rightarrow> CachedHeader option" where
  "HeaderCache_tip hc =
     (case HeaderCache_tip_hash hc of Some i \<Rightarrow> HeaderCache_get_header hc i | None \<Rightarrow> None)"

text \<open>\<open>self.trunk.len() as u32\<close> keeps the low 32 bits of the length.\<close>

definition HeaderCache_get_header_for_height :: "HeaderCache \<Rightarrow> u32 \<Rightarrow> CachedHeader option" where
  "HeaderCache_get_header_for_height hc height =
     (if height < word_of_nat (length (hc_trunk hc))
      then hc_headers hc (hc_trunk hc ! unat height) else None)"

text \<open>
  The iterators as the outcome of running them to the end: an entry of the trunk that is not in
  the map makes the \<open>unwrap\<close> panic.
\<close>

fun lookup_all :: "(hash \<rightharpoonup> CachedHeader) \<Rightarrow> hash list \<Rightarrow> CachedHeader list result" where
  "lookup_all m [] = Ok []"
| "lookup_all m (h # hs) = obind (unwrap (m h)) (\<lambda>c. obind (lookup_all m hs) (\<lambda>cs. Ok (c # cs)))"

definition HeaderCache_iter_trunk :: "HeaderCache \<Rightarrow> u32 \<Rightarrow> CachedHeader list result" where
  "HeaderCache_iter_trunk hc from = lookup_all (hc_headers hc) (drop (unat from) (hc_trunk hc))"

text \<open>
  \<open>len - from as usize\<close> panics with overflow checks when \<open>from\<close> exceeds the length, and otherwise
  wraps around to a number no trunk is as long as.
\<close>

definition HeaderCache_iter_trunk_rev ::
  "bool \<Rightarrow> HeaderCache \<Rightarrow> u32 option \<Rightarrow> CachedHeader list result" where
  "HeaderCache_iter_trunk_rev checks hc from =
     (let len = length (hc_trunk hc) in
      case from of
        Some f \<Rightarrow>
          if len < unat f then (if checks then Panicked else Ok [])
          else lookup_all (hc_headers hc) (drop (len - unat f) (rev (hc_trunk hc)))
      | None \<Rightarrow> lookup_all (hc_headers hc) (rev (hc_trunk hc)))"

text \<open>The loop of \<open>locator_hashes\<close>: \<open>skip\<close>, \<open>count\<close> and \<open>s\<close> are \<open>i32\<close>.\<close>

fun locator_loop :: "hash list \<Rightarrow> hash list \<Rightarrow> 32 word \<Rightarrow> 32 word \<Rightarrow> 32 word \<Rightarrow> hash list" where
  "locator_loop [] locator skip count s = locator"
| "locator_loop (h # hs) locator skip count s =
     (if s = 0
      then (let count' = count + 1
            in locator_loop hs (locator @ [h]) (if word_sless 10 count' then skip * 2 else skip)
                 count' (skip - 1))
      else locator_loop hs locator skip count (s - 1))"

definition HeaderCache_locator_hashes :: "HeaderCache \<Rightarrow> hash list" where
  "HeaderCache_locator_hashes hc = locator_loop (rev (hc_trunk hc)) [] 1 0 0"

section \<open>The required target\<close>

abbreviation (input) DIFFCHANGE_INTERVAL :: u32 where
  "DIFFCHANGE_INTERVAL \<equiv> 2016"

abbreviation (input) DIFFCHANGE_TIMESPAN :: u32 where
  "DIFFCHANGE_TIMESPAN \<equiv> 14 * 24 * 3600"

abbreviation (input) TARGET_BLOCK_SPACING :: u32 where
  "TARGET_BLOCK_SPACING \<equiv> 600"

text \<open>Scan back a number of blocks along the parent links.\<close>

fun scan_back :: "HeaderCache \<Rightarrow> nat \<Rightarrow> CachedHeader \<Rightarrow> CachedHeader result" where
  "scan_back hc 0 scan = Ok scan"
| "scan_back hc (Suc n) scan =
     (case hc_headers hc (ch_prev scan) of
        Some header \<Rightarrow> scan_back hc n header
      | None \<Rightarrow> Err UnconnectedHeader)"

text \<open>
  The first block of the interval that ends with \<open>prev\<close>. In the first branch the subtraction that
  gives the index underflows on a trunk of fewer than 2018 entries, which panics either at the
  subtraction or, wrapped around, at the index.
\<close>

definition interval_start :: "HeaderCache \<Rightarrow> CachedHeader \<Rightarrow> CachedHeader result" where
  "interval_start hc prev =
     (if HeaderCache_tip_hash hc = Some (ch_prev prev)
      then (if length (hc_trunk hc) < 2016 + 2 then Panicked
            else unwrap (hc_headers hc (hc_trunk hc ! (length (hc_trunk hc) - 2016 - 2))))
      else scan_back hc (2016 - 1) prev)"

definition clamp_timespan :: "u32 \<Rightarrow> u32" where
  "clamp_timespan n =
     (if n < DIFFCHANGE_TIMESPAN div 4 then DIFFCHANGE_TIMESPAN div 4
      else if DIFFCHANGE_TIMESPAN * 4 < n then DIFFCHANGE_TIMESPAN * 4
      else n)"

definition retarget :: "ext \<Rightarrow> HeaderCache \<Rightarrow> CachedHeader \<Rightarrow> u256 result" where
  "retarget X hc prev =
     obind (interval_start hc prev) (\<lambda>scan.
     obind (rust_sub (x_checks X) (bh_time (ch_header prev)) (bh_time (ch_header scan))) (\<lambda>n.
     let timespan = clamp_timespan n;
         target = x_mul_u32 X (x_target X (ch_header prev)) timespan
     in obind (unwrap (x_from_u64 X (ucast DIFFCHANGE_TIMESPAN))) (\<lambda>d.
        obind (unwrap (x_div X target d)) (\<lambda>target.
        obind (HeaderCache_max_target X) (\<lambda>max_target.
        HeaderCache_satoshi_the_precision X
          (if \<not> x_le X target max_target then max_target else target))))))"

text \<open>The testnet rule: the last block before which the difficulty was not reset to 1.\<close>

partial_function (option) testnet_scan ::
  "ext \<Rightarrow> u256 \<Rightarrow> HeaderCache \<Rightarrow> CachedHeader \<Rightarrow> u32 \<Rightarrow> u256 result option" where
  "testnet_scan X max_target hc scan height =
     (if height mod DIFFCHANGE_INTERVAL \<noteq> 0 \<and> ch_prev scan \<noteq> 0 \<and> x_target X (ch_header scan) = max_target
      then (case hc_headers hc (ch_prev scan) of
              Some header \<Rightarrow> testnet_scan X max_target hc header (ch_height header)
            | None \<Rightarrow> Some (Err UnconnectedHeader))
      else Some (Ok (x_target X (ch_header scan))))"

definition required_work ::
  "ext \<Rightarrow> HeaderCache \<Rightarrow> CachedHeader \<Rightarrow> BlockHeader \<Rightarrow> u256 result option" where
  "required_work X hc prev next =
     (case rust_add (x_checks X) (ch_height prev) 1 :: u32 result of
        Ok h \<Rightarrow>
          if h mod DIFFCHANGE_INTERVAL = 0 then Some (retarget X hc prev)
          else if hc_network hc = Testnet then
            (case rust_add (x_checks X) (bh_time (ch_header prev)) (2 * TARGET_BLOCK_SPACING) :: u32 result of
               Ok t \<Rightarrow>
                 if t < bh_time next then Some (HeaderCache_max_target X)
                 else (case HeaderCache_max_target X of
                         Ok max_target \<Rightarrow> testnet_scan X max_target hc prev (ch_height prev)
                       | e \<Rightarrow> Some e)
             | e \<Rightarrow> Some Panicked)
          else Some (Ok (x_target X (ch_header prev)))
      | e \<Rightarrow> Some Panicked)"

declare testnet_scan.simps [code]

section \<open>Adding a header\<close>

text \<open>The path from the new tip back to the trunk, as the loop builds it.\<close>

partial_function (option) fork_path ::
  "HeaderCache \<Rightarrow> hash \<Rightarrow> hash list \<Rightarrow> (hash \<times> hash list) result option" where
  "fork_path hc forks_at path_to_new_tip =
     (if HeaderCache_pos_on_trunk hc forks_at = None
      then (case hc_headers hc forks_at of
              Some h \<Rightarrow> fork_path hc (ch_prev h) (path_to_new_tip @ [ch_prev h])
            | None \<Rightarrow> Some (Err UnconnectedHeader))
      else Some (Ok (forks_at, path_to_new_tip)))"

declare fork_path.simps [code]

text \<open>The header enriched with its height and the logarithm of the total work.\<close>

definition cached_of :: "ext \<Rightarrow> CachedHeader \<Rightarrow> BlockHeader \<Rightarrow> CachedHeader result" where
  "cached_of X prev next =
     obind (rust_add (x_checks X) (ch_height prev) 1) (\<lambda>height.
     obind (HeaderCache_exp2 X (ch_log2work prev)) (\<lambda>w.
     obind (HeaderCache_log2 X (x_add X (x_work X next) w)) (\<lambda>l.
     Ok (CachedHeader_new (x_hash X next)
           \<lparr>sh_header = next, sh_height = height, sh_log2work = l\<rparr>))))"

text \<open>Moving the trunk to a new tip with more work: what follows the insertion into the map.\<close>

definition move_trunk ::
  "HeaderCache \<Rightarrow> BlockHeader \<Rightarrow> CachedHeader \<Rightarrow> (HeaderCache \<times> added result) option" where
  "move_trunk hc next cached =
     (case fork_path hc (prev_blockhash next) [] of
        None \<Rightarrow> None
      | Some (Err e) \<Rightarrow> Some (hc, Err e)
      | Some Panicked \<Rightarrow> Some (hc, Panicked)
      | Some (Ok (forks_at, path)) \<Rightarrow>
          let path_to_new_tip = rev path @ [CachedHeader_bitcoin_hash cached] in
          if forks_at \<noteq> prev_blockhash next then
            (case rposition (\<lambda>h. h = forks_at) (hc_trunk hc) of
               Some pos \<Rightarrow>
                 let (unwinds, trunk) =
                   (if pos < length (hc_trunk hc) - 1
                    then (rev (drop (pos + 1) (hc_trunk hc)), take (pos + 1) (hc_trunk hc))
                    else ([], hc_trunk hc))
                 in Some (hc\<lparr>hc_trunk := trunk @ path_to_new_tip\<rparr>,
                      Ok (cached, Some unwinds, Some path_to_new_tip))
             | None \<Rightarrow> Some (hc, Err UnconnectedHeader))
          else Some (hc\<lparr>hc_trunk := hc_trunk hc @ path_to_new_tip\<rparr>,
                 Ok (cached, None, Some path_to_new_tip)))"

definition HeaderCache_add_header_to_tree ::
  "ext \<Rightarrow> HeaderCache \<Rightarrow> CachedHeader \<Rightarrow> BlockHeader \<Rightarrow> (HeaderCache \<times> added result) option" where
  "HeaderCache_add_header_to_tree X hc prev next =
     (case required_work X hc prev next of
        None \<Rightarrow> None
      | Some (Err e) \<Rightarrow> Some (hc, Err e)
      | Some Panicked \<Rightarrow> Some (hc, Panicked)
      | Some (Ok required) \<Rightarrow>
     (case cached_of X prev next of
        Err e \<Rightarrow> Some (hc, Err e)
      | Panicked \<Rightarrow> Some (hc, Panicked)
      | Ok cached \<Rightarrow>
     (case CachedHeader_spv_validate X cached required of
        Err _ \<Rightarrow> Some (hc, Err SpvBadProofOfWork)
      | Panicked \<Rightarrow> Some (hc, Panicked)
      | Ok _ \<Rightarrow>
          let hc = hc\<lparr>hc_headers := (hc_headers hc)(CachedHeader_bitcoin_hash cached \<mapsto> cached)\<rparr> in
          (case HeaderCache_tip hc of
             Some tip \<Rightarrow>
               if f64_less (ch_log2work tip) (ch_log2work cached) then move_trunk hc next cached
               else Some (hc, Ok (cached, None, None))
           | None \<Rightarrow> Some (hc, Err NoTip)))))"

definition HeaderCache_add_header ::
  "ext \<Rightarrow> HeaderCache \<Rightarrow> BlockHeader \<Rightarrow> (HeaderCache \<times> added option result) option" where
  "HeaderCache_add_header X hc header =
     (if hc_headers hc (x_hash X header) \<noteq> None then Some (hc, Ok None)
      else if prev_blockhash header \<noteq> 0 then
        (case hc_headers hc (prev_blockhash header) of
           Some previous \<Rightarrow>
             map_option (\<lambda>(hc', r). (hc', obind r (\<lambda>a. Ok (Some a))))
               (HeaderCache_add_header_to_tree X hc previous header)
         | None \<Rightarrow> Some (hc, Err UnconnectedHeader))
      else
        let new_tip = x_hash X header in
        (case HeaderCache_log2 X (x_work X header) of
           Ok l \<Rightarrow>
             let stored = CachedHeader_new new_tip \<lparr>sh_header = header, sh_height = 0, sh_log2work = l\<rparr>
             in Some (hc\<lparr>hc_headers := (hc_headers hc)(new_tip \<mapsto> stored),
                        hc_trunk := hc_trunk hc @ [new_tip]\<rparr>,
                      Ok (Some (stored, None, Some [new_tip])))
         | Err e \<Rightarrow> Some (hc, Err e)
         | Panicked \<Rightarrow> Some (hc, Panicked)))"

section \<open>The invariant of the cache\<close>

text \<open>A key whose chain of cached parents ends at a header without a parent.\<close>

inductive anchored :: "(hash \<rightharpoonup> CachedHeader) \<Rightarrow> hash \<Rightarrow> bool" for m where
  anchored_root: "m k = Some c \<Longrightarrow> ch_prev c = 0 \<Longrightarrow> anchored m k"
| anchored_step: "m k = Some c \<Longrightarrow> ch_prev c \<noteq> 0 \<Longrightarrow> anchored m (ch_prev c) \<Longrightarrow> anchored m k"

text \<open>
  The tree: every header is stored under its hash, all its ancestors are cached, heights count
  up from the one header without a parent, which starts the trunk; the trunk is not empty and
  its entries are cached. The tip is a header that no cached header exceeds in work. The trunk is
  linked if every entry after the first is a child of the one before it.
\<close>

definition tree_inv :: "ext \<Rightarrow> HeaderCache \<Rightarrow> bool" where
  "tree_inv X hc \<longleftrightarrow>
     (\<forall>k c. hc_headers hc k = Some c \<longrightarrow>
        ch_id c = k \<and> x_hash X (ch_header c) = k \<and> anchored (hc_headers hc) k \<and>
        (ch_prev c = 0 \<longrightarrow> k = hd (hc_trunk hc) \<and> ch_height c = 0) \<and>
        (ch_prev c \<noteq> 0 \<longrightarrow> (\<exists>p. hc_headers hc (ch_prev c) = Some p \<and> ch_height c = ch_height p + 1))) \<and>
     hc_trunk hc \<noteq> [] \<and> set (hc_trunk hc) \<subseteq> dom (hc_headers hc)"

definition tip_max :: "HeaderCache \<Rightarrow> bool" where
  "tip_max hc \<longleftrightarrow>
     (\<forall>tip k c. HeaderCache_tip hc = Some tip \<longrightarrow> hc_headers hc k = Some c \<longrightarrow>
        \<not> f64_less (ch_log2work tip) (ch_log2work c))"

definition hc_inv :: "ext \<Rightarrow> HeaderCache \<Rightarrow> bool" where
  "hc_inv X hc \<longleftrightarrow> tree_inv X hc \<and> tip_max hc"

definition child_of :: "(hash \<rightharpoonup> CachedHeader) \<Rightarrow> hash \<Rightarrow> hash \<Rightarrow> bool" where
  "child_of m a b \<longleftrightarrow> (\<exists>c. m b = Some c \<and> ch_prev c = a)"

definition parent :: "(hash \<rightharpoonup> CachedHeader) \<Rightarrow> hash \<Rightarrow> hash \<Rightarrow> bool" where
  "parent m a b \<longleftrightarrow> (\<exists>c. m a = Some c \<and> ch_prev c \<noteq> 0 \<and> b = ch_prev c)"

definition trunk_linked :: "HeaderCache \<Rightarrow> bool" where
  "trunk_linked hc \<longleftrightarrow> linked (\<lambda>a b. parent (hc_headers hc) b a) (hc_trunk hc)"

lemma f64_less_trans: "f64_less a b \<Longrightarrow> f64_less b c \<Longrightarrow> f64_less a c"
  by (cases a; cases b; cases c) auto

lemma tree_invD:
  assumes "tree_inv X hc" "hc_headers hc k = Some c"
  shows "ch_id c = k" "x_hash X (ch_header c) = k" "anchored (hc_headers hc) k"
    "ch_prev c = 0 \<Longrightarrow> k = hd (hc_trunk hc)" "ch_prev c = 0 \<Longrightarrow> ch_height c = 0"
    "ch_prev c \<noteq> 0 \<Longrightarrow> \<exists>p. hc_headers hc (ch_prev c) = Some p \<and> ch_height c = ch_height p + 1"
  using assms unfolding tree_inv_def by blast+

lemma tree_inv_trunk:
  assumes "tree_inv X hc"
  shows "hc_trunk hc \<noteq> []" "h \<in> set (hc_trunk hc) \<Longrightarrow> \<exists>c. hc_headers hc h = Some c"
  using assms unfolding tree_inv_def by blast+

lemma anchored_mono:
  assumes "anchored m k" "m k' = None"
  shows "anchored (m(k' \<mapsto> c)) k"
  using assms(1)
proof induction
  case (anchored_root k d)
  with assms(2) have "(m(k' \<mapsto> c)) k = Some d" by auto
  then show ?case using anchored_root(2) by (rule anchored.anchored_root)
next
  case (anchored_step k d)
  with assms(2) have "(m(k' \<mapsto> c)) k = Some d" by auto
  then show ?case using anchored_step.hyps(2) anchored_step.IH by (rule anchored.anchored_step)
qed

lemma anchored_insert:
  assumes "m k = None" "ch_prev c \<noteq> 0" "anchored m (ch_prev c)"
  shows "anchored (m(k \<mapsto> c)) k"
  by (rule anchored_step [OF _ assms(2) anchored_mono [OF assms(3,1)]]) simp

lemma pos_on_trunk_None: "HeaderCache_pos_on_trunk hc h = None \<longleftrightarrow> h \<notin> set (hc_trunk hc)"
  by (auto simp: HeaderCache_pos_on_trunk_def position_None)

lemma tip_eq: "hc_trunk hc \<noteq> [] \<Longrightarrow> HeaderCache_tip hc = hc_headers hc (last (hc_trunk hc))"
  by (simp add: HeaderCache_tip_def HeaderCache_tip_hash_def HeaderCache_get_header_def)

section \<open>The path to the trunk\<close>

text \<open>
  From a key whose ancestors are all cached, the loop ends at the first ancestor on the trunk. The
  keys it passes on its way form the list \<open>side\<close>; what it collects are their parents.
\<close>

lemma fork_path_spec:
  assumes "anchored (hc_headers hc) k"
    and "\<And>k c. hc_headers hc k = Some c \<Longrightarrow> ch_prev c = 0 \<Longrightarrow> k \<in> set (hc_trunk hc)"
  shows "\<exists>side f. fork_path hc k acc = Some (Ok (f, acc @ tl (side @ [f]))) \<and> hd (side @ [f]) = k \<and>
    f \<in> set (hc_trunk hc) \<and> set side \<inter> set (hc_trunk hc) = {} \<and> set side \<subseteq> dom (hc_headers hc) \<and>
    linked (\<lambda>a b. child_of (hc_headers hc) b a) (side @ [f])"
  using assms(1)
proof (induction arbitrary: acc)
  case (anchored_root k c)
  then have "k \<in> set (hc_trunk hc)" using assms(2) by blast
  then show ?case
    by (intro exI [of _ "[]"] exI [of _ k]) (simp add: fork_path.simps pos_on_trunk_None)
next
  case (anchored_step k c)
  show ?case
  proof (cases "k \<in> set (hc_trunk hc)")
    case True
    then show ?thesis
      by (intro exI [of _ "[]"] exI [of _ k]) (simp add: fork_path.simps pos_on_trunk_None)
  next
    case False
    obtain side f where IH: "fork_path hc (ch_prev c) (acc @ [ch_prev c]) =
        Some (Ok (f, (acc @ [ch_prev c]) @ tl (side @ [f])))"
      "hd (side @ [f]) = ch_prev c" "f \<in> set (hc_trunk hc)" "set side \<inter> set (hc_trunk hc) = {}"
      "set side \<subseteq> dom (hc_headers hc)" "linked (\<lambda>a b. child_of (hc_headers hc) b a) (side @ [f])"
      using anchored_step.IH by blast
    have "ch_prev c # tl (side @ [f]) = side @ [f]"
      using IH(2) by (cases side) auto
    then have "fork_path hc k acc = Some (Ok (f, acc @ tl ((k # side) @ [f])))"
      using False anchored_step.hyps IH(1) by (simp add: fork_path.simps [of hc k] pos_on_trunk_None)
    moreover have "linked (\<lambda>a b. child_of (hc_headers hc) b a) ((k # side) @ [f])"
      using IH(2,6) anchored_step.hyps(1) by (auto simp: linked_Cons child_of_def)
    ultimately show ?thesis
      using False IH(3-5) anchored_step.hyps(1)
      by (intro exI [of _ "k # side"] exI [of _ f]) auto
  qed
qed

lemma testnet_scan_returns:
  assumes "anchored (hc_headers hc) k" "hc_headers hc k = Some c"
  shows "\<exists>r. testnet_scan X m hc c h = Some r"
  using assms
proof (induction arbitrary: c h)
  case (anchored_root k c')
  then show ?case by (simp add: testnet_scan.simps)
next
  case (anchored_step k c')
  then show ?case by (subst testnet_scan.simps) (auto split: option.splits)
qed

lemma required_work_returns:
  assumes "tree_inv X hc" "hc_headers hc k = Some prev"
  shows "\<exists>r. required_work X hc prev next = Some r"
  using testnet_scan_returns [OF tree_invD(3) [OF assms] assms(2)]
  by (auto simp: required_work_def split: outcome.splits)

section \<open>Inserting a header and moving the trunk\<close>

lemma cached_of_Ok:
  assumes "cached_of X prev next = Ok c"
  shows "ch_id c = x_hash X next" "ch_header c = next" "ch_height c = ch_height prev + 1"
  using assms by (auto simp: cached_of_def obind_eq_Ok CachedHeader_new_def dest: rust_add_eq_Ok)

abbreviation insert_header :: "HeaderCache \<Rightarrow> CachedHeader \<Rightarrow> HeaderCache" where
  "insert_header hc c \<equiv> hc\<lparr>hc_headers := (hc_headers hc)(ch_id c \<mapsto> c)\<rparr>"

lemma tree_inv_insert:
  assumes inv: "tree_inv X hc"
    and new: "hc_headers hc (ch_id c) = None" "x_hash X (ch_header c) = ch_id c"
    and par: "ch_prev c \<noteq> 0" "hc_headers hc (ch_prev c) = Some p" "ch_height c = ch_height p + 1"
  shows "tree_inv X (insert_header hc c)"
proof -
  note D = tree_invD [OF inv]
  have "anchored ((hc_headers hc)(ch_id c \<mapsto> c)) (ch_id c)"
    using new(1) par(1) D(3) [OF par(2)] by (rule anchored_insert)
  moreover have "anchored ((hc_headers hc)(ch_id c \<mapsto> c)) k" if "hc_headers hc k = Some d" for k d
    using D(3) [OF that] new(1) by (rule anchored_mono)
  moreover have "\<exists>q. ((hc_headers hc)(ch_id c \<mapsto> c)) (ch_prev d) = Some q \<and> ch_height d = ch_height q + 1"
    if "hc_headers hc k = Some d" "ch_prev d \<noteq> 0" for k d
    using D(6) [OF that] new(1) by (metis fun_upd_other option.distinct(1))
  moreover have "ch_prev c \<noteq> ch_id c" using par(2) new(1) by auto
  ultimately show ?thesis
    using D tree_inv_trunk [OF inv] new(2) par unfolding tree_inv_def by (auto simp: subset_iff domIff)
qed

lemma tree_inv_set_trunk:
  assumes "tree_inv X hc" "t \<noteq> []" "hd t = hd (hc_trunk hc)" "set t \<subseteq> dom (hc_headers hc)"
  shows "tree_inv X (hc\<lparr>hc_trunk := t\<rparr>)"
  using assms unfolding tree_inv_def by auto

lemma move_trunk_spec:
  assumes inv: "tree_inv X hc" and par: "hc_headers hc (prev_blockhash next) = Some p"
  obtains side f where
    "f \<in> set (hc_trunk hc)" "set side \<inter> set (hc_trunk hc) = {}" "set side \<subseteq> dom (hc_headers hc)"
    "hd (side @ [f]) = prev_blockhash next"
    "linked (\<lambda>a b. child_of (hc_headers hc) b a) (side @ [f])"
    "side = [] \<Longrightarrow> move_trunk hc next c =
       Some (hc\<lparr>hc_trunk := hc_trunk hc @ [ch_id c]\<rparr>, Ok (c, None, Some [ch_id c]))"
    "side \<noteq> [] \<Longrightarrow> \<exists>pos. rposition (\<lambda>h. h = f) (hc_trunk hc) = Some pos \<and> move_trunk hc next c =
       Some (hc\<lparr>hc_trunk := take (pos + 1) (hc_trunk hc) @ f # rev (tl side) @ [ch_id c]\<rparr>,
         Ok (c, Some (rev (drop (pos + 1) (hc_trunk hc))), Some (f # rev (tl side) @ [ch_id c])))"
proof -
  have root: "k \<in> set (hc_trunk hc)" if "hc_headers hc k = Some c" "ch_prev c = 0" for k c
    using tree_invD(4) [OF inv that] tree_inv_trunk(1) [OF inv] by simp
  obtain side f where fp: "fork_path hc (prev_blockhash next) [] = Some (Ok (f, [] @ tl (side @ [f])))"
    and S: "hd (side @ [f]) = prev_blockhash next" "f \<in> set (hc_trunk hc)"
      "set side \<inter> set (hc_trunk hc) = {}" "set side \<subseteq> dom (hc_headers hc)"
      "linked (\<lambda>a b. child_of (hc_headers hc) b a) (side @ [f])"
    using fork_path_spec [OF tree_invD(3) [OF inv par], of "[]"] root by blast
  have 1: "move_trunk hc next c =
      Some (hc\<lparr>hc_trunk := hc_trunk hc @ [ch_id c]\<rparr>, Ok (c, None, Some [ch_id c]))" if "side = []"
    using that fp S(1) by (simp add: move_trunk_def CachedHeader_bitcoin_hash_def Let_def)
  have 2: "\<exists>pos. rposition (\<lambda>h. h = f) (hc_trunk hc) = Some pos \<and> move_trunk hc next c =
       Some (hc\<lparr>hc_trunk := take (pos + 1) (hc_trunk hc) @ f # rev (tl side) @ [ch_id c]\<rparr>,
         Ok (c, Some (rev (drop (pos + 1) (hc_trunk hc))), Some (f # rev (tl side) @ [ch_id c])))"
    if ne: "side \<noteq> []"
  proof -
    have "f \<noteq> prev_blockhash next" using S(1-3) ne by (cases side) auto
    moreover obtain pos where "rposition (\<lambda>h. h = f) (hc_trunk hc) = Some pos"
      using S(2) rposition_None [of "\<lambda>h. h = f" "hc_trunk hc"] by fastforce
    ultimately show ?thesis
      using fp ne by (simp add: move_trunk_def CachedHeader_bitcoin_hash_def Let_def)
  qed
  show thesis using that [OF S(2-4) S(1) S(5) 1 2] by blast
qed

lemma move_trunk_tree_inv:
  assumes inv: "tree_inv X hc" and par: "hc_headers hc (prev_blockhash next) = Some p"
    and c: "hc_headers hc (ch_id c) = Some c"
  shows "\<exists>t u f. move_trunk hc next c = Some (hc\<lparr>hc_trunk := t\<rparr>, Ok (c, u, Some f)) \<and>
    tree_inv X (hc\<lparr>hc_trunk := t\<rparr>) \<and> last t = ch_id c \<and> f \<noteq> [] \<and> last f = ch_id c"
proof -
  obtain side f where S: "f \<in> set (hc_trunk hc)" "set side \<subseteq> dom (hc_headers hc)"
    and 1: "side = [] \<Longrightarrow> move_trunk hc next c =
       Some (hc\<lparr>hc_trunk := hc_trunk hc @ [ch_id c]\<rparr>, Ok (c, None, Some [ch_id c]))"
    and 2: "side \<noteq> [] \<Longrightarrow> \<exists>pos. rposition (\<lambda>h. h = f) (hc_trunk hc) = Some pos \<and> move_trunk hc next c =
       Some (hc\<lparr>hc_trunk := take (pos + 1) (hc_trunk hc) @ f # rev (tl side) @ [ch_id c]\<rparr>,
         Ok (c, Some (rev (drop (pos + 1) (hc_trunk hc))), Some (f # rev (tl side) @ [ch_id c])))"
    using move_trunk_spec [OF inv par] by metis
  note T = tree_inv_trunk [OF inv]
  show ?thesis
  proof (cases "side = []")
    case True
    moreover have "tree_inv X (hc\<lparr>hc_trunk := hc_trunk hc @ [ch_id c]\<rparr>)"
      using T c by (intro tree_inv_set_trunk [OF inv]) auto
    ultimately show ?thesis using 1 by auto
  next
    case False
    then obtain pos where mv: "move_trunk hc next c =
       Some (hc\<lparr>hc_trunk := take (pos + 1) (hc_trunk hc) @ f # rev (tl side) @ [ch_id c]\<rparr>,
         Ok (c, Some (rev (drop (pos + 1) (hc_trunk hc))), Some (f # rev (tl side) @ [ch_id c])))"
      using 2 by blast
    have "set (tl side) \<subseteq> dom (hc_headers hc)"
      using S(2) by (cases side) auto
    then have "tree_inv X (hc\<lparr>hc_trunk := take (pos + 1) (hc_trunk hc) @ f # rev (tl side) @ [ch_id c]\<rparr>)"
      using T S(1) c by (intro tree_inv_set_trunk [OF inv]) (auto dest: in_set_takeD)
    then show ?thesis using mv by auto
  qed
qed

section \<open>The effect of adding a header\<close>

text \<open>The ways a regular update ends: refused with the cache as it was, or stored.\<close>

lemma add_header_to_tree_cases:
  assumes inv: "tree_inv X hc" and par: "hc_headers hc (prev_blockhash next) = Some prev"
    and new: "hc_headers hc (x_hash X next) = None" and nz: "prev_blockhash next \<noteq> 0"
  obtains (refused) r where "HeaderCache_add_header_to_tree X hc prev next = Some (hc, r)" "\<And>a. r \<noteq> Ok a"
  | (stored) c required tip where
      "required_work X hc prev next = Some (Ok required)" "cached_of X prev next = Ok c"
      "CachedHeader_spv_validate X c required = Ok ()"
      "tree_inv X (insert_header hc c)" "HeaderCache_tip hc = Some tip"
      "HeaderCache_tip (insert_header hc c) = Some tip"
      "HeaderCache_add_header_to_tree X hc prev next =
         (if f64_less (ch_log2work tip) (ch_log2work c) then move_trunk (insert_header hc c) next c
          else Some (insert_header hc c, Ok (c, None, None)))"
proof -
  obtain rw where rw: "required_work X hc prev next = Some rw"
    using required_work_returns [OF inv par] by blast
  show thesis
  proof (cases "\<exists>t c. rw = Ok t \<and> cached_of X prev next = Ok c \<and> CachedHeader_spv_validate X c t = Ok ()")
    case False
    then have "\<exists>r. HeaderCache_add_header_to_tree X hc prev next = Some (hc, r) \<and> (\<forall>a. r \<noteq> Ok a)"
      using rw by (auto simp: HeaderCache_add_header_to_tree_def split: outcome.splits)
    then show thesis using refused by blast
  next
    case True
    then obtain t c where tc: "rw = Ok t" "cached_of X prev next = Ok c"
      "CachedHeader_spv_validate X c t = Ok ()" by blast
    note C = cached_of_Ok [OF tc(2)]
    have inv': "tree_inv X (insert_header hc c)"
      using C new nz par by (intro tree_inv_insert [OF inv, where p = prev]) auto
    obtain tip where tip: "hc_headers hc (last (hc_trunk hc)) = Some tip"
      using tree_inv_trunk [OF inv] by (metis last_in_set)
    then have "last (hc_trunk hc) \<noteq> ch_id c" using new C by auto
    then have tips: "HeaderCache_tip hc = Some tip" "HeaderCache_tip (insert_header hc c) = Some tip"
      using tip tree_inv_trunk(1) [OF inv] by (simp_all add: tip_eq)
    then have "HeaderCache_add_header_to_tree X hc prev next =
         (if f64_less (ch_log2work tip) (ch_log2work c) then move_trunk (insert_header hc c) next c
          else Some (insert_header hc c, Ok (c, None, None)))"
      using rw tc by (simp add: HeaderCache_add_header_to_tree_def CachedHeader_bitcoin_hash_def Let_def)
    then show thesis using stored rw tc inv' tips by blast
  qed
qed

lemma tip_max_insert:
  assumes "tip_max hc" "HeaderCache_tip hc = Some tip" "HeaderCache_tip (insert_header hc c) = Some tip"
    "\<not> f64_less (ch_log2work tip) (ch_log2work c)"
  shows "tip_max (insert_header hc c)"
  using assms unfolding tip_max_def by auto

lemma tip_max_moved:
  assumes "tip_max hc" "HeaderCache_tip hc = Some tip" "f64_less (ch_log2work tip) (ch_log2work c)"
    "t \<noteq> []" "last t = ch_id c"
  shows "tip_max ((insert_header hc c)\<lparr>hc_trunk := t\<rparr>)"
proof -
  have "HeaderCache_tip ((insert_header hc c)\<lparr>hc_trunk := t\<rparr>) = Some c"
    using assms(4,5) by (simp add: tip_eq)
  moreover have "\<not> f64_less (ch_log2work c) (ch_log2work d)" if "hc_headers hc k = Some d" for k d
    using assms(1,2,3) that f64_less_trans unfolding tip_max_def by blast
  moreover have "\<not> f64_less (ch_log2work c) (ch_log2work c)"
    by (cases "ch_log2work c") auto
  ultimately show ?thesis unfolding tip_max_def by auto
qed

lemma add_header_to_tree_spec:
  assumes inv: "hc_inv X hc" and par: "hc_headers hc (prev_blockhash next) = Some prev"
    and new: "hc_headers hc (x_hash X next) = None" and nz: "prev_blockhash next \<noteq> 0"
  shows "\<exists>hc' r. HeaderCache_add_header_to_tree X hc prev next = Some (hc', r) \<and> hc_inv X hc' \<and>
    ((\<forall>a. r \<noteq> Ok a) \<and> hc' = hc \<or>
     (\<exists>c u f. r = Ok (c, u, f) \<and> hc_headers hc' = (hc_headers hc)(x_hash X next \<mapsto> c) \<and>
        cached_of X prev next = Ok c))"
proof -
  have tinv: "tree_inv X hc" and tmax: "tip_max hc" using inv by (auto simp: hc_inv_def)
  from tinv par new nz show ?thesis
  proof (cases rule: add_header_to_tree_cases)
    case (refused r)
    then show ?thesis using inv by blast
  next
    case (stored c required tip)
    note C = cached_of_Ok [OF stored(2)]
    show ?thesis
    proof (cases "f64_less (ch_log2work tip) (ch_log2work c)")
      case False
      then have "hc_inv X (insert_header hc c)"
        using stored tip_max_insert [OF tmax] by (auto simp: hc_inv_def)
      then show ?thesis using stored False C by auto
    next
      case True
      have "hc_headers (insert_header hc c) (prev_blockhash next) = Some prev"
        using par new C by auto
      then obtain t u f where mv: "move_trunk (insert_header hc c) next c =
          Some ((insert_header hc c)\<lparr>hc_trunk := t\<rparr>, Ok (c, u, Some f))"
        "tree_inv X ((insert_header hc c)\<lparr>hc_trunk := t\<rparr>)" "last t = ch_id c"
        using move_trunk_tree_inv [OF stored(4), of "next" prev c] by auto
      have "t \<noteq> []" using tree_inv_trunk(1) [OF mv(2)] by simp
      then have "hc_inv X ((insert_header hc c)\<lparr>hc_trunk := t\<rparr>)"
        using mv tip_max_moved [OF tmax stored(5) True] by (simp add: hc_inv_def)
      then show ?thesis using stored True mv C by auto
    qed
  qed
qed

lemma add_header_regular:
  assumes "hc_headers hc (x_hash X h) = None" "prev_blockhash h \<noteq> 0"
    "hc_headers hc (prev_blockhash h) = Some prev"
  shows "HeaderCache_add_header X hc h =
    map_option (\<lambda>(hc', r). (hc', obind r (\<lambda>a. Ok (Some a)))) (HeaderCache_add_header_to_tree X hc prev h)"
  using assms by (simp add: HeaderCache_add_header_def)

lemma add_header_spec:
  assumes inv: "hc_inv X hc" and nz: "prev_blockhash h \<noteq> 0"
  obtains (unchanged) r where "HeaderCache_add_header X hc h = Some (hc, r)" "\<And>a. r \<noteq> Ok (Some a)"
  | (added) hc' c u f prev where "HeaderCache_add_header X hc h = Some (hc', Ok (Some (c, u, f)))"
      "hc_inv X hc'" "hc_headers hc (x_hash X h) = None"
      "hc_headers hc' = (hc_headers hc)(x_hash X h \<mapsto> c)"
      "hc_headers hc (prev_blockhash h) = Some prev" "cached_of X prev h = Ok c"
proof (cases "hc_headers hc (x_hash X h) = None \<and> hc_headers hc (prev_blockhash h) \<noteq> None")
  case False
  then show thesis
    using unchanged [of "if hc_headers hc (x_hash X h) = None then Err UnconnectedHeader else Ok None"] nz
    by (auto simp: HeaderCache_add_header_def)
next
  case True
  then obtain prev where new: "hc_headers hc (x_hash X h) = None"
    and par: "hc_headers hc (prev_blockhash h) = Some prev" by blast
  obtain hc' r where t: "HeaderCache_add_header_to_tree X hc prev h = Some (hc', r)" "hc_inv X hc'"
    "(\<forall>a. r \<noteq> Ok a) \<and> hc' = hc \<or>
     (\<exists>c u f. r = Ok (c, u, f) \<and> hc_headers hc' = (hc_headers hc)(x_hash X h \<mapsto> c) \<and> cached_of X prev h = Ok c)"
    using add_header_to_tree_spec [OF inv par new nz] by blast
  have eq: "HeaderCache_add_header X hc h = Some (hc', obind r (\<lambda>a. Ok (Some a)))"
    using t(1) add_header_regular [OF new nz par] by simp
  from t(3) show thesis
  proof
    assume "(\<forall>a. r \<noteq> Ok a) \<and> hc' = hc"
    then show thesis using unchanged [of "obind r (\<lambda>a. Ok (Some a))"] eq by (auto simp: obind_eq_Ok)
  next
    assume "\<exists>c u f. r = Ok (c, u, f) \<and> hc_headers hc' = (hc_headers hc)(x_hash X h \<mapsto> c) \<and> cached_of X prev h = Ok c"
    then show thesis using added eq t(2) new par by auto
  qed
qed

text \<open>What is known where a header was stored.\<close>

lemma add_header_stored:
  assumes inv: "hc_inv X hc" and nz: "prev_blockhash h \<noteq> 0"
    and add: "HeaderCache_add_header X hc h = Some (hc', Ok (Some (c, u, f)))"
  obtains prev required tip where
    "hc_headers hc (x_hash X h) = None" "hc_headers hc (prev_blockhash h) = Some prev"
    "required_work X hc prev h = Some (Ok required)" "cached_of X prev h = Ok c"
    "CachedHeader_spv_validate X c required = Ok ()" "HeaderCache_tip hc = Some tip"
    "tree_inv X (insert_header hc c)" "hc_headers (insert_header hc c) (prev_blockhash h) = Some prev"
    "\<not> f64_less (ch_log2work tip) (ch_log2work c) \<Longrightarrow> hc' = insert_header hc c \<and> u = None \<and> f = None"
    "f64_less (ch_log2work tip) (ch_log2work c) \<Longrightarrow>
       move_trunk (insert_header hc c) h c = Some (hc', Ok (c, u, f))"
proof -
  obtain prev where new: "hc_headers hc (x_hash X h) = None"
    and par: "hc_headers hc (prev_blockhash h) = Some prev"
    using add nz by (auto simp: HeaderCache_add_header_def split: if_splits option.splits)
  have tree: "HeaderCache_add_header_to_tree X hc prev h = Some (hc', Ok (c, u, f))"
    using add add_header_regular [OF new nz par] by (auto simp: obind_eq_Ok)
  have "tree_inv X hc" using inv by (simp add: hc_inv_def)
  then show thesis using par new nz
  proof (cases rule: add_header_to_tree_cases)
    case (refused r)
    then show thesis using tree refused(2) [of "(c, u, f)"] by simp
  next
    case (stored d required tip)
    note C = cached_of_Ok [OF stored(2)]
    have par': "hc_headers (insert_header hc d) (prev_blockhash h) = Some prev"
      using par new C by auto
    have d: "d = c"
    proof (cases "f64_less (ch_log2work tip) (ch_log2work d)")
      case True
      then show ?thesis
        using stored tree move_trunk_tree_inv [OF stored(4) par', of d] by auto
    next
      case False
      then show ?thesis using stored tree by auto
    qed
    show thesis using that [OF new par stored(1)] stored tree par' unfolding d by (auto split: if_splits)
  qed
qed

section \<open>No cycle of parent links\<close>

lemma anchored_acyclic: "anchored m k \<Longrightarrow> \<not> (parent m)\<^sup>+\<^sup>+ k k"
proof (induction rule: anchored.induct)
  case (anchored_root k c)
  then show ?case by (auto simp: parent_def dest: tranclpD)
next
  case (anchored_step k c)
  have step: "parent m k (ch_prev c)" using anchored_step.hyps by (auto simp: parent_def)
  show ?case
  proof
    assume "(parent m)\<^sup>+\<^sup>+ k k"
    then obtain b where "parent m k b" "(parent m)\<^sup>*\<^sup>* b k" by (blast dest: tranclpD)
    then have "(parent m)\<^sup>*\<^sup>* (ch_prev c) k" using anchored_step.hyps by (auto simp: parent_def)
    then have "(parent m)\<^sup>+\<^sup>+ (ch_prev c) (ch_prev c)" using step by (rule rtranclp_into_tranclp1)
    then show False using anchored_step.IH by blast
  qed
qed

lemma linked_parent_reach:
  "linked (parent m) (x # xs) \<Longrightarrow> y \<in> set xs \<Longrightarrow> (parent m)\<^sup>+\<^sup>+ x y"
proof (induction xs arbitrary: x)
  case (Cons z zs)
  then show ?case by (auto intro: tranclp_into_tranclp2)
qed simp

lemma side_linked_parent:
  assumes inv: "tree_inv X hc"
  shows "set side \<inter> set (hc_trunk hc) = {} \<Longrightarrow>
    linked (\<lambda>a b. child_of (hc_headers hc) b a) (side @ [f]) \<Longrightarrow>
    linked (parent (hc_headers hc)) (side @ [f])"
proof (induction side)
  case (Cons a side)
  then obtain c where c: "hc_headers hc a = Some c" "ch_prev c = hd (side @ [f])"
    by (auto simp: linked_Cons child_of_def)
  have "ch_prev c \<noteq> 0"
    using tree_invD(4) [OF inv c(1)] tree_inv_trunk(1) [OF inv] Cons.prems(1) by auto
  then have "parent (hc_headers hc) a (hd (side @ [f]))" using c by (auto simp: parent_def)
  then show ?case using Cons by (auto simp: linked_Cons)
qed simp

text \<open>The branch from a new header back to the trunk visits every key once.\<close>

lemma branch_no_repeat:
  assumes inv: "tree_inv X hc" and c: "hc_headers hc (ch_id c) = Some c" "ch_prev c \<noteq> 0"
    and side: "side \<noteq> []" "hd side = ch_prev c" "set side \<inter> set (hc_trunk hc) = {}"
      "linked (\<lambda>a b. child_of (hc_headers hc) b a) (side @ [f])"
  shows "ch_id c \<notin> set (side @ [f])" "ch_prev c \<notin> set (tl side @ [f])"
proof -
  have l: "linked (parent (hc_headers hc)) (ch_id c # side @ [f])"
    using side_linked_parent [OF inv side(3,4)] c side(1,2) by (auto simp: linked_Cons parent_def)
  then show "ch_id c \<notin> set (side @ [f])"
    using linked_parent_reach anchored_acyclic tree_invD(3) [OF inv c(1)] by blast
  obtain zs where zs: "side @ [f] = ch_prev c # zs" "tl side @ [f] = zs"
    using side(1,2) by (cases side) auto
  then have l2: "linked (parent (hc_headers hc)) (ch_prev c # zs)" using l by (simp add: linked_Cons)
  obtain p where "hc_headers hc (ch_prev c) = Some p" using tree_invD(6) [OF inv c(1,2)] by blast
  then have "anchored (hc_headers hc) (ch_prev c)" by (rule tree_invD(3) [OF inv])
  then show "ch_prev c \<notin> set (tl side @ [f])"
    using linked_parent_reach [OF l2] anchored_acyclic zs(2) by blast
qed

text \<open>
  A reorganisation through a side branch, exactly as the code performs it, and what is wrong
  with it: the parent of the new tip is not on the new trunk.
\<close>

lemma reorg_spec:
  assumes inv: "hc_inv X hc" and nz: "prev_blockhash h \<noteq> 0"
    and add: "HeaderCache_add_header X hc h = Some (hc', Ok (Some (c, Some u, f)))"
  obtains side fork pos where "side \<noteq> []" "hd side = prev_blockhash h"
    "fork \<in> set (hc_trunk hc)" "set side \<inter> set (hc_trunk hc) = {}"
    "linked (\<lambda>a b. child_of (hc_headers hc) b a) (side @ [fork])"
    "rposition (\<lambda>e. e = fork) (hc_trunk hc) = Some pos"
    "hc_trunk hc' = take (pos + 1) (hc_trunk hc) @ fork # rev (tl side) @ [x_hash X h]"
    "u = rev (drop (pos + 1) (hc_trunk hc))" "f = Some (fork # rev (tl side) @ [x_hash X h])"
    "prev_blockhash h \<notin> set (hc_trunk hc')"
proof -
  obtain prev required tip where A: "hc_headers hc (x_hash X h) = None"
    "hc_headers hc (prev_blockhash h) = Some prev" "cached_of X prev h = Ok c"
    "tree_inv X (insert_header hc c)" "hc_headers (insert_header hc c) (prev_blockhash h) = Some prev"
    "\<not> f64_less (ch_log2work tip) (ch_log2work c) \<Longrightarrow> Some u = None"
    "f64_less (ch_log2work tip) (ch_log2work c) \<Longrightarrow>
       move_trunk (insert_header hc c) h c = Some (hc', Ok (c, Some u, f))"
    using add_header_stored [OF inv nz add] by metis
  note C = cached_of_Ok [OF A(3)]
  let ?hc = "insert_header hc c"
  have mv: "move_trunk ?hc h c = Some (hc', Ok (c, Some u, f))" using A(6,7) by blast
  obtain side fork where S: "fork \<in> set (hc_trunk ?hc)" "set side \<inter> set (hc_trunk ?hc) = {}"
    "set side \<subseteq> dom (hc_headers ?hc)" "hd (side @ [fork]) = prev_blockhash h"
    "linked (\<lambda>a b. child_of (hc_headers ?hc) b a) (side @ [fork])"
    "side = [] \<Longrightarrow> move_trunk ?hc h c =
       Some (?hc\<lparr>hc_trunk := hc_trunk ?hc @ [ch_id c]\<rparr>, Ok (c, None, Some [ch_id c]))"
    "side \<noteq> [] \<Longrightarrow> \<exists>pos. rposition (\<lambda>h. h = fork) (hc_trunk ?hc) = Some pos \<and> move_trunk ?hc h c =
       Some (?hc\<lparr>hc_trunk := take (pos + 1) (hc_trunk ?hc) @ fork # rev (tl side) @ [ch_id c]\<rparr>,
         Ok (c, Some (rev (drop (pos + 1) (hc_trunk ?hc))), Some (fork # rev (tl side) @ [ch_id c])))"
    using move_trunk_spec [OF A(4,5), where c = c] by metis
  have ne: "side \<noteq> []" using S(6) mv by auto
  then obtain pos where M: "rposition (\<lambda>e. e = fork) (hc_trunk hc) = Some pos"
    "hc' = ?hc\<lparr>hc_trunk := take (pos + 1) (hc_trunk hc) @ fork # rev (tl side) @ [x_hash X h]\<rparr>"
    "u = rev (drop (pos + 1) (hc_trunk hc))" "f = Some (fork # rev (tl side) @ [x_hash X h])"
    using S(7) mv C by auto
  have hd: "hd side = prev_blockhash h" using S(4) ne by simp
  have nr: "ch_id c \<notin> set (side @ [fork])" "ch_prev c \<notin> set (tl side @ [fork])"
    by (rule branch_no_repeat [OF A(4)]; use S ne hd nz C in simp)+
  have "linked (\<lambda>a b. child_of (hc_headers hc) b a) (side @ [fork])"
    by (rule linked_mono [OF S(5)]) (use nr(1) in \<open>auto simp: child_of_def split: if_splits\<close>)
  moreover have "prev_blockhash h \<notin> set (hc_trunk hc')"
  proof -
    have "prev_blockhash h \<notin> set (hc_trunk hc)" using S(2) hd ne hd_in_set [OF ne] by auto
    moreover have "prev_blockhash h \<noteq> x_hash X h" using A(1,2) by auto
    ultimately show ?thesis using nr(2) C M(2) by (auto dest: in_set_takeD)
  qed
  ultimately show thesis using that [OF ne hd] S(1,2) M by simp
qed

end
