(* ===== verification/Header_Trunk.thy ===== *)
theory Header_Trunk
  imports Header_Cache
begin

text \<open>
  Lemmas on the trunk of a cache that satisfies its invariant and whose trunk is linked (the
  entry at position \<open>i\<close> has height \<open>i\<close>, no entry occurs twice), on the computation of the required
  target (\<open>src/src/headercache.rs\<close>, lines 193 to 226) and on the loop of \<open>locator_hashes\<close>.
\<close>

text \<open>The target scaled by the time the interval took, before the precision is dropped.\<close>

definition scaled_target :: "nat \<Rightarrow> nat \<Rightarrow> nat" where
  "scaled_target t timespan = min (0xFFFF * 2 ^ 208) (t * timespan div 1209600)"

section \<open>Entries of the trunk\<close>

lemma anchored_has_root: "anchored m k \<Longrightarrow> \<exists>r c. m r = Some c \<and> ch_prev c = 0"
  by (induction rule: anchored.induct) auto

lemma trunk_root:
  assumes inv: "tree_inv X hc"
  shows "\<exists>c. hc_headers hc (hd (hc_trunk hc)) = Some c \<and> ch_prev c = 0 \<and> ch_height c = 0"
proof -
  obtain d where "hc_headers hc (hd (hc_trunk hc)) = Some d"
    using tree_inv_trunk [OF inv] by (meson hd_in_set)
  then obtain r c where "hc_headers hc r = Some c" "ch_prev c = 0"
    using anchored_has_root tree_invD(3) [OF inv] by blast
  with tree_invD(4,5) [OF inv] show ?thesis by blast
qed

lemma trunk_entry:
  assumes inv: "tree_inv X hc" and l: "trunk_linked hc" and i: "i < length (hc_trunk hc)"
  shows "\<exists>c. hc_headers hc (hc_trunk hc ! i) = Some c \<and> ch_height c = word_of_nat i"
  using i
proof (induction i)
  case 0
  then show ?case using trunk_root [OF inv] tree_inv_trunk(1) [OF inv] by (auto simp: hd_conv_nth)
next
  case (Suc i)
  then obtain p where p: "hc_headers hc (hc_trunk hc ! i) = Some p" "ch_height p = word_of_nat i"
    by auto
  have "parent (hc_headers hc) (hc_trunk hc ! Suc i) (hc_trunk hc ! i)"
    using linked_nth [OF l [unfolded trunk_linked_def]] Suc.prems by blast
  then obtain c where c: "hc_headers hc (hc_trunk hc ! Suc i) = Some c" "ch_prev c \<noteq> 0"
    "ch_prev c = hc_trunk hc ! i" unfolding parent_def by metis
  have "ch_height c = ch_height p + 1" using tree_invD(6) [OF inv c(1,2)] c(3) p(1) by auto
  then show ?case using c(1) p(2) by simp
qed

lemma linked_parent_distinct:
  assumes "linked (parent m) xs" "\<And>x. x \<in> set xs \<Longrightarrow> anchored m x"
  shows "distinct xs"
  using assms
proof (induction xs)
  case (Cons x xs)
  then have "x \<notin> set xs" using linked_parent_reach anchored_acyclic by (metis list.set_intros(1))
  then show ?case using Cons by (auto simp: linked_Cons)
qed simp

lemma trunk_distinct:
  assumes inv: "tree_inv X hc" and l: "trunk_linked hc"
  shows "distinct (hc_trunk hc)"
proof -
  have "linked (parent (hc_headers hc)) (rev (hc_trunk hc))"
    using l by (simp add: trunk_linked_def linked_rev)
  moreover have "anchored (hc_headers hc) x" if "x \<in> set (rev (hc_trunk hc))" for x
    using tree_inv_trunk(2) [OF inv] tree_invD(3) [OF inv] that by (metis set_rev)
  ultimately have "distinct (rev (hc_trunk hc))" by (rule linked_parent_distinct)
  then show ?thesis by simp
qed

lemma pos_on_trunk_rposition:
  "HeaderCache_pos_on_trunk hc h = map_option word_of_nat (rposition (\<lambda>e. e = h) (hc_trunk hc))"
  by (simp add: HeaderCache_pos_on_trunk_def rposition_def option.map_comp comp_def)

lemma lookup_all_Ok:
  assumes "set hs \<subseteq> dom m"
  shows "lookup_all m hs = Ok (map (\<lambda>h. the (m h)) hs)"
  using assms by (induction hs) auto

lemma trunk_heights:
  assumes inv: "tree_inv X hc" and l: "trunk_linked hc"
  shows "map (\<lambda>h. ch_height (the (hc_headers hc h))) (hc_trunk hc) = map word_of_nat [0..<length (hc_trunk hc)]"
  by (rule nth_equalityI) (use trunk_entry [OF inv l] in \<open>fastforce+\<close>)

section \<open>The required target\<close>

lemma clamp_timespan_bounds: "302400 \<le> unat (clamp_timespan n)" "unat (clamp_timespan n) \<le> 4838400"
proof -
  have "302400 \<le> clamp_timespan n \<and> clamp_timespan n \<le> 4838400"
    by (auto simp: clamp_timespan_def not_less intro: order_trans)
  then show "302400 \<le> unat (clamp_timespan n)" "unat (clamp_timespan n) \<le> 4838400"
    by (simp_all add: word_le_nat_alt)
qed

lemma max_target_eq:
  assumes "ext_ok X"
  shows "HeaderCache_max_target X = Ok (word_of_nat (0xFFFF * 2 ^ 208))"
proof -
  have "push_bit 208 (0xFFFF :: u256) = word_of_nat (0xFFFF * 2 ^ 208)"
    by (simp add: push_bit_eq_mult)
  then show ?thesis using assms by (simp add: HeaderCache_max_target_def ext_okD)
qed

lemma scaled_target_bounds:
  assumes "302400 \<le> s" "s \<le> 4838400" "t \<le> 0xFFFF * 2 ^ 208"
  shows "scaled_target t s \<le> 4 * t" "t div 4 \<le> scaled_target t s" "scaled_target t s \<le> 0xFFFF * 2 ^ 208"
proof -
  have "t * s div 1209600 \<le> t * 4838400 div 1209600" using assms(2) by (intro div_le_mono) simp
  also have "\<dots> = 4 * t" by simp
  finally show "scaled_target t s \<le> 4 * t" by (simp add: scaled_target_def)
  have "t * 302400 div 1209600 \<le> t * s div 1209600" using assms(1) by (intro div_le_mono) simp
  moreover have "t * 302400 div 1209600 = t div 4" using div_mult_mult2 [of 302400 t 4] by simp
  ultimately have "t div 4 \<le> t * s div 1209600" by simp
  then show "t div 4 \<le> scaled_target t s"
    using assms(3) by (simp add: scaled_target_def)
  show "scaled_target t s \<le> 0xFFFF * 2 ^ 208" by (simp add: scaled_target_def)
qed

lemma retarget_eq:
  assumes X: "ext_ok X" and scan: "interval_start hc prev = Ok scan"
    and sub: "rust_sub (x_checks X) (bh_time (ch_header prev)) (bh_time (ch_header scan)) = (Ok n :: u32 result)"
    and t: "unat (x_target X (ch_header prev)) \<le> 0xFFFF * 2 ^ 208"
  shows "retarget X hc prev = HeaderCache_satoshi_the_precision X
    (word_of_nat (scaled_target (unat (x_target X (ch_header prev))) (unat (clamp_timespan n))))"
proof -
  define T where "T = x_target X (ch_header prev)"
  define s where "s = clamp_timespan n"
  have s: "unat s \<le> 4838400" by (simp add: s_def clamp_timespan_bounds)
  have "unat T * unat s \<le> 0xFFFF * 2 ^ 208 * 4838400"
    using t s unfolding T_def by (intro mult_mono) auto
  then have fits: "unat T * unat s < 2 ^ 256" by (rule order.strict_trans1) simp
  have us: "unat (ucast s :: u256) = unat s" by (rule unat_ucast_up) simp
  have prod: "unat (T * ucast s) = unat T * unat s"
    using fits by (simp add: unat_word_ariths us)
  define M :: u256 where "M = word_of_nat (0xFFFF * 2 ^ 208)"
  have mx: "HeaderCache_max_target X = Ok M" by (simp only: M_def max_target_eq [OF X])
  define q where "q = T * ucast s div (1209600 :: u256)"
  have q: "unat q = unat T * unat s div 1209600" by (simp add: q_def unat_div prod)
  have "(if \<not> q \<le> M then M else q) = (word_of_nat (scaled_target (unat T) (unat s)) :: u256)"
  proof -
    have m: "unat M = 0xFFFF * 2 ^ 208" unfolding M_def by (rule unat_word_of_nat) simp
    show ?thesis
    proof (cases "q \<le> M")
      case True
      then have "unat q \<le> 0xFFFF * 2 ^ 208" unfolding word_le_nat_alt m .
      then have "scaled_target (unat T) (unat s) = unat q" by (simp add: scaled_target_def q)
      then show ?thesis using True by (simp add: word_of_nat_unat_self)
    next
      case False
      then have "0xFFFF * 2 ^ 208 < unat q" unfolding word_le_nat_alt m by simp
      then have "scaled_target (unat T) (unat s) = 0xFFFF * 2 ^ 208" by (simp add: scaled_target_def q)
      then show ?thesis using False by (simp only: M_def if_True not_True_eq_False simp_thms)
    qed
  qed
  moreover have "retarget X hc prev = HeaderCache_satoshi_the_precision X (if \<not> q \<le> M then M else q)"
    unfolding retarget_def scan sub obind.simps Let_def s_def [symmetric] T_def [symmetric]
      ext_okD(7) [OF X fits] mx
    using X by (simp add: ext_okD q_def)
  ultimately show ?thesis by (simp only: T_def s_def)
qed

lemma scan_back_trunk:
  assumes inv: "tree_inv X hc" and l: "trunk_linked hc"
  shows "i < length (hc_trunk hc) \<Longrightarrow> hc_headers hc (hc_trunk hc ! i) = Some c \<Longrightarrow> n \<le> i \<Longrightarrow>
    \<exists>d. scan_back hc n c = Ok d \<and> hc_headers hc (hc_trunk hc ! (i - n)) = Some d"
proof (induction n arbitrary: i c)
  case (Suc n)
  then obtain j where j: "i = Suc j" by (cases i) auto
  have "parent (hc_headers hc) (hc_trunk hc ! Suc j) (hc_trunk hc ! j)"
    using linked_nth [OF l [unfolded trunk_linked_def], of j] Suc.prems(1) j by simp
  then have p: "ch_prev c = hc_trunk hc ! j" using Suc.prems(2) j by (auto simp: parent_def)
  obtain d where d: "hc_headers hc (hc_trunk hc ! j) = Some d"
    using trunk_entry [OF inv l, of j] Suc.prems(1) j by auto
  show ?case using Suc.IH [of j d] Suc.prems d p j by simp
qed simp

lemma interval_start_tip:
  assumes inv: "hc_inv X hc" and l: "trunk_linked hc"
    and tip: "HeaderCache_tip hc = Some prev" and len: "2016 \<le> HeaderCache_len hc"
  shows "\<exists>first. interval_start hc prev = Ok first \<and>
    hc_headers hc (hc_trunk hc ! (HeaderCache_len hc - 2016)) = Some first \<and>
    ch_height prev = ch_height first + 2015"
proof -
  have t: "tree_inv X hc" using inv by (simp add: hc_inv_def)
  define n where "n = length (hc_trunk hc) - 1"
  have n: "n < length (hc_trunk hc)" "2015 \<le> n" "n - 2015 = length (hc_trunk hc) - 2016"
    using len by (auto simp: n_def HeaderCache_len_def)
  have "hc_trunk hc \<noteq> []" using n by auto
  then have last: "last (hc_trunk hc) = hc_trunk hc ! n" by (simp add: last_conv_nth n_def)
  have prev: "hc_headers hc (hc_trunk hc ! n) = Some prev"
    using tip \<open>hc_trunk hc \<noteq> []\<close> by (simp add: tip_eq last)
  obtain first where f: "scan_back hc 2015 prev = Ok first"
    "hc_headers hc (hc_trunk hc ! (n - 2015)) = Some first"
    using scan_back_trunk [OF t l n(1) prev n(2)] by blast
  obtain m where m: "n = Suc m" using n(2) by (cases n) auto
  have "parent (hc_headers hc) (hc_trunk hc ! n) (hc_trunk hc ! m)"
    using linked_nth [OF l [unfolded trunk_linked_def], of m] n(1) m by simp
  then have "ch_prev prev = hc_trunk hc ! m" using prev by (auto simp: parent_def)
  moreover have "hc_trunk hc ! m \<noteq> hc_trunk hc ! n"
    using trunk_distinct [OF t l] n(1) m by (simp add: nth_eq_iff_index_eq)
  ultimately have "HeaderCache_tip_hash hc \<noteq> Some (ch_prev prev)"
    using last by (auto simp: HeaderCache_tip_hash_def)
  moreover have "ch_height prev = word_of_nat n" "ch_height first = word_of_nat (n - 2015)"
    using trunk_entry [OF t l n(1)] trunk_entry [OF t l, of "n - 2015"] n(1) prev f(2) by auto
  moreover have "(word_of_nat n :: u32) = word_of_nat (n - 2015) + 2015"
    using n(2) by (metis le_add_diff_inverse2 of_nat_add of_nat_numeral)
  ultimately show ?thesis
    using f n(3) by (simp add: interval_start_def HeaderCache_len_def)
qed

section \<open>The locator\<close>

lemma locator_loop_skip:
  "n < 2 ^ 32 \<Longrightarrow> locator_loop xs locator skip count (word_of_nat n) =
     (if length xs \<le> n then locator
      else locator_loop (drop (Suc n) xs) (locator @ [xs ! n])
        (if word_sless 10 (count + 1) then skip * 2 else skip) (count + 1) (skip - 1))"
proof (induction xs arbitrary: n)
  case (Cons x xs)
  show ?case
  proof (cases n)
    case 0
    then show ?thesis by (simp add: Let_def)
  next
    case (Suc m)
    have "unat (word_of_nat n :: 32 word) = n" using Cons.prems by (simp add: unat_word_of_nat)
    then have "(word_of_nat n :: 32 word) \<noteq> 0" using Suc by auto
    then show ?thesis using Cons Suc by simp
  qed
qed simp

lemma sless_10: "m < 2 ^ 31 \<Longrightarrow> word_sless 10 (word_of_nat m :: 32 word) \<longleftrightarrow> 10 < m"
proof -
  assume m: "m < 2 ^ 31"
  have "sint (word_of_nat m :: 32 word) = int m"
    using m by (simp only: sint_sbintrunc' signed_of_nat) (simp add: signed_take_bit_int_eq_self)
  then show ?thesis by (simp add: word_sless_alt)
qed

lemma locator_phase1:
  "i \<le> 11 \<Longrightarrow> i \<le> length R \<Longrightarrow> locator_loop R [] 1 0 0 =
    locator_loop (drop i R) (take i R) (if i < 11 then 1 else 2) (word_of_nat i) 0"
proof (induction i)
  case (Suc i)
  have w: "(word_of_nat i + 1 :: 32 word) = word_of_nat (Suc i)" by (simp add: add.commute)
  have "drop i R = R ! i # drop (Suc i) R" using Suc.prems by (simp add: Cons_nth_drop_Suc)
  then have "locator_loop (drop i R) (take i R) 1 (word_of_nat i) 0 =
      locator_loop (drop (Suc i) R) (take (Suc i) R) (if Suc i < 11 then 1 else 2) (word_of_nat (Suc i)) 0"
    using Suc.prems sless_10 [of "Suc i"] unfolding locator_loop.simps(2) Let_def w
    by (auto simp: take_Suc_conv_app_nth locator_loop.simps(2) Let_def add.commute)
  then show ?case using Suc by simp
qed simp

lemma locator_phase2:
  assumes R: "length R \<le> 2 ^ 30"
  shows "1 \<le> j \<Longrightarrow> j \<le> 31 \<Longrightarrow>
    locator_loop (drop (10 + 2 ^ (j - 1)) R) loc (2 ^ j) (word_of_nat (10 + j)) (word_of_nat (2 ^ (j - 1) - 1)) =
    loc @ map ((!) R) (filter (\<lambda>i. i < length R) (map (\<lambda>k. 9 + 2 ^ k) [j..<31]))"
proof (induction "31 - j" arbitrary: j loc)
  case 0
  then have "j = 31" by simp
  then show ?case using R by simp
next
  case (Suc d)
  define n :: nat where "n = 2 ^ (j - 1) - 1"
  have j: "j < 31" using Suc.hyps(2) by simp
  have pow: "2 ^ j = 2 * (2 ^ (j - 1) :: nat)" using Suc.prems(1) by (cases j) auto
  have "(2::nat) ^ (j - 1) \<le> 2 ^ 30" using j by (intro power_increasing) auto
  then have n32: "n < 2 ^ 32" by (simp add: n_def)
  have an: "10 + 2 ^ (j - 1) + n = 9 + 2 ^ j" using pow by (simp add: n_def)
  have c: "word_sless 10 (word_of_nat (10 + j) + 1 :: 32 word)" using sless_10 [of "11 + j"] j by (simp add: add.commute)
  have s1: "(2 ^ j - 1 :: 32 word) = word_of_nat (2 ^ (Suc j - 1) - 1)" by (simp add: of_nat_diff)
  show ?case
  proof (cases "length R \<le> 9 + 2 ^ j")
    case True
    have "\<not> 9 + 2 ^ k < length R" if "j \<le> k" for k
    proof -
      have "(2::nat) ^ j \<le> 2 ^ k" using that by (intro power_increasing) auto
      then show ?thesis using True by linarith
    qed
    then have "filter (\<lambda>i. i < length R) (map (\<lambda>k. 9 + 2 ^ k) [j..<31]) = []" by (simp add: filter_empty_conv)
    then show ?thesis
      using locator_loop_skip [OF n32] True an unfolding n_def [symmetric] by simp
  next
    case False
    have d: "drop (Suc n) (drop (10 + 2 ^ (j - 1)) R) = drop (10 + 2 ^ (Suc j - 1)) R"
    proof -
      have "Suc n + (10 + 2 ^ (j - 1)) = 10 + 2 ^ (Suc j - 1)" using an by simp
      then show ?thesis by (simp only: drop_drop)
    qed
    have nth: "drop (10 + 2 ^ (j - 1)) R ! n = R ! (9 + 2 ^ j)" 
    proof -
      have "10 + 2 ^ (j - 1) \<le> length R" using an False by linarith
      then show ?thesis by (subst nth_drop) (simp_all only: an)
    qed
    have "locator_loop (drop (10 + 2 ^ (j - 1)) R) loc (2 ^ j) (word_of_nat (10 + j)) (word_of_nat n) =
        locator_loop (drop (10 + 2 ^ (Suc j - 1)) R) (loc @ [R ! (9 + 2 ^ j)]) (2 ^ Suc j)
          (word_of_nat (10 + Suc j)) (word_of_nat (2 ^ (Suc j - 1) - 1))"
      using locator_loop_skip [OF n32, of "drop (10 + 2 ^ (j - 1)) R" loc "2 ^ j" "word_of_nat (10 + j)"]
        False an c unfolding d nth s1 by (simp add: mult.commute add.commute)
    also have "\<dots> = (loc @ [R ! (9 + 2 ^ j)]) @
        map ((!) R) (filter (\<lambda>i. i < length R) (map (\<lambda>k. 9 + 2 ^ k) [Suc j..<31]))"
      using Suc.hyps(2) j by (intro Suc.hyps(1)) auto
    finally show ?thesis using False j unfolding n_def by (simp add: upt_conv_Cons)
  qed
qed

end
