(* ===== verification/Store_Interface.thy ===== *)
theory Store_Interface
  imports Prelude
begin

text \<open>
  The interface of a store of block headers, as its clients use it: the header cache, which the
  chain database wraps, and the chain database, which the header download feeds. A client adds
  headers one by one and looks them up; what it relies on are three laws of a single \<open>add\<close>. From
  them follows what holds after any sequence of calls.
\<close>

section \<open>Sequences of additions\<close>

text \<open>
  Adding a list of headers one after the other, whatever each call answers. \<open>None\<close>: a call did
  not return.
\<close>

fun add_all :: "('s \<Rightarrow> 'h \<Rightarrow> ('s \<times> 'r) option) \<Rightarrow> 's \<Rightarrow> 'h list \<Rightarrow> 's option" where
  "add_all add s [] = Some s"
| "add_all add s (h # hs) =
     (case add s h of None \<Rightarrow> None | Some (s', r) \<Rightarrow> add_all add s' hs)"

lemma add_all_append:
  "add_all add s (xs @ ys) = (case add_all add s xs of None \<Rightarrow> None | Some s' \<Rightarrow> add_all add s' ys)"
  by (induction xs arbitrary: s) (auto split: option.splits)

section \<open>The contract\<close>

text \<open>
  \<open>inv\<close> is the invariant of the store, \<open>wf\<close> the headers the contract covers, \<open>add\<close> the operation
  and \<open>get\<close> the lookup. Adding always returns, keeps the invariant, and keeps what can be
  looked up.
\<close>

locale header_store =
  fixes inv :: "'s \<Rightarrow> bool"
    and wf :: "'h \<Rightarrow> bool"
    and add :: "'s \<Rightarrow> 'h \<Rightarrow> ('s \<times> 'r) option"
    and get :: "'s \<Rightarrow> 'k \<Rightarrow> 'c option"
  assumes add_returns: "inv s \<Longrightarrow> wf h \<Longrightarrow> \<exists>s' r. add s h = Some (s', r)"
    and add_inv: "inv s \<Longrightarrow> wf h \<Longrightarrow> add s h = Some (s', r) \<Longrightarrow> inv s'"
    and add_keeps: "inv s \<Longrightarrow> wf h \<Longrightarrow> add s h = Some (s', r) \<Longrightarrow> get s k = Some c \<Longrightarrow> get s' k = Some c"
begin

lemma all_returns_inv:
  assumes "inv s" "\<forall>h\<in>set hs. wf h"
  shows "\<exists>s'. add_all add s hs = Some s' \<and> inv s' \<and> get s \<subseteq>\<^sub>m get s'"
  using assms
proof (induction hs arbitrary: s)
  case (Cons h hs)
  then obtain s1 r where s1: "add s h = Some (s1, r)" using add_returns by force
  then have "inv s1" using Cons.prems add_inv by force
  moreover have "get s \<subseteq>\<^sub>m get s1" using Cons.prems s1 add_keeps by (force simp: map_le_def)
  ultimately show ?case using Cons s1 by (fastforce intro: map_le_trans)
qed simp

lemma all_prefix:
  assumes "inv s" "\<forall>h\<in>set (xs @ ys). wf h" "add_all add s (xs @ ys) = Some s'"
  shows "\<exists>m. add_all add s xs = Some m \<and> get m \<subseteq>\<^sub>m get s'"
proof -
  obtain m where m: "add_all add s xs = Some m" "inv m"
    using all_returns_inv [of s xs] assms by auto
  then show ?thesis using all_returns_inv [of m ys] assms by (auto simp: add_all_append)
qed

end

end
