(* ===== verification/Header_Cache_Correct.thy ===== *)
theory Header_Cache_Correct
  imports Header_Trunk Store_Interface
begin

text \<open>
  Correctness of the header cache (\<open>src/src/headercache.rs\<close>): the invariant and termination of
  \<open>add_header\<close>, what it stores and what it refuses, the tip with most work, the trunk, the
  retargeting rule, the locator; and the defects of the fork handling, as theorems. Every property
  with hypotheses is applied to a concrete cache.
\<close>

section \<open>A sample chain\<close>

text \<open>
  Concrete headers and caches, on which the properties are evaluated: the hash of a header is its
  nonce, and the logarithm is the identity, so that every header of the easiest target adds 2 to
  the logarithm of the work.
\<close>

definition sample_ext :: ext where
  "sample_ext = ext_word False (\<lambda>h. ucast (bh_nonce h))"

definition mk_header :: "u32 \<Rightarrow> u32 \<Rightarrow> hash \<Rightarrow> BlockHeader" where
  "mk_header bits n p = \<lparr>bh_version = 1, prev_blockhash = p, merkle_root = 0, bh_time = 1000000 + 600 * n,
     bh_bits = bits, bh_nonce = n\<rparr>"

abbreviation (input) easy :: u32 where "easy \<equiv> 0x207fffff"

definition mk_cached :: "u32 \<Rightarrow> hash \<Rightarrow> u32 \<Rightarrow> rat \<Rightarrow> CachedHeader" where
  "mk_cached n p height l =
     CachedHeader_new (ucast n) \<lparr>sh_header = mk_header easy n p, sh_height = height, sh_log2work = Fin l\<rparr>"

definition sample_1 :: "Network \<Rightarrow> HeaderCache" where
  "sample_1 net = \<lparr>hc_network = net, hc_headers = [1 \<mapsto> mk_cached 1 0 0 2], hc_trunk = [1]\<rparr>"

definition sample_2 :: "Network \<Rightarrow> HeaderCache" where
  "sample_2 net = \<lparr>hc_network = net,
     hc_headers = [1 \<mapsto> mk_cached 1 0 0 2, 2 \<mapsto> mk_cached 2 1 1 4], hc_trunk = [1, 2]\<rparr>"

definition sample_3 :: "Network \<Rightarrow> HeaderCache" where
  "sample_3 net = \<lparr>hc_network = net,
     hc_headers = [1 \<mapsto> mk_cached 1 0 0 2, 2 \<mapsto> mk_cached 2 1 1 4, 3 \<mapsto> mk_cached 3 1 1 4],
     hc_trunk = [1, 2]\<rparr>"

definition sample_4 :: "Network \<Rightarrow> HeaderCache" where
  "sample_4 net = \<lparr>hc_network = net,
     hc_headers = [1 \<mapsto> mk_cached 1 0 0 2, 2 \<mapsto> mk_cached 2 1 1 4, 3 \<mapsto> mk_cached 3 1 1 4,
                   4 \<mapsto> mk_cached 4 3 2 6],
     hc_trunk = [1, 1, 4]\<rparr>"

definition hard_cached :: CachedHeader where
  "hard_cached = CachedHeader_new 9
     \<lparr>sh_header = mk_header 0x1d00ffff 9 1, sh_height = 1, sh_log2work = Fin 4295032835\<rparr>"

text \<open>
  A chain of 2016 headers, a whole interval, of the largest target; the times are a parameter. Header
  \<open>k\<close> counts from 1 and has the hash \<open>k\<close>.
\<close>

definition deep_block :: "(nat \<Rightarrow> u32) \<Rightarrow> nat \<Rightarrow> CachedHeader" where
  "deep_block tm k = CachedHeader_new (word_of_nat k)
     \<lparr>sh_header = (mk_header 0x1d00ffff (word_of_nat k) (word_of_nat (k - 1)))\<lparr>bh_time := tm k\<rparr>,
      sh_height = word_of_nat (k - 1), sh_log2work = Fin 2\<rparr>"

definition deep_chain :: "(nat \<Rightarrow> u32) \<Rightarrow> HeaderCache" where
  "deep_chain tm = \<lparr>hc_network = Bitcoin,
     hc_headers = (\<lambda>k. if 1 \<le> unat k \<and> unat k \<le> 2016 then Some (deep_block tm (unat k)) else None),
     hc_trunk = map word_of_nat [1..<2017]\<rparr>"

text \<open>Times that run forwards, ten minutes apart, and times that run backwards.\<close>

definition tm0 :: "nat \<Rightarrow> u32" where
  "tm0 k = 1000000 + 600 * word_of_nat k"

definition tm1 :: "nat \<Rightarrow> u32" where
  "tm1 k = 3000000 - 600 * word_of_nat k"

lemma sample_ext_ok: "ext_ok sample_ext"
  by (simp add: sample_ext_def ext_word_ok)

lemma sample_ext_hash [simp]: "x_hash sample_ext h = ucast (bh_nonce h)"
  by (simp add: sample_ext_def ext_word_def)

lemma mk_header_simps [simp]:
  "prev_blockhash (mk_header b n p) = p" "bh_nonce (mk_header b n p) = n" "bh_bits (mk_header b n p) = b"
  "bh_time (mk_header b n p) = 1000000 + 600 * n"
  by (simp_all add: mk_header_def)

lemma mk_cached_simps [simp]:
  "ch_id (mk_cached n p h l) = ucast n" "ch_header (mk_cached n p h l) = mk_header easy n p"
  "ch_height (mk_cached n p h l) = h" "ch_log2work (mk_cached n p h l) = Fin l"
  by (simp_all add: mk_cached_def CachedHeader_new_def)

lemma easy_target: "header_target (mk_header easy n p) = 0x7fffff * 2 ^ 232"
  by (simp add: header_target_def compact_target_def Let_def)

lemma hard_target: "header_target (mk_header 0x1d00ffff n p) = 0xFFFF * 2 ^ 208"
  by (simp add: header_target_def compact_target_def Let_def)

lemma sample_ext_target [simp]: "x_target sample_ext h = header_target h"
  by (simp add: sample_ext_def ext_word_def)

lemma sample_work [simp]:
  "x_work sample_ext (mk_header easy n p) = 2" "x_work sample_ext (mk_header 0x1d00ffff n p) = 4295032833"
  by (simp_all add: sample_ext_def ext_word_def easy_target hard_target)

lemma sample_log2 [simp]:
  "HeaderCache_log2 sample_ext 2 = Ok (Fin 2)" "HeaderCache_log2 sample_ext 4 = Ok (Fin 4)"
  "HeaderCache_log2 sample_ext 6 = Ok (Fin 6)" "HeaderCache_log2 sample_ext 4295032835 = Ok (Fin 4295032835)"
  by (simp_all add: log2_eq sample_ext_def ext_word_def u128_as_f64_def round_f64_def bit_length.simps)

lemma sample_exp2 [simp]:
  "HeaderCache_exp2 sample_ext (Fin 2) = Ok 2" "HeaderCache_exp2 sample_ext (Fin 4) = Ok 4"
  by (simp_all add: HeaderCache_exp2_def sample_ext_def ext_word_def)

lemma sample_add [simp]: "x_add sample_ext a b = a + b" "x_checks sample_ext = False"
  by (simp_all add: sample_ext_def ext_word_def)

lemmas sample_defs = sample_1_def sample_2_def sample_3_def sample_4_def HeaderCache_new_def

lemmas add_header_defs = HeaderCache_add_header_def HeaderCache_add_header_to_tree_def required_work_def
  cached_of_def rust_add_def spv_validate_eq [OF sample_ext_ok] HeaderCache_tip_def HeaderCache_tip_hash_def
  HeaderCache_get_header_def move_trunk_def HeaderCache_pos_on_trunk_def rposition_def
  CachedHeader_bitcoin_hash_def

lemma sample_add_1:
  "HeaderCache_add_header sample_ext (HeaderCache_new net) (mk_header easy 1 0) =
     Some (sample_1 net, Ok (Some (mk_cached 1 0 0 2, None, Some [1])))"
  by (simp add: sample_defs HeaderCache_add_header_def mk_cached_def Let_def)

lemma sample_add_2:
  "net \<in> {Bitcoin, Testnet} \<Longrightarrow>
   HeaderCache_add_header sample_ext (sample_1 net) (mk_header easy 2 1) =
     Some (sample_2 net, Ok (Some (mk_cached 2 1 1 4, None, Some [2])))"
  by (auto simp: sample_defs add_header_defs fork_path.simps easy_target Let_def mk_cached_def
      CachedHeader_new_def max_target_eq [OF sample_ext_ok] testnet_scan.simps)

lemma sample_add_3:
  "HeaderCache_add_header sample_ext (sample_2 Bitcoin) (mk_header easy 3 1) =
     Some (sample_3 Bitcoin, Ok (Some (mk_cached 3 1 1 4, None, None)))"
  by (simp add: sample_defs add_header_defs easy_target Let_def mk_cached_def CachedHeader_new_def)

lemma sample_add_4:
  "HeaderCache_add_header sample_ext (sample_3 Bitcoin) (mk_header easy 4 3) =
     Some (sample_4 Bitcoin, Ok (Some (mk_cached 4 3 2 6, Some [2], Some [1, 4])))"
  by (simp add: sample_defs add_header_defs fork_path.simps easy_target Let_def mk_cached_def CachedHeader_new_def)

lemma sample_add_hard:
  "\<exists>hc. HeaderCache_add_header sample_ext (sample_2 Testnet) (mk_header 0x1d00ffff 9 1) =
     Some (hc, Ok (Some (hard_cached, None, Some [9])))"
  by (simp add: sample_defs add_header_defs fork_path.simps hard_target Let_def CachedHeader_new_def
      hard_cached_def max_target_eq [OF sample_ext_ok])

lemma add_header_inv:
  assumes "hc_inv X hc" "prev_blockhash h \<noteq> 0" "HeaderCache_add_header X hc h = Some (hc', r)"
  shows "hc_inv X hc'"
  using assms(1,2) by (cases rule: add_header_spec) (use assms in auto)

lemma genesis_spec:
  assumes g: "prev_blockhash g = 0" and w: "unat (x_work X g) < 2 ^ 128"
  shows "\<exists>hc c. HeaderCache_add_header X (HeaderCache_new net) g = Some (hc, Ok (Some (c, None, Some [x_hash X g]))) \<and>
    hc_inv X hc \<and> trunk_linked hc \<and> hc_network hc = net \<and> HeaderCache_tip hc = Some c"
proof -
  define c where "c = CachedHeader_new (x_hash X g)
    \<lparr>sh_header = g, sh_height = 0, sh_log2work = x_log2 X (u128_as_f64 (word_of_nat (unat (x_work X g))))\<rparr>"
  define hc where "hc = \<lparr>hc_network = net, hc_headers = [x_hash X g \<mapsto> c], hc_trunk = [x_hash X g]\<rparr>"
  have "HeaderCache_add_header X (HeaderCache_new net) g = Some (hc, Ok (Some (c, None, Some [x_hash X g])))"
    using assms by (simp add: HeaderCache_add_header_def HeaderCache_new_def log2_eq Let_def hc_def c_def)
  moreover have "tree_inv X hc"
    using g by (auto simp: tree_inv_def hc_def c_def CachedHeader_new_def intro!: anchored_root split: if_splits)
  moreover have "tip_max hc"
    by (cases "ch_log2work c") (auto simp: tip_max_def hc_def tip_eq)
  ultimately show ?thesis
    by (auto simp: hc_inv_def trunk_linked_def hc_def tip_eq)
qed

lemma sample_1_inv: "hc_inv sample_ext (sample_1 net)" "trunk_linked (sample_1 net)"
  using genesis_spec [of "mk_header easy 1 0" sample_ext net] sample_add_1 [of net] by auto

lemma sample_2_inv:
  assumes "net \<in> {Bitcoin, Testnet}"
  shows "hc_inv sample_ext (sample_2 net)" "trunk_linked (sample_2 net)"
proof -
  show "hc_inv sample_ext (sample_2 net)"
    using add_header_inv [OF sample_1_inv(1) _ sample_add_2 [OF assms]] by simp
  show "trunk_linked (sample_2 net)"
    by (simp add: trunk_linked_def sample_2_def parent_def)
qed

lemma sample_3_inv: "hc_inv sample_ext (sample_3 Bitcoin)"
  using add_header_inv [OF sample_2_inv(1) _ sample_add_3] by simp

lemma deep_block_simps [simp]:
  "ch_id (deep_block tm k) = word_of_nat k" "ch_height (deep_block tm k) = word_of_nat (k - 1)"
  "ch_log2work (deep_block tm k) = Fin 2" "ch_prev (deep_block tm k) = word_of_nat (k - 1)"
  "bh_time (ch_header (deep_block tm k)) = tm k" "bh_bits (ch_header (deep_block tm k)) = 0x1d00ffff"
  "bh_nonce (ch_header (deep_block tm k)) = word_of_nat k"
  by (simp_all add: deep_block_def CachedHeader_new_def)

lemma deep_header:
  "hc_headers (deep_chain tm) k = (if 1 \<le> unat k \<and> unat k \<le> 2016 then Some (deep_block tm (unat k)) else None)"
  by (simp add: deep_chain_def)

lemma deep_header_nat:
  "1 \<le> n \<Longrightarrow> n \<le> 2016 \<Longrightarrow> hc_headers (deep_chain tm) (word_of_nat n) = Some (deep_block tm n)"
  by (simp add: deep_header unat_word_of_nat)

text \<open>The trunk is not unfolded: what is needed of it are its ends, its length and its entries.\<close>

lemma deep_trunk:
  "hd (hc_trunk (deep_chain tm)) = 1" "length (hc_trunk (deep_chain tm)) = 2016"
  "i < 2016 \<Longrightarrow> hc_trunk (deep_chain tm) ! i = word_of_nat (Suc i)"
  "set (hc_trunk (deep_chain tm)) = word_of_nat ` {1..<2017}"
proof -
  have t: "hc_trunk (deep_chain tm) = map word_of_nat [1..<2017]"
    by (simp only: deep_chain_def HeaderCache.select_convs)
  have ne: "[1..<2017] \<noteq> []" by (simp only: upt_eq_Nil_conv) simp
  have "hd [1..<2017] = 1" by (rule hd_upt) simp
  then show "hd (hc_trunk (deep_chain tm)) = 1" by (simp only: t hd_map [OF ne] of_nat_1)
  show l: "length (hc_trunk (deep_chain tm)) = 2016" by (simp only: t length_map length_upt)
  show "set (hc_trunk (deep_chain tm)) = word_of_nat ` {1..<2017}"
    by (simp only: t set_map set_upt)
  assume "i < 2016"
  then have "i < length [1..<2017]" by (simp only: length_upt)
  moreover have "[1..<2017] ! i = 1 + i" using \<open>i < 2016\<close> by (intro nth_upt) simp
  ultimately show "hc_trunk (deep_chain tm) ! i = word_of_nat (Suc i)"
    by (simp only: t nth_map plus_1_eq_Suc)
qed

lemma deep_anchored: "n \<le> 2015 \<Longrightarrow> anchored (hc_headers (deep_chain tm)) (word_of_nat (Suc n))"
proof (induction n)
  case 0
  have "hc_headers (deep_chain tm) (word_of_nat (Suc 0)) = Some (deep_block tm 1)"
    using deep_header_nat [of 1 tm] by simp
  then show ?case by (rule anchored_root) simp
next
  case (Suc n)
  have u: "unat (word_of_nat (Suc n) :: hash) = Suc n" using Suc.prems by (intro unat_word_of_nat) simp
  have "hc_headers (deep_chain tm) (word_of_nat (Suc (Suc n))) = Some (deep_block tm (Suc (Suc n)))"
    using Suc.prems by (intro deep_header_nat) auto
  then show ?case
  proof (rule anchored_step)
    show "ch_prev (deep_block tm (Suc (Suc n))) \<noteq> 0"
      using u unat_0 unfolding deep_block_simps diff_Suc_1 by (metis nat.distinct(1))
    show "anchored (hc_headers (deep_chain tm)) (ch_prev (deep_block tm (Suc (Suc n))))"
      using Suc unfolding deep_block_simps diff_Suc_1 by simp
  qed
qed

lemma deep_tree_inv: "tree_inv sample_ext (deep_chain tm)"
proof -
  have entry: "ch_id c = k \<and> x_hash sample_ext (ch_header c) = k \<and> anchored (hc_headers (deep_chain tm)) k \<and>
      (ch_prev c = 0 \<longrightarrow> k = hd (hc_trunk (deep_chain tm)) \<and> ch_height c = 0) \<and>
      (ch_prev c \<noteq> 0 \<longrightarrow> (\<exists>p. hc_headers (deep_chain tm) (ch_prev c) = Some p \<and> ch_height c = ch_height p + 1))"
    if kc: "hc_headers (deep_chain tm) k = Some c" for k c
  proof -
    obtain n where n: "k = word_of_nat (Suc n)" "c = deep_block tm (Suc n)" "n \<le> 2015"
    proof -
      have k: "1 \<le> unat k" "unat k \<le> 2016" "c = deep_block tm (unat k)"
        using kc by (auto simp: deep_header split: if_splits)
      then obtain n where "unat k = Suc n" by (cases "unat k") auto
      then show thesis using that [of n] k word_of_nat_unat_self [of k] by simp
    qed
    have u: "unat (word_of_nat n :: hash) = n" using n(3) by (intro unat_word_of_nat) simp
    then have z: "word_of_nat n = (0::hash) \<longleftrightarrow> n = 0" by (cases "n = 0") auto
    have "ucast (word_of_nat (Suc n) :: u32) = (word_of_nat (Suc n) :: hash)"
      by (rule unsigned_word_eqI [where ?'a = nat])
        (use n(3) in \<open>simp add: unat_ucast_up unat_word_of_nat del: of_nat_Suc\<close>)
    then have hash: "ch_id c = k \<and> x_hash sample_ext (ch_header c) = k"
      unfolding n(1,2) sample_ext_hash deep_block_simps by blast
    have prev: "ch_prev c = word_of_nat n" "ch_height c = word_of_nat n"
      unfolding n(2) deep_block_simps by simp_all
    have root: "ch_prev c = 0 \<longrightarrow> k = hd (hc_trunk (deep_chain tm)) \<and> ch_height c = 0"
      unfolding prev z deep_trunk(1) n(1) by simp
    have "\<exists>p. hc_headers (deep_chain tm) (word_of_nat n) = Some p \<and> (word_of_nat n :: u32) = ch_height p + 1"
      if "n \<noteq> 0"
    proof -
      have "hc_headers (deep_chain tm) (word_of_nat n) = Some (deep_block tm n)"
        using that n(3) by (intro deep_header_nat) auto
      moreover have "(word_of_nat n :: u32) = ch_height (deep_block tm n) + 1"
        using that by (cases n) simp_all
      ultimately show ?thesis by blast
    qed
    moreover have "anchored (hc_headers (deep_chain tm)) k" unfolding n(1) by (rule deep_anchored [OF n(3)])
    ultimately show ?thesis using hash root unfolding prev z by blast
  qed
  moreover have "set (hc_trunk (deep_chain tm)) \<subseteq> dom (hc_headers (deep_chain tm))"
    using deep_header_nat [of _ tm] by (auto simp: deep_trunk dom_def)
  moreover have "hc_trunk (deep_chain tm) \<noteq> []" using deep_trunk(2) [of tm] by auto
  ultimately show ?thesis by (simp only: tree_inv_def) blast
qed

lemma deep_inv: "hc_inv sample_ext (deep_chain tm)"
proof -
  have "ch_log2work c = Fin 2" if "hc_headers (deep_chain tm) k = Some c" for k c
    using that by (auto simp: deep_header split: if_splits)
  then have "tip_max (deep_chain tm)"
    by (auto simp: tip_max_def HeaderCache_tip_def HeaderCache_get_header_def split: option.splits)
  then show ?thesis using deep_tree_inv by (simp add: hc_inv_def)
qed

lemma deep_linked: "trunk_linked (deep_chain tm)"
proof -
  have "parent (hc_headers (deep_chain tm)) (hc_trunk (deep_chain tm) ! Suc i) (hc_trunk (deep_chain tm) ! i)"
    if "Suc i < length (hc_trunk (deep_chain tm))" for i
  proof -
    have i: "Suc i < 2016" using that deep_trunk(2) by simp
    have "unat (word_of_nat (Suc i) :: hash) = Suc i" using i by (intro unat_word_of_nat) simp
    then have "word_of_nat (Suc i) \<noteq> (0 :: hash)" by (metis nat.distinct(1) unat_0)
    moreover have "hc_headers (deep_chain tm) (word_of_nat (Suc (Suc i))) = Some (deep_block tm (Suc (Suc i)))"
      using i by (intro deep_header_nat) auto
    moreover have "hc_trunk (deep_chain tm) ! i = ch_prev (deep_block tm (Suc (Suc i)))"
      using i deep_trunk(3) [of i tm] unfolding deep_block_simps by simp
    moreover have "ch_prev (deep_block tm (Suc (Suc i))) = word_of_nat (Suc i)"
      unfolding deep_block_simps by simp
    moreover have "hc_trunk (deep_chain tm) ! Suc i = word_of_nat (Suc (Suc i))"
      using i by (rule deep_trunk(3))
    ultimately show ?thesis unfolding parent_def by (intro exI [of _ "deep_block tm (Suc (Suc i))"]) auto
  qed
  then show ?thesis unfolding trunk_linked_def by (rule linked_nthI)
qed

lemma deep_tip: "HeaderCache_tip (deep_chain tm) = Some (deep_block tm 2016)"
proof -
  have "hc_trunk (deep_chain tm) \<noteq> []" using deep_trunk(2) [of tm] by auto
  then have "last (hc_trunk (deep_chain tm)) = word_of_nat 2016"
    using deep_trunk(3) [of 2015 tm] by (simp add: last_conv_nth deep_trunk(2))
  then show ?thesis
    using \<open>hc_trunk (deep_chain tm) \<noteq> []\<close> deep_header_nat [of 2016 tm] by (simp add: tip_eq)
qed

lemma deep_interval_start: "interval_start (deep_chain tm) (deep_block tm 2016) = Ok (deep_block tm 1)"
  using interval_start_tip [OF deep_inv deep_linked deep_tip [of tm]] deep_trunk(2) [of tm] deep_trunk(3) [of 0 tm] deep_header_nat [of 1 tm]
  by (auto simp: HeaderCache_len_def)


lemma iter_trunk_heights:
  assumes inv: "hc_inv X hc" and l: "trunk_linked hc"
  shows "\<exists>cs. HeaderCache_iter_trunk hc from = Ok cs \<and>
    map ch_height cs = map word_of_nat [unat from..<HeaderCache_len hc]"
proof -
  have t: "tree_inv X hc" using inv by (simp add: hc_inv_def)
  have "set (drop (unat from) (hc_trunk hc)) \<subseteq> dom (hc_headers hc)"
    using tree_inv_trunk(2) [OF t] by (auto dest: in_set_dropD)
  moreover have "map (\<lambda>h. ch_height (the (hc_headers hc h))) (drop (unat from) (hc_trunk hc)) =
      map word_of_nat [unat from..<length (hc_trunk hc)]"
    using arg_cong [OF trunk_heights [OF t l], of "drop (unat from)"]
    by (simp add: drop_map)
  ultimately show ?thesis
    by (simp add: HeaderCache_iter_trunk_def lookup_all_Ok HeaderCache_len_def comp_def)
qed

lemma iter_trunk_rev_heights:
  assumes inv: "hc_inv X hc" and l: "trunk_linked hc" and len: "unat from \<le> HeaderCache_len hc"
  shows "\<exists>cs. HeaderCache_iter_trunk_rev checks hc (Some from) = Ok cs \<and>
    map ch_height cs = rev (map word_of_nat [0..<unat from])"
proof -
  have t: "tree_inv X hc" using inv by (simp add: hc_inv_def)
  have e: "drop (length (hc_trunk hc) - unat from) (rev (hc_trunk hc)) = rev (take (unat from) (hc_trunk hc))"
    using len by (simp add: rev_take HeaderCache_len_def)
  have "set (rev (take (unat from) (hc_trunk hc))) \<subseteq> dom (hc_headers hc)"
    using tree_inv_trunk(2) [OF t] by (auto dest: in_set_takeD)
  moreover have "map (\<lambda>h. ch_height (the (hc_headers hc h))) (take (unat from) (hc_trunk hc)) =
      map word_of_nat [0..<unat from]"
    using arg_cong [OF trunk_heights [OF t l], of "take (unat from)"] len
    by (simp add: take_map HeaderCache_len_def)
  ultimately show ?thesis
    using len e
    by (simp add: HeaderCache_iter_trunk_rev_def lookup_all_Ok HeaderCache_len_def comp_def Let_def rev_map [symmetric])
qed

lemma add_header_grows:
  assumes "hc_inv X hc" "prev_blockhash h \<noteq> 0" "HeaderCache_add_header X hc h = Some (hc', r)"
  shows "hc_headers hc \<subseteq>\<^sub>m hc_headers hc'"
  using assms(1,2) by (cases rule: add_header_spec) (use assms in \<open>auto simp: map_le_def\<close>)

text \<open>The cache is a store of headers: the contract its clients rely on holds of the model.\<close>

interpretation cache: header_store "hc_inv X" "\<lambda>h. prev_blockhash h \<noteq> 0" "HeaderCache_add_header X"
  HeaderCache_get_header for X
proof unfold_locales
  fix s :: HeaderCache and h :: BlockHeader
  assume "hc_inv X s" "prev_blockhash h \<noteq> 0"
  then show "\<exists>s' r. HeaderCache_add_header X s h = Some (s', r)"
    by (cases rule: add_header_spec) auto
next
  fix s s' :: HeaderCache and h :: BlockHeader and r k c
  assume A: "hc_inv X s" "prev_blockhash h \<noteq> 0" "HeaderCache_add_header X s h = Some (s', r)"
  then show "hc_inv X s'" by (rule add_header_inv)
  assume "HeaderCache_get_header s k = Some c"
  then show "HeaderCache_get_header s' k = Some c"
    using add_header_grows [OF A] by (auto simp: HeaderCache_get_header_def map_le_def dom_def)
qed

lemma move_trunk_nonempty:
  "move_trunk hc next c = Some (hc', Ok (d, u, f)) \<Longrightarrow> f \<noteq> Some []"
  by (auto simp: move_trunk_def Let_def split: option.splits outcome.splits if_splits prod.splits)

lemma move_trunk_last:
  assumes "tree_inv X hc" "hc_headers hc (prev_blockhash next) = Some prev"
    "move_trunk hc next c = Some (hc', Ok (d, u, f))"
  shows "hc_headers hc' = hc_headers hc \<and> hc_trunk hc' \<noteq> [] \<and> last (hc_trunk hc') = ch_id c \<and>
    (\<exists>p. f = Some p \<and> last p = ch_id c)"
proof -
  obtain side fork where "side = [] \<Longrightarrow> move_trunk hc next c =
       Some (hc\<lparr>hc_trunk := hc_trunk hc @ [ch_id c]\<rparr>, Ok (c, None, Some [ch_id c]))"
    "side \<noteq> [] \<Longrightarrow> \<exists>pos. rposition (\<lambda>h. h = fork) (hc_trunk hc) = Some pos \<and> move_trunk hc next c =
       Some (hc\<lparr>hc_trunk := take (pos + 1) (hc_trunk hc) @ fork # rev (tl side) @ [ch_id c]\<rparr>,
         Ok (c, Some (rev (drop (pos + 1) (hc_trunk hc))), Some (fork # rev (tl side) @ [ch_id c])))"
    using move_trunk_spec [OF assms(1,2), where c = c] by metis
  then show ?thesis using assms(3) by (cases "side = []") auto
qed


section \<open>Adding headers\<close>

text \<open>
  C2. Adding a header to a valid cache always returns: neither the loop that looks for the fork
  point nor the testnet scan runs forever.
\<close>

theorem add_header_returns:
  assumes "hc_inv X hc"
  shows "\<exists>hc' r. HeaderCache_add_header X hc h = Some (hc', r)"
proof (cases "prev_blockhash h = 0")
  case True
  then show ?thesis
    by (cases "HeaderCache_log2 X (x_work X h)") (auto simp: HeaderCache_add_header_def Let_def)
next
  case False
  with assms show ?thesis by (cases rule: add_header_spec) auto
qed

theorem add_header_returns_witness:
  "hc_inv sample_ext (sample_3 Bitcoin) \<and>
   (\<exists>hc' r. HeaderCache_add_header sample_ext (sample_3 Bitcoin) (mk_header easy 4 3) = Some (hc', r))"
  using sample_3_inv add_header_returns [OF sample_3_inv] by blast

text \<open>
  C1. Adding a header with a parent keeps the invariant of the cache: headers are stored under
  their hash, every ancestor is cached, heights count up from the root, the trunk starts at
  the root with cached entries, and no cached header has more work than the tip. Nothing that
  was cached is changed.
\<close>

theorem add_header_keeps_inv:
  assumes "hc_inv X hc" "prev_blockhash h \<noteq> 0" "HeaderCache_add_header X hc h = Some (hc', r)"
  shows "hc_inv X hc' \<and> hc_headers hc \<subseteq>\<^sub>m hc_headers hc'"
  using assms add_header_inv [OF assms] add_header_grows [OF assms] by blast

theorem add_header_keeps_inv_witness:
  "hc_inv sample_ext (sample_4 Bitcoin) \<and> hc_headers (sample_3 Bitcoin) \<subseteq>\<^sub>m hc_headers (sample_4 Bitcoin)"
  using add_header_keeps_inv [OF sample_3_inv _ sample_add_4] by simp

text \<open>
  Any list of headers with parents can be added one after the other to a valid cache: every
  call returns, the invariant holds at the end, and every header that was cached at the start
  is still there unchanged.
\<close>

theorem add_headers_all:
  assumes "hc_inv X hc" "\<forall>h\<in>set hs. prev_blockhash h \<noteq> 0"
  shows "\<exists>hc'. add_all (HeaderCache_add_header X) hc hs = Some hc' \<and> hc_inv X hc' \<and>
    HeaderCache_get_header hc \<subseteq>\<^sub>m HeaderCache_get_header hc'"
  using assms by (rule cache.all_returns_inv)

theorem add_headers_all_witness:
  "\<exists>hc'. add_all (HeaderCache_add_header sample_ext) (sample_2 Bitcoin) [mk_header easy 3 1, mk_header easy 4 3] = Some hc' \<and>
    hc_inv sample_ext hc' \<and> hc_trunk hc' = [1, 1, 4]"
  using add_headers_all [of sample_ext "sample_2 Bitcoin" "[mk_header easy 3 1, mk_header easy 4 3]", OF sample_2_inv(1)]
  by (simp add: sample_add_3 sample_add_4) (simp add: sample_4_def)

text \<open>
  C27. A call that does not store the header leaves the cache as it was; a header that is known
  is the only one answered with nothing, and a header whose parent is unknown is refused as
  unconnected.
\<close>

theorem add_header_refused:
  assumes "hc_inv X hc" "prev_blockhash h \<noteq> 0" "HeaderCache_add_header X hc h = Some (hc', r)"
  shows "((\<forall>a. r \<noteq> Ok (Some a)) \<longrightarrow> hc' = hc) \<and>
    (r = Ok None \<longleftrightarrow> hc_headers hc (x_hash X h) \<noteq> None) \<and>
    (hc_headers hc (x_hash X h) = None \<and> hc_headers hc (prev_blockhash h) = None \<longrightarrow> r = Err UnconnectedHeader)"
proof (intro conjI)
  show "(\<forall>a. r \<noteq> Ok (Some a)) \<longrightarrow> hc' = hc"
    using assms(1,2) by (cases rule: add_header_spec) (use assms(3) in auto)
  show "r = Ok None \<longleftrightarrow> hc_headers hc (x_hash X h) \<noteq> None"
    using assms(2,3) by (auto simp: HeaderCache_add_header_def obind_conv split: if_splits option.splits)
  show "hc_headers hc (x_hash X h) = None \<and> hc_headers hc (prev_blockhash h) = None \<longrightarrow> r = Err UnconnectedHeader"
    using assms(2,3) by (auto simp: HeaderCache_add_header_def)
qed

theorem add_header_refused_witness:
  "HeaderCache_add_header sample_ext (sample_3 Bitcoin) (mk_header easy 8 7) = Some (sample_3 Bitcoin, Err UnconnectedHeader)"
proof -
  obtain hc' r where e: "HeaderCache_add_header sample_ext (sample_3 Bitcoin) (mk_header easy 8 7) = Some (hc', r)"
    by (simp add: HeaderCache_add_header_def sample_3_def)
  show ?thesis
    using add_header_refused [OF sample_3_inv _ e] e by (simp add: sample_3_def)
qed

text \<open>
  C3. A header that is stored has its proof of work: its target is the one required after its
  parent, its hash, read as a number, does not exceed it, and it is found under its hash at
  the height after its parent's.
\<close>

theorem stored_header_has_pow:
  assumes X: "ext_ok X" and inv: "hc_inv X hc" "prev_blockhash h \<noteq> 0"
    and add: "HeaderCache_add_header X hc h = Some (hc', Ok (Some (c, u, f)))"
  shows "\<exists>prev required. HeaderCache_get_header hc (prev_blockhash h) = Some prev \<and>
    required_work X hc prev h = Some (Ok required) \<and> header_target h = required \<and>
    unat (x_hash X h) \<le> unat required \<and> HeaderCache_get_header hc' (x_hash X h) = Some c \<and>
    ch_header c = h \<and> ch_height c = ch_height prev + 1"
proof -
  obtain prev required where A: "hc_headers hc (prev_blockhash h) = Some prev"
    "required_work X hc prev h = Some (Ok required)" "cached_of X prev h = Ok c"
    "CachedHeader_spv_validate X c required = Ok ()"
    using add_header_stored [OF inv add] by metis
  note C = cached_of_Ok [OF A(3)]
  have "hc_headers hc' (x_hash X h) = Some c"
    using inv by (cases rule: add_header_spec) (use add in auto)
  moreover have "header_target h = required \<and> unat (x_hash X h) \<le> unat required"
    using A(4) C by (auto simp: spv_validate_eq [OF X] word_le_nat_alt split: if_splits)
  ultimately show ?thesis using A C by (simp add: HeaderCache_get_header_def)
qed

theorem stored_header_has_pow_witness:
  "\<exists>prev required. HeaderCache_get_header (sample_3 Bitcoin) 3 = Some prev \<and>
    required_work sample_ext (sample_3 Bitcoin) prev (mk_header easy 4 3) = Some (Ok required) \<and>
    (4::nat) \<le> unat required"
  using stored_header_has_pow [OF sample_ext_ok sample_3_inv _ sample_add_4] by fastforce

text \<open>
  C4. A header with a parent that was stored becomes the tip exactly if it has more work than the tip; the
  answer lists it last among the headers that join the trunk. Otherwise the trunk stays. (One that claims to have no
  parent becomes the tip in any case: \<open>second_root_accepted\<close>.)
\<close>
theorem tip_moves_to_most_work:
  assumes inv: "hc_inv X hc" "prev_blockhash h \<noteq> 0" and tip: "HeaderCache_tip hc = Some t"
    and add: "HeaderCache_add_header X hc h = Some (hc', Ok (Some (c, u, f)))"
  shows "if f64_less (ch_log2work t) (ch_log2work c)
    then HeaderCache_tip hc' = Some c \<and> (\<exists>p. f = Some p \<and> last p = x_hash X h)
    else HeaderCache_tip hc' = Some t \<and> hc_trunk hc' = hc_trunk hc \<and> u = None \<and> f = None"
proof -
  obtain prev required tip where A: "hc_headers hc (x_hash X h) = None" "cached_of X prev h = Ok c"
    "tree_inv X (insert_header hc c)" "hc_headers (insert_header hc c) (prev_blockhash h) = Some prev"
    "\<not> f64_less (ch_log2work tip) (ch_log2work c) \<Longrightarrow> hc' = insert_header hc c \<and> u = None \<and> f = None"
    "f64_less (ch_log2work tip) (ch_log2work c) \<Longrightarrow>
       move_trunk (insert_header hc c) h c = Some (hc', Ok (c, u, f))" "HeaderCache_tip hc = Some tip"
    using add_header_stored [OF inv add] by metis
  have "tip = t" using A(7) tip by simp
  note A = A(1-6) [unfolded this]
  note C = cached_of_Ok [OF A(2)]
  show ?thesis
  proof (cases "f64_less (ch_log2work t) (ch_log2work c)")
    case True
    then show ?thesis
      using move_trunk_last [OF A(3,4,6)] C by (auto simp: tip_eq)
  next
    case False
    have t: "tree_inv X hc" using inv(1) by (simp add: hc_inv_def)
    have ne: "hc_trunk hc \<noteq> []" by (rule tree_inv_trunk(1) [OF t])
    have "last (hc_trunk hc) \<noteq> x_hash X h"
      using tree_inv_trunk(2) [OF t last_in_set [OF ne]] A(1) by auto
    then show ?thesis using False A(5) tip C ne by (simp add: tip_eq)
  qed
qed

theorem tip_moves_to_most_work_witness:
  "HeaderCache_tip (sample_4 Bitcoin) = Some (mk_cached 4 3 2 6)"
  using tip_moves_to_most_work [OF sample_3_inv _ _ sample_add_4, of "mk_cached 2 1 1 4"]
  by (simp add: HeaderCache_tip_def HeaderCache_tip_hash_def HeaderCache_get_header_def sample_3_def)

text \<open>
  The first header without a parent, added to a new cache, makes a valid cache with that header
  as its linked trunk, whatever the network.
\<close>

theorem genesis_inv:
  assumes "prev_blockhash g = 0" "unat (x_work X g) < 2 ^ 128"
  shows "\<exists>hc c. HeaderCache_add_header X (HeaderCache_new net) g = Some (hc, Ok (Some (c, None, Some [x_hash X g]))) \<and>
    hc_inv X hc \<and> trunk_linked hc \<and> hc_network hc = net \<and> HeaderCache_tip hc = Some c"
  using assms by (rule genesis_spec)

theorem genesis_inv_witness:
  "\<exists>hc c. HeaderCache_add_header sample_ext (HeaderCache_new Testnet) (mk_header easy 1 0) =
      Some (hc, Ok (Some (c, None, Some [1]))) \<and> hc_inv sample_ext hc \<and> HeaderCache_tip hc = Some c"
  using genesis_inv [of "mk_header easy 1 0" sample_ext Testnet] by auto

lemma tip_extended:
  assumes inv: "hc_inv X hc" and l: "trunk_linked hc" and nz: "prev_blockhash h \<noteq> 0"
    and tip: "HeaderCache_tip_hash hc = Some (prev_blockhash h)"
    and add: "HeaderCache_add_header X hc h = Some (hc', Ok (Some (c, u, f)))"
  shows "trunk_linked hc' \<and> u = None \<and>
    (f = None \<and> hc_trunk hc' = hc_trunk hc \<or>
     f = Some [x_hash X h] \<and> hc_trunk hc' = hc_trunk hc @ [x_hash X h])"
proof -
  obtain prev required tp where A: "hc_headers hc (x_hash X h) = None"
    "hc_headers hc (prev_blockhash h) = Some prev" "cached_of X prev h = Ok c"
    "tree_inv X (insert_header hc c)" "hc_headers (insert_header hc c) (prev_blockhash h) = Some prev"
    "\<not> f64_less (ch_log2work tp) (ch_log2work c) \<Longrightarrow> hc' = insert_header hc c \<and> u = None \<and> f = None"
    "f64_less (ch_log2work tp) (ch_log2work c) \<Longrightarrow>
       move_trunk (insert_header hc c) h c = Some (hc', Ok (c, u, f))"
    using add_header_stored [OF inv nz add] by metis
  note C = cached_of_Ok [OF A(3)]
  have on: "prev_blockhash h \<in> set (hc_trunk hc)" "prev_blockhash h = last (hc_trunk hc)"
    using tip unfolding HeaderCache_tip_hash_def by (metis last_in_set option.inject option.distinct(1))+
  have l': "linked (\<lambda>a b. parent (hc_headers (insert_header hc c)) b a) (hc_trunk hc)"
    by (rule linked_mono [OF l [unfolded trunk_linked_def]]) (use A(1) C in \<open>auto simp: parent_def\<close>)
  show ?thesis
  proof (cases "f64_less (ch_log2work tp) (ch_log2work c)")
    case False
    then show ?thesis using A(6) l' by (simp add: trunk_linked_def)
  next
    case True
    have "move_trunk (insert_header hc c) h c = Some ((insert_header hc c)\<lparr>hc_trunk := hc_trunk hc @ [ch_id c]\<rparr>,
      Ok (c, None, Some [ch_id c]))"
      using on(1) by (simp add: move_trunk_def fork_path.simps pos_on_trunk_None Let_def CachedHeader_bitcoin_hash_def)
    moreover have "parent (hc_headers (insert_header hc c)) (ch_id c) (last (hc_trunk hc))"
      using C nz on by (simp add: parent_def)
    ultimately show ?thesis
      using A(7) [OF True] l' C by (auto simp: trunk_linked_def linked_append)
  qed
qed

text \<open>
  A header stored on top of the tip keeps the trunk linked: the trunk grows by that header, if
  it adds work, and nothing is unwound.
\<close>

theorem extend_tip:
  assumes inv: "hc_inv X hc" and l: "trunk_linked hc" and nz: "prev_blockhash h \<noteq> 0"
    and tip: "HeaderCache_tip_hash hc = Some (prev_blockhash h)"
    and add: "HeaderCache_add_header X hc h = Some (hc', Ok (Some (c, u, f)))"
  shows "trunk_linked hc' \<and> u = None \<and>
    (f = None \<and> hc_trunk hc' = hc_trunk hc \<or>
     f = Some [x_hash X h] \<and> hc_trunk hc' = hc_trunk hc @ [x_hash X h])"
  by (rule tip_extended [OF assms])

theorem extend_tip_witness:
  "trunk_linked (sample_2 Bitcoin) \<and> hc_trunk (sample_2 Bitcoin) = [1, 2]"
  using extend_tip [OF sample_1_inv _ _ sample_add_2 [of Bitcoin]]
  by (simp add: HeaderCache_tip_hash_def) (simp add: sample_1_def sample_2_def)

section \<open>Looking up the trunk\<close>

text \<open>
  C28. On a valid cache with a linked trunk, the lookup by height finds a header exactly below
  the length of the trunk, that header has this height, and \<open>pos_on_trunk\<close> of its hash
  gives the height back. (After a reorganisation the trunk is not linked: \<open>reorg_loses_parent\<close>.)
\<close>
theorem height_roundtrip:
  assumes inv: "hc_inv X hc" and l: "trunk_linked hc" and len: "length (hc_trunk hc) < 2 ^ 32"
  shows "(HeaderCache_get_header_for_height hc h = None \<longleftrightarrow> HeaderCache_len hc \<le> unat h) \<and>
    (HeaderCache_get_header_for_height hc h = Some c \<longrightarrow>
       ch_height c = h \<and> HeaderCache_pos_on_trunk hc (ch_id c) = Some h)"
proof -
  have t: "tree_inv X hc" using inv by (simp add: hc_inv_def)
  have lt: "h < word_of_nat (length (hc_trunk hc)) \<longleftrightarrow> unat h < length (hc_trunk hc)"
    using len by (simp add: word_less_nat_alt unat_word_of_nat)
  show ?thesis
  proof (cases "unat h < length (hc_trunk hc)")
    case True
    then obtain d where d: "hc_headers hc (hc_trunk hc ! unat h) = Some d" "ch_height d = h"
      using trunk_entry [OF t l] by fastforce
    then have "HeaderCache_pos_on_trunk hc (ch_id d) = Some h"
      using tree_invD(1) [OF t d(1)] rposition_nth_distinct [OF trunk_distinct [OF t l] True]
      by (simp add: pos_on_trunk_rposition)
    then show ?thesis
      using True d lt by (auto simp: HeaderCache_get_header_for_height_def HeaderCache_len_def)
  next
    case False
    then show ?thesis
      using lt by (auto simp: HeaderCache_get_header_for_height_def HeaderCache_len_def)
  qed
qed

theorem height_roundtrip_witness:
  "HeaderCache_get_header_for_height (sample_2 Bitcoin) 1 = Some (mk_cached 2 1 1 4) \<and>
   HeaderCache_pos_on_trunk (sample_2 Bitcoin) 2 = Some 1 \<and>
   HeaderCache_get_header_for_height (sample_2 Bitcoin) 2 = None"
proof -
  have "HeaderCache_get_header_for_height (sample_2 Bitcoin) 1 = Some (mk_cached 2 1 1 4)"
    by (simp add: HeaderCache_get_header_for_height_def sample_2_def)
  then show ?thesis
    using height_roundtrip [OF sample_2_inv [of Bitcoin], of 1 "mk_cached 2 1 1 4"]
      height_roundtrip [OF sample_2_inv [of Bitcoin], of 2 "mk_cached 2 1 1 4"]
    by (simp add: HeaderCache_len_def) (simp add: sample_2_def)
qed

text \<open>
  On a valid cache with a linked trunk the iterators never panic: \<open>iter_trunk from\<close> yields
  the headers from height \<open>from\<close> up to the tip, and \<open>iter_trunk_rev (Some from)\<close> those below
  \<open>from\<close>, the one at \<open>from\<close> itself not included, down to the root.
\<close>

theorem iterators_heights:
  assumes inv: "hc_inv X hc" and l: "trunk_linked hc" and len: "unat from \<le> HeaderCache_len hc"
  shows "(\<exists>cs. HeaderCache_iter_trunk hc from = Ok cs \<and>
      map ch_height cs = map word_of_nat [unat from..<HeaderCache_len hc]) \<and>
    (\<exists>cs. HeaderCache_iter_trunk_rev checks hc (Some from) = Ok cs \<and>
      map ch_height cs = rev (map word_of_nat [0..<unat from]))"
  using iter_trunk_heights [OF inv l] iter_trunk_rev_heights [OF inv l len] by blast

theorem iterators_heights_witness:
  "(\<exists>cs. HeaderCache_iter_trunk (sample_2 Bitcoin) 1 = Ok cs \<and> map ch_height cs = [1]) \<and>
   (\<exists>cs. HeaderCache_iter_trunk_rev True (sample_2 Bitcoin) (Some 1) = Ok cs \<and> map ch_height cs = [0])"
  using iterators_heights [OF sample_2_inv [of Bitcoin], of 1 True]
  by (simp add: HeaderCache_len_def) (simp add: sample_2_def)

section \<open>The required target\<close>

text \<open>
  C30. At the end of an interval the first block of it is found: on a valid cache with a linked
  trunk of at least 2016 headers, the block 2015 before the tip.
\<close>

theorem retarget_interval_start:
  assumes "hc_inv X hc" "trunk_linked hc" "HeaderCache_tip hc = Some prev" "2016 \<le> HeaderCache_len hc"
  shows "\<exists>first. interval_start hc prev = Ok first \<and>
    hc_headers hc (hc_trunk hc ! (HeaderCache_len hc - 2016)) = Some first \<and>
    ch_height prev = ch_height first + 2015"
  using assms by (rule interval_start_tip)

theorem retarget_interval_start_witness:
  "\<exists>first. interval_start (deep_chain tm0) (deep_block tm0 2016) = Ok first \<and>
     ch_height (deep_block tm0 2016) = ch_height first + 2015"
  using retarget_interval_start [OF deep_inv deep_linked deep_tip [of tm0]] deep_trunk(2) [of tm0]
  by (auto simp: HeaderCache_len_def)

text \<open>
  C29. The new target after an interval, if the last block of the interval is not earlier than the first and the old
  target is at least \<open>2 ^ 18\<close> and at most the largest one, can be encoded, does not
  exceed the largest target, is at most four times the old one and, up to the precision of the
  encoding, at least a quarter of it.
\<close>
theorem retarget_bounds:
  assumes X: "ext_ok X" and scan: "interval_start hc prev = Ok scan"
    and time: "bh_time (ch_header scan) \<le> bh_time (ch_header prev)"
    and t: "2 ^ 18 \<le> unat (x_target X (ch_header prev))"
      "unat (x_target X (ch_header prev)) \<le> 0xFFFF * 2 ^ 208"
  shows "\<exists>r bits. retarget X hc prev = Ok r \<and> bits < 2 ^ 32 \<and> compact_target bits = unat r \<and>
    unat r \<le> 0xFFFF * 2 ^ 208 \<and> unat r \<le> 4 * unat (x_target X (ch_header prev)) \<and>
    (unat (x_target X (ch_header prev)) div 4) * (2 ^ 15 - 1) \<le> unat r * 2 ^ 15"
proof -
  define T where "T = unat (x_target X (ch_header prev))"
  define n where "n = bh_time (ch_header prev) - bh_time (ch_header scan)"
  define v where "v = scaled_target T (unat (clamp_timespan n))"
  have sub: "rust_sub (x_checks X) (bh_time (ch_header prev)) (bh_time (ch_header scan)) = (Ok n :: u32 result)"
    using time by (simp add: rust_sub_Ok n_def)
  have b: "v \<le> 4 * T" "T div 4 \<le> v" "v \<le> 0xFFFF * 2 ^ 208"
    using scaled_target_bounds [OF clamp_timespan_bounds, of T n] t unfolding v_def T_def by auto
  have v: "unat (word_of_nat v :: u256) = v" using b(3) by (intro unat_word_of_nat) simp
  have "2 ^ 16 \<le> T div 4" using t(1) unfolding T_def by (simp add: less_eq_div_iff_mult_less_eq)
  then have v16: "2 ^ 16 \<le> v" using b(2) by linarith
  have v256: "v < 2 ^ 256" using b(3) by (rule order.strict_trans1) simp
  have "retarget X hc prev = HeaderCache_satoshi_the_precision X (word_of_nat v)"
    unfolding v_def T_def by (rule retarget_eq [OF X scan sub t(2)])
  also have "\<dots> = Ok (word_of_nat (satoshi_nat v))"
    using satoshi_the_precision_eq [OF X, of "word_of_nat v"] v16 by (simp only: v)
  finally have r: "retarget X hc prev = Ok (word_of_nat (satoshi_nat v))" .
  have u: "unat (word_of_nat (satoshi_nat v) :: u256) = satoshi_nat v"
    using satoshi_nat_le [of v] v256 by (intro unat_word_of_nat) simp
  obtain bits where bits: "bits < 2 ^ 32" "compact_target bits = satoshi_nat v"
    using satoshi_nat_encodable [OF v16 v256] by blast
  have "(v - satoshi_nat v) * 2 ^ 15 \<le> v" by (rule satoshi_nat_precise [OF v16 v256])
  then have "v * (2 ^ 15 - 1) \<le> satoshi_nat v * 2 ^ 15" by (simp add: diff_mult_distrib)
  moreover have "T div 4 * (2 ^ 15 - 1) \<le> v * (2 ^ 15 - 1)" using b(2) by simp
  ultimately have low: "T div 4 * (2 ^ 15 - 1) \<le> satoshi_nat v * 2 ^ 15" by linarith
  have "satoshi_nat v \<le> 4 * T" "satoshi_nat v \<le> 0xFFFF * 2 ^ 208"
    using satoshi_nat_le [of v] b(1,3) by linarith+
  then show ?thesis using r u bits low unfolding T_def by (metis)
qed

theorem retarget_bounds_witness:
  "\<exists>r bits. retarget sample_ext (deep_chain tm0) (deep_block tm0 2016) = Ok r \<and> bits < 2 ^ 32 \<and>
    compact_target bits = unat r \<and> unat r \<le> 0xFFFF * 2 ^ 208"
proof -
  have "unat (header_target (ch_header (deep_block tm0 2016))) = 0xFFFF * 2 ^ 208"
    by (simp add: unat_header_target compact_target_def Let_def)
  then show ?thesis
    using retarget_bounds [OF sample_ext_ok deep_interval_start [of tm0]] by (auto simp: tm0_def)
qed

text \<open>
  If the first block of the interval is later than the last one, the difference of the two
  \<open>u32\<close> times underflows: a build with overflow checks panics, and one without takes the wrapped
  difference for a very long interval and makes mining four times easier instead of harder.
\<close>

theorem negative_timespan:
  assumes scan: "interval_start hc prev = Ok scan"
    and time: "bh_time (ch_header prev) < bh_time (ch_header scan)"
      "bh_time (ch_header scan) - bh_time (ch_header prev) \<le> 2 ^ 31"
  shows "(x_checks X \<longrightarrow> retarget X hc prev = Panicked) \<and>
    (\<not> x_checks X \<longrightarrow> clamp_timespan (bh_time (ch_header prev) - bh_time (ch_header scan)) = 4 * 1209600)"
proof -
  define a where "a = bh_time (ch_header prev)"
  define b where "b = bh_time (ch_header scan)"
  have lt: "unat a < unat b" using time(1) by (simp add: a_def b_def word_less_nat_alt)
  then have "unat (b - a) = unat b - unat a" by (simp add: unat_sub word_le_nat_alt)
  then have "unat b - unat a \<le> 2 ^ 31" using time(2) by (simp add: a_def b_def word_le_nat_alt)
  moreover have "unat (a - b) = unat a + 2 ^ 32 - unat b" using lt by (simp add: unat_sub_if')
  ultimately have "2 ^ 31 \<le> unat (a - b)" by simp
  then have "4838400 < a - b" by (simp add: word_less_nat_alt)
  moreover have "\<not> a - b < 302400" using \<open>2 ^ 31 \<le> unat (a - b)\<close> by (simp add: word_less_nat_alt)
  ultimately have "clamp_timespan (a - b) = 4838400" by (simp add: clamp_timespan_def)
  then show ?thesis using scan time by (simp add: retarget_def rust_sub_def a_def b_def)
qed

theorem negative_timespan_witness:
  "clamp_timespan (tm1 2016 - tm1 1) = 4 * 1209600"
  using negative_timespan [OF deep_interval_start [of tm1], of sample_ext] by (simp add: tm1_def)

section \<open>The locator\<close>

text \<open>
  C32. The locator lists the eleven headers at the tip, then those at distances from the tip that
  double, as far as the trunk reaches.
\<close>

theorem locator_positions:
  assumes "length (hc_trunk hc) \<le> 2 ^ 30"
  shows "HeaderCache_locator_hashes hc =
    map ((!) (rev (hc_trunk hc)))
      (filter (\<lambda>i. i < length (hc_trunk hc)) ([0..<11] @ map (\<lambda>k. 9 + 2 ^ k) [1..<31]))"
proof -
  define R where "R = rev (hc_trunk hc)"
  have R: "length R = length (hc_trunk hc)" by (simp add: R_def)
  show ?thesis
  proof (cases "11 \<le> length R")
    case True
    then have "HeaderCache_locator_hashes hc =
        locator_loop (drop (10 + 2 ^ (1 - 1)) R) (take 11 R) (2 ^ 1) (word_of_nat (10 + 1)) (word_of_nat (2 ^ (1 - 1) - 1))"
      using locator_phase1 [of 11 R] by (simp add: HeaderCache_locator_hashes_def R_def)
    also have "\<dots> = take 11 R @ map ((!) R) (filter (\<lambda>i. i < length R) (map (\<lambda>k. 9 + 2 ^ k) [1..<31]))"
      by (rule locator_phase2) (use assms R in simp_all)
    also have "take 11 R = map ((!) R) (filter (\<lambda>i. i < length R) [0..<11])"
      using True by (intro nth_equalityI) (auto simp: filter_id_conv [THEN iffD2])
    finally show ?thesis by (simp only: R_def length_rev filter_append map_append)
  next
    case False
    have "filter (\<lambda>i. i < length R) [0..<11] = [0..<length R]"
    proof -
      have "[0..<11] = [0..<length R] @ [length R..<11]" using False upt_add_eq_append [of 0 "length R" "11 - length R"] by simp
      then show ?thesis by (simp add: filter_id_conv [THEN iffD2] filter_empty_conv)
    qed
    moreover have "filter (\<lambda>i. i < length R) (map (\<lambda>k. 9 + 2 ^ k) [1..<31]) = []"
      unfolding filter_empty_conv
    proof clarsimp
      fix k :: nat assume "Suc 0 \<le> k" "9 + 2 ^ k < length R"
      then have "(2::nat) ^ 1 \<le> 2 ^ k" by (intro power_increasing) auto
      then show False using False \<open>9 + 2 ^ k < length R\<close> by simp
    qed
    moreover have "HeaderCache_locator_hashes hc = R"
      using locator_phase1 [of "length R" R] False by (simp add: HeaderCache_locator_hashes_def R_def)
    ultimately show ?thesis by (simp add: R [symmetric] R_def [symmetric] map_nth)
  qed
qed

theorem locator_positions_witness:
  "HeaderCache_locator_hashes (sample_2 Bitcoin) = [2, 1]"
  using locator_positions [of "sample_2 Bitcoin"] by (simp add: sample_2_def upt_conv_Cons)

section \<open>Defects of the fork handling\<close>

text \<open>
  C35. A reorganisation, the answer with a list of unwound headers, truncates the trunk after the
  fork point and then appends the fork point once more, the side branch without the parent of the
  new header, and the new header: the parent of the tip is not on the trunk, and the trunk is
  not linked.
\<close>

theorem reorg_loses_parent:
  assumes inv: "hc_inv X hc" and nz: "prev_blockhash h \<noteq> 0"
    and add: "HeaderCache_add_header X hc h = Some (hc', Ok (Some (c, Some u, f)))"
  shows "\<exists>side fork pos. side \<noteq> [] \<and> hd side = prev_blockhash h \<and>
    rposition (\<lambda>e. e = fork) (hc_trunk hc) = Some pos \<and>
    linked (\<lambda>a b. child_of (hc_headers hc) b a) (side @ [fork]) \<and>
    u = rev (drop (pos + 1) (hc_trunk hc)) \<and>
    hc_trunk hc' = take (pos + 1) (hc_trunk hc) @ fork # rev (tl side) @ [x_hash X h] \<and>
    prev_blockhash h \<notin> set (hc_trunk hc') \<and> \<not> trunk_linked hc'"
proof -
  obtain side fork pos where S: "side \<noteq> []" "hd side = prev_blockhash h"
    "rposition (\<lambda>e. e = fork) (hc_trunk hc) = Some pos"
    "linked (\<lambda>a b. child_of (hc_headers hc) b a) (side @ [fork])"
    "u = rev (drop (pos + 1) (hc_trunk hc))"
    "hc_trunk hc' = take (pos + 1) (hc_trunk hc) @ fork # rev (tl side) @ [x_hash X h]"
    "prev_blockhash h \<notin> set (hc_trunk hc')"
    using reorg_spec [OF inv nz add] by metis
  define ys where "ys = take (pos + 1) (hc_trunk hc) @ fork # rev (tl side)"
  have t: "hc_trunk hc' = ys @ [x_hash X h]" "ys \<noteq> []" using S(6) by (auto simp: ys_def)
  have c: "hc_headers hc' (x_hash X h) = Some c \<and> ch_prev c = prev_blockhash h"
    using inv nz by (cases rule: add_header_spec) (use add cached_of_Ok in auto)
  have "last ys \<in> set (hc_trunk hc')" using t by simp
  then have "last ys \<noteq> prev_blockhash h" using S(7) by metis
  then have "\<not> trunk_linked hc'" using t c by (auto simp: trunk_linked_def linked_append parent_def)
  then show ?thesis using S by blast
qed

theorem reorg_loses_parent_witness:
  "(3 :: hash) \<notin> set (hc_trunk (sample_4 Bitcoin)) \<and> \<not> trunk_linked (sample_4 Bitcoin)"
  using reorg_loses_parent [OF sample_3_inv _ sample_add_4] by auto

text \<open>
  A header with most work whose parent is on the trunk below the tip is appended to the trunk
  without unwinding the headers above its parent: the trunk then holds both branches and is not
  linked.
\<close>

theorem interior_fork_not_unwound:
  assumes inv: "hc_inv X hc" and nz: "prev_blockhash h \<noteq> 0"
    and on: "prev_blockhash h \<in> set (hc_trunk hc)" "HeaderCache_tip_hash hc \<noteq> Some (prev_blockhash h)"
    and add: "HeaderCache_add_header X hc h = Some (hc', Ok (Some (c, u, Some f)))"
  shows "u = None \<and> f = [x_hash X h] \<and> hc_trunk hc' = hc_trunk hc @ [x_hash X h] \<and> \<not> trunk_linked hc'"
proof -
  obtain prev required tp where A: "cached_of X prev h = Ok c"
    "\<not> f64_less (ch_log2work tp) (ch_log2work c) \<Longrightarrow> Some f = None"
    "f64_less (ch_log2work tp) (ch_log2work c) \<Longrightarrow>
       move_trunk (insert_header hc c) h c = Some (hc', Ok (c, u, Some f))"
    using add_header_stored [OF inv nz add] by metis
  note C = cached_of_Ok [OF A(1)]
  have less: "f64_less (ch_log2work tp) (ch_log2work c)" using A(2) by blast
  have "hc_trunk hc \<noteq> []" "last (hc_trunk hc) \<noteq> prev_blockhash h"
    using on by (auto simp: HeaderCache_tip_hash_def split: if_splits)
  moreover have "move_trunk (insert_header hc c) h c =
      Some ((insert_header hc c)\<lparr>hc_trunk := hc_trunk hc @ [ch_id c]\<rparr>, Ok (c, None, Some [ch_id c]))"
    using on(1)
    by (simp add: move_trunk_def fork_path.simps pos_on_trunk_None Let_def CachedHeader_bitcoin_hash_def)
  ultimately show ?thesis
    using A(3) [OF less] C by (auto simp: trunk_linked_def linked_append parent_def)
qed

theorem interior_fork_not_unwound_witness:
  "\<exists>hc'. HeaderCache_add_header sample_ext (sample_2 Testnet) (mk_header 0x1d00ffff 9 1) =
      Some (hc', Ok (Some (hard_cached, None, Some [9]))) \<and> hc_trunk hc' = [1, 2, 9] \<and> \<not> trunk_linked hc'"
proof -
  obtain hc' where e: "HeaderCache_add_header sample_ext (sample_2 Testnet) (mk_header 0x1d00ffff 9 1) =
      Some (hc', Ok (Some (hard_cached, None, Some [9])))" using sample_add_hard by blast
  then show ?thesis
    using interior_fork_not_unwound [OF sample_2_inv(1) [of Testnet] _ _ _ e]
    by (simp add: HeaderCache_tip_hash_def) (simp add: sample_2_def)
qed

text \<open>
  Any unknown header that claims no parent is accepted as the new tip, at height 0, without a
  check of its proof of work, whatever the cache holds.
\<close>

theorem second_root_accepted:
  assumes "prev_blockhash h = 0" "hc_headers hc (x_hash X h) = None" "unat (x_work X h) < 2 ^ 128"
  shows "\<exists>hc' c. HeaderCache_add_header X hc h = Some (hc', Ok (Some (c, None, Some [x_hash X h]))) \<and>
    hc_trunk hc' = hc_trunk hc @ [x_hash X h] \<and> HeaderCache_tip hc' = Some c \<and>
    ch_header c = h \<and> ch_height c = 0"
  using assms
  by (simp add: HeaderCache_add_header_def log2_eq Let_def tip_eq CachedHeader_new_def)

theorem second_root_accepted_witness:
  "\<exists>hc' c. HeaderCache_add_header sample_ext (sample_2 Bitcoin) (mk_header easy 5 0) =
     Some (hc', Ok (Some (c, None, Some [5]))) \<and> hc_trunk hc' = [1, 2, 5] \<and> HeaderCache_tip hc' = Some c"
  using second_root_accepted [of "mk_header easy 5 0" "sample_2 Bitcoin" sample_ext]
  by (auto simp: sample_2_def)

text \<open>
  C36. A header that claims so much work that the total reaches \<open>2 ^ 128\<close> makes \<open>add_header\<close> panic
  before its proof of work is looked at.
\<close>

theorem excessive_work_panics:
  assumes par: "hc_headers hc (x_hash X h) = None" "prev_blockhash h \<noteq> 0"
    "hc_headers hc (prev_blockhash h) = Some prev"
    and rw: "required_work X hc prev h = Some (Ok required)"
    and w: "HeaderCache_exp2 X (ch_log2work prev) = Ok w" "2 ^ 128 \<le> unat (x_add X (x_work X h) w)"
  shows "HeaderCache_add_header X hc h = Some (hc, Panicked)"
proof -
  have "cached_of X prev h = Panicked"
    using w by (cases "rust_add (x_checks X) (ch_height prev) 1 :: u32 result")
      (auto simp: cached_of_def log2_eq)
  then show ?thesis
    using rw by (simp add: add_header_regular [OF par] HeaderCache_add_header_to_tree_def)
qed

theorem excessive_work_panics_witness:
  "HeaderCache_add_header sample_ext (sample_1 Bitcoin) (mk_header 0x03000001 2 1) = (Some (sample_1 Bitcoin, Panicked))"
proof -
  have "x_work sample_ext (mk_header 0x03000001 2 1) = word_of_nat (2 ^ 255)"
    by (simp add: sample_ext_def ext_word_def header_target_def compact_target_def Let_def numeral_2_eq_2 [symmetric])
  then have "2 ^ 128 \<le> unat (x_add sample_ext (x_work sample_ext (mk_header 0x03000001 2 1)) 2)"
    by simp
  moreover have "required_work sample_ext (sample_1 Bitcoin) (mk_cached 1 0 0 2) (mk_header 0x03000001 2 1) =
      Some (Ok (header_target (mk_header easy 1 0)))"
    by (simp add: required_work_def sample_1_def rust_add_def)
  ultimately show ?thesis
    using excessive_work_panics [of "sample_1 Bitcoin" sample_ext "mk_header 0x03000001 2 1" "mk_cached 1 0 0 2"]
    by (simp add: sample_1_def)
qed


end
