(* ===== verification/Chain_DB.thy ===== *)
theory Chain_DB
  imports Header_Cache_Correct
begin

text \<open>
  The block chain database (\<open>src/src/chaindb.rs\<close>): the header cache over a persistent store. The
  store is the hammersbald crate behind its \<open>BitcoinAdaptor\<close>; its operations are the fields of
  the record \<open>db_api\<close>, an argument of the definitions, and what is documented of them is the
  hypothesis \<open>db_ok\<close>. The genesis block of a network, from the bitcoin crate, is the argument \<open>G\<close>.
\<close>

section \<open>The store\<close>

text \<open>
  A state of the store has type \<open>'d\<close>. Operations that write return the new state with their
  outcome; a read returns what is stored with its position (\<open>PRef\<close>), if there is anything.
\<close>

record 'd db_api =
  db_transient :: "nat \<Rightarrow> (foreign_error, 'd) outcome"
  db_persistent :: "string \<Rightarrow> nat \<Rightarrow> nat \<Rightarrow> (foreign_error, 'd) outcome"
  db_put_hash_keyed :: "'d \<Rightarrow> hash \<Rightarrow> StoredHeader \<Rightarrow> 'd \<times> (foreign_error, nat) outcome"
  db_get_hash_keyed :: "'d \<Rightarrow> hash \<Rightarrow> (foreign_error, (nat \<times> StoredHeader) option) outcome"
  db_put_keyed_encodable :: "'d \<Rightarrow> u8 list \<Rightarrow> hash \<Rightarrow> 'd \<times> (foreign_error, nat) outcome"
  db_get_keyed_decodable :: "'d \<Rightarrow> u8 list \<Rightarrow> (foreign_error, (nat \<times> hash) option) outcome"
  db_batch :: "'d \<Rightarrow> 'd \<times> (foreign_error, unit) outcome"

section \<open>State and operations\<close>

record 'd ChainDB =
  cd_db :: 'd
  cd_headercache :: HeaderCache
  cd_network :: Network

definition HEADER_TIP_KEY :: "u8 list" where
  "HEADER_TIP_KEY = [0]"

definition ChainDB_mem :: "'d db_api \<Rightarrow> Network \<Rightarrow> 'd ChainDB result" where
  "ChainDB_mem A network =
     obind (map_err error_from_hammersbald (db_transient A 2)) (\<lambda>db.
       Ok \<lparr>cd_db = db, cd_headercache = HeaderCache_new network, cd_network = network\<rparr>)"

text \<open>\<open>path.to_str()\<close> is \<open>None\<close> for a path that is not UTF-8.\<close>

definition ChainDB_new :: "'d db_api \<Rightarrow> string option \<Rightarrow> Network \<Rightarrow> 'd ChainDB result" where
  "ChainDB_new A path network =
     obind (unwrap path) (\<lambda>basename.
     obind (map_err error_from_hammersbald (db_persistent A basename 100 2)) (\<lambda>db.
       Ok \<lparr>cd_db = db, cd_headercache = HeaderCache_new network, cd_network = network\<rparr>))"

definition ChainDB_batch :: "'d db_api \<Rightarrow> 'd ChainDB \<Rightarrow> 'd ChainDB \<times> unit result" where
  "ChainDB_batch A cd =
     (let (db, r) = db_batch A (cd_db cd)
      in (cd\<lparr>cd_db := db\<rparr>, obind (map_err error_from_hammersbald r) (\<lambda>_. Ok ())))"

definition ChainDB_store_header_tip ::
  "'d db_api \<Rightarrow> 'd ChainDB \<Rightarrow> hash \<Rightarrow> 'd ChainDB \<times> unit result" where
  "ChainDB_store_header_tip A cd tip =
     (let (db, r) = db_put_keyed_encodable A (cd_db cd) HEADER_TIP_KEY tip
      in (cd\<lparr>cd_db := db\<rparr>, obind (map_err error_from_hammersbald r) (\<lambda>_. Ok ())))"

definition ChainDB_fetch_header_tip :: "'d db_api \<Rightarrow> 'd ChainDB \<Rightarrow> hash option result" where
  "ChainDB_fetch_header_tip A cd =
     obind (map_err error_from_hammersbald (db_get_keyed_decodable A (cd_db cd) HEADER_TIP_KEY)) (\<lambda>r.
       Ok (map_option (\<lambda>(_, h). h) r))"

definition ChainDB_fetch_header :: "'d db_api \<Rightarrow> 'd ChainDB \<Rightarrow> hash \<Rightarrow> StoredHeader option result" where
  "ChainDB_fetch_header A cd i =
     obind (map_err error_from_hammersbald (db_get_hash_keyed A (cd_db cd) i)) (\<lambda>r.
       Ok (map_option (\<lambda>(_, header). header) r))"

text \<open>\<open>self.db.put_hash_keyed(&stored)?\<close>: the key is the hash of the value.\<close>

definition put_stored :: "'d db_api \<Rightarrow> ext \<Rightarrow> 'd ChainDB \<Rightarrow> StoredHeader \<Rightarrow> 'd ChainDB \<times> unit result" where
  "put_stored A X cd stored =
     (let (db, r) = db_put_hash_keyed A (cd_db cd) (StoredHeader_bitcoin_hash X stored) stored
      in (cd\<lparr>cd_db := db\<rparr>, obind (map_err error_from_hammersbald r) (\<lambda>_. Ok ())))"

text \<open>Sequencing of operations that change the state: the next one runs if this one is \<open>Ok\<close>.\<close>

fun sbind :: "'s \<times> 'a result \<Rightarrow> ('s \<Rightarrow> 'a \<Rightarrow> 's \<times> 'b result) \<Rightarrow> 's \<times> 'b result" where
  "sbind (s, Ok a) f = f s a"
| "sbind (s, Err e) f = (s, Err e)"
| "sbind (s, Panicked) f = (s, Panicked)"

declare sbind.simps [outcome_simps]

text \<open>The loop that reads the stored chain from its tip. It may not end if the store has a cycle.\<close>

partial_function (option) read_chain ::
  "'d db_api \<Rightarrow> 'd ChainDB \<Rightarrow> hash \<Rightarrow> ('d ChainDB \<times> unit result) option" where
  "read_chain A cd h =
     (case ChainDB_fetch_header A cd h of
        Ok (Some stored) \<Rightarrow>
          let cd = cd\<lparr>cd_headercache := HeaderCache_add_header_unchecked (cd_headercache cd) h stored\<rparr>
          in if prev_blockhash (sh_header stored) \<noteq> 0
             then read_chain A cd (prev_blockhash (sh_header stored))
             else Some (cd, Ok ())
      | Ok None \<Rightarrow> Some (cd, Ok ())
      | Err e \<Rightarrow> Some (cd, Err e)
      | Panicked \<Rightarrow> Some (cd, Panicked))"

declare read_chain.simps [code]

definition ChainDB_init_headers ::
  "'d db_api \<Rightarrow> ext \<Rightarrow> (Network \<Rightarrow> BlockHeader) \<Rightarrow> 'd ChainDB \<Rightarrow> ('d ChainDB \<times> unit result) option" where
  "ChainDB_init_headers A X G cd =
     (case ChainDB_fetch_header_tip A cd of
        Ok (Some tip) \<Rightarrow>
          map_option (\<lambda>r. sbind r (\<lambda>cd _.
            (cd\<lparr>cd_headercache := HeaderCache_reverse_trunk (cd_headercache cd)\<rparr>, Ok ())))
            (read_chain A cd tip)
      | Ok None \<Rightarrow>
          let genesis = G (cd_network cd) in
          map_option (\<lambda>(hc, r).
            (let cd = cd\<lparr>cd_headercache := hc\<rparr> in
             case r of
               Ok (Some (cached, _, _)) \<Rightarrow>
                 sbind (put_stored A X cd (ch_stored cached)) (\<lambda>cd _.
                 sbind (ChainDB_batch A cd) (\<lambda>cd _.
                 sbind (ChainDB_store_header_tip A cd (CachedHeader_bitcoin_hash cached)) (\<lambda>cd _.
                 ChainDB_batch A cd)))
             | Ok None \<Rightarrow> (cd, Err NoTip)
             | Err e \<Rightarrow> (cd, Err e)
             | Panicked \<Rightarrow> (cd, Panicked)))
            (HeaderCache_add_header X (cd_headercache cd) genesis)
      | Err e \<Rightarrow> Some (cd, Err e)
      | Panicked \<Rightarrow> Some (cd, Panicked))"

definition ChainDB_init ::
  "'d db_api \<Rightarrow> ext \<Rightarrow> (Network \<Rightarrow> BlockHeader) \<Rightarrow> 'd ChainDB \<Rightarrow> ('d ChainDB \<times> unit result) option" where
  "ChainDB_init A X G cd = ChainDB_init_headers A X G cd"

type_synonym stored_added = "StoredHeader \<times> hash list option \<times> hash list option"

definition ChainDB_add_header ::
  "'d db_api \<Rightarrow> ext \<Rightarrow> 'd ChainDB \<Rightarrow> BlockHeader \<Rightarrow> ('d ChainDB \<times> stored_added option result) option" where
  "ChainDB_add_header A X cd header =
     map_option (\<lambda>(hc, r).
       (let cd = cd\<lparr>cd_headercache := hc\<rparr> in
        case r of
          Ok (Some (cached, unwinds, forward)) \<Rightarrow>
            sbind (put_stored A X cd (ch_stored cached)) (\<lambda>cd _.
            sbind (case forward of
                     Some f \<Rightarrow> if f \<noteq> [] then ChainDB_store_header_tip A cd (last f) else (cd, Ok ())
                   | None \<Rightarrow> (cd, Ok ())) (\<lambda>cd _.
            (cd, Ok (Some (ch_stored cached, unwinds, forward)))))
        | Ok None \<Rightarrow> (cd, Ok None)
        | Err e \<Rightarrow> (cd, Err e)
        | Panicked \<Rightarrow> (cd, Panicked)))
       (HeaderCache_add_header X (cd_headercache cd) header)"

section \<open>Queries\<close>

definition ChainDB_pos_on_trunk :: "'d ChainDB \<Rightarrow> hash \<Rightarrow> u32 option" where
  "ChainDB_pos_on_trunk cd hash = HeaderCache_pos_on_trunk (cd_headercache cd) hash"

definition ChainDB_iter_trunk :: "'d ChainDB \<Rightarrow> u32 \<Rightarrow> CachedHeader list result" where
  "ChainDB_iter_trunk cd from = HeaderCache_iter_trunk (cd_headercache cd) from"

definition ChainDB_iter_trunk_rev :: "bool \<Rightarrow> 'd ChainDB \<Rightarrow> u32 option \<Rightarrow> CachedHeader list result" where
  "ChainDB_iter_trunk_rev checks cd from = HeaderCache_iter_trunk_rev checks (cd_headercache cd) from"

definition ChainDB_header_tip :: "'d ChainDB \<Rightarrow> CachedHeader option" where
  "ChainDB_header_tip cd = HeaderCache_tip (cd_headercache cd)"

definition ChainDB_get_header :: "'d ChainDB \<Rightarrow> hash \<Rightarrow> CachedHeader option" where
  "ChainDB_get_header cd i = HeaderCache_get_header (cd_headercache cd) i"

definition ChainDB_get_header_for_height :: "'d ChainDB \<Rightarrow> u32 \<Rightarrow> CachedHeader option" where
  "ChainDB_get_header_for_height cd height = HeaderCache_get_header_for_height (cd_headercache cd) height"

definition ChainDB_header_locators :: "'d ChainDB \<Rightarrow> hash list" where
  "ChainDB_header_locators cd = HeaderCache_locator_hashes (cd_headercache cd)"

section \<open>What is documented of the store\<close>

text \<open>What a state of the store holds under a hash and under a key, as reads show it.\<close>

definition stored_at :: "'d db_api \<Rightarrow> 'd \<Rightarrow> hash \<Rightarrow> StoredHeader option" where
  "stored_at A d k = (case db_get_hash_keyed A d k of Ok (Some (_, s)) \<Rightarrow> Some s | _ \<Rightarrow> None)"

definition keyed_at :: "'d db_api \<Rightarrow> 'd \<Rightarrow> u8 list \<Rightarrow> hash option" where
  "keyed_at A d k = (case db_get_keyed_decodable A d k of Ok (Some (_, h)) \<Rightarrow> Some h | _ \<Rightarrow> None)"

text \<open>
  A write that succeeds is seen by the reads after it, and changes nothing else; finishing a batch
  changes nothing that reads see. Any operation may fail.
\<close>

definition db_ok :: "'d db_api \<Rightarrow> bool" where
  "db_ok A \<longleftrightarrow>
     (\<forall>d k s d' p. db_put_hash_keyed A d k s = (d', Ok p) \<longrightarrow>
        stored_at A d' = (stored_at A d)(k \<mapsto> s) \<and> keyed_at A d' = keyed_at A d) \<and>
     (\<forall>d k h d' p. db_put_keyed_encodable A d k h = (d', Ok p) \<longrightarrow>
        stored_at A d' = stored_at A d \<and> keyed_at A d' = (keyed_at A d)(k \<mapsto> h)) \<and>
     (\<forall>d d'. db_batch A d = (d', Ok ()) \<longrightarrow>
        stored_at A d' = stored_at A d \<and> keyed_at A d' = keyed_at A d)"

text \<open>A store none of whose operations fails.\<close>

definition never_fails :: "'d db_api \<Rightarrow> bool" where
  "never_fails A \<longleftrightarrow>
     (\<forall>d k s. \<exists>d' p. db_put_hash_keyed A d k s = (d', Ok p)) \<and>
     (\<forall>d k h. \<exists>d' p. db_put_keyed_encodable A d k h = (d', Ok p)) \<and>
     (\<forall>d. \<exists>d'. db_batch A d = (d', Ok ())) \<and>
     (\<forall>d k. \<exists>r. db_get_hash_keyed A d k = Ok r) \<and>
     (\<forall>d k. \<exists>r. db_get_keyed_decodable A d k = Ok r)"

text \<open>A store in memory, on which the properties are evaluated.\<close>

type_synonym mem_db = "(hash \<rightharpoonup> StoredHeader) \<times> (u8 list \<rightharpoonup> hash)"

definition mem_api :: "mem_db db_api" where
  "mem_api =
     \<lparr>db_transient = (\<lambda>_. Ok (Map.empty, Map.empty)),
      db_persistent = (\<lambda>_ _ _. Ok (Map.empty, Map.empty)),
      db_put_hash_keyed = (\<lambda>d k s. (((fst d)(k \<mapsto> s), snd d), Ok 0)),
      db_get_hash_keyed = (\<lambda>d k. Ok (map_option (\<lambda>s. (0, s)) (fst d k))),
      db_put_keyed_encodable = (\<lambda>d k h. ((fst d, (snd d)(k \<mapsto> h)), Ok 0)),
      db_get_keyed_decodable = (\<lambda>d k. Ok (map_option (\<lambda>h. (0, h)) (snd d k))),
      db_batch = (\<lambda>d. (d, Ok ()))\<rparr>"

text \<open>
  The invariant: a valid cache, all of it on disk, and the tip of the cache stored as the tip.
\<close>

definition cd_inv :: "'d db_api \<Rightarrow> ext \<Rightarrow> 'd ChainDB \<Rightarrow> bool" where
  "cd_inv A X cd \<longleftrightarrow> hc_inv X (cd_headercache cd) \<and>
     (\<forall>k c. hc_headers (cd_headercache cd) k = Some c \<longrightarrow> stored_at A (cd_db cd) k = Some (ch_stored c)) \<and>
     keyed_at A (cd_db cd) HEADER_TIP_KEY = HeaderCache_tip_hash (cd_headercache cd)"

text \<open>A store that was opened, with an empty cache: what \<open>new\<close> makes of it.\<close>

definition opened :: "'d \<Rightarrow> Network \<Rightarrow> 'd ChainDB" where
  "opened d network = \<lparr>cd_db = d, cd_headercache = HeaderCache_new network, cd_network = network\<rparr>"

section \<open>Reads and writes\<close>

lemma mem_api_ok: "db_ok mem_api" "never_fails mem_api"
  by (auto simp: db_ok_def never_fails_def mem_api_def stored_at_def keyed_at_def)

lemma mem_api_reads [simp]:
  "stored_at mem_api d = fst d" "keyed_at mem_api d = snd d"
  by (auto simp: mem_api_def stored_at_def keyed_at_def split: option.splits)

lemma fetch_header_Some: "ChainDB_fetch_header A cd k = Ok (Some s) \<longleftrightarrow> stored_at A (cd_db cd) k = Some s"
  by (auto simp: ChainDB_fetch_header_def stored_at_def obind_conv split: outcome.splits option.splits)

lemma fetch_header_tip_Some:
  "ChainDB_fetch_header_tip A cd = Ok (Some h) \<longleftrightarrow> keyed_at A (cd_db cd) HEADER_TIP_KEY = Some h"
  by (auto simp: ChainDB_fetch_header_tip_def keyed_at_def obind_conv split: outcome.splits option.splits)

lemma sbind_eq_Ok: "sbind m f = (s, Ok b) \<longleftrightarrow> (\<exists>s1 a. m = (s1, Ok a) \<and> f s1 a = (s, Ok b))"
  by (cases "(m, f)" rule: sbind.cases) auto

lemma db_okD:
  assumes "db_ok A"
  shows "db_put_hash_keyed A d k s = (d', Ok p) \<Longrightarrow> stored_at A d' = (stored_at A d)(k \<mapsto> s)"
    "db_put_hash_keyed A d k s = (d', Ok p) \<Longrightarrow> keyed_at A d' = keyed_at A d"
    "db_put_keyed_encodable A d key h = (d', Ok p) \<Longrightarrow> stored_at A d' = stored_at A d"
    "db_put_keyed_encodable A d key h = (d', Ok p) \<Longrightarrow> keyed_at A d' = (keyed_at A d)(key \<mapsto> h)"
    "db_batch A d = (d', Ok ()) \<Longrightarrow> stored_at A d' = stored_at A d"
    "db_batch A d = (d', Ok ()) \<Longrightarrow> keyed_at A d' = keyed_at A d"
  using assms unfolding db_ok_def by blast+

lemma put_stored_Ok:
  assumes "db_ok A" "put_stored A X cd st = (cd', Ok ())"
  shows "cd_headercache cd' = cd_headercache cd" "cd_network cd' = cd_network cd"
    "stored_at A (cd_db cd') = (stored_at A (cd_db cd))(x_hash X (sh_header st) \<mapsto> st)"
    "keyed_at A (cd_db cd') = keyed_at A (cd_db cd)"
  using assms(2) db_okD(1,2) [OF assms(1)]
  by (auto simp: put_stored_def obind_conv StoredHeader_bitcoin_hash_def split: prod.splits)

lemma store_tip_Ok:
  assumes "db_ok A" "ChainDB_store_header_tip A cd t = (cd', Ok ())"
  shows "cd_headercache cd' = cd_headercache cd" "cd_network cd' = cd_network cd"
    "stored_at A (cd_db cd') = stored_at A (cd_db cd)"
    "keyed_at A (cd_db cd') = (keyed_at A (cd_db cd))(HEADER_TIP_KEY \<mapsto> t)"
  using assms(2) db_okD(3,4) [OF assms(1)]
  by (auto simp: ChainDB_store_header_tip_def obind_conv split: prod.splits)

lemma batch_Ok:
  assumes "db_ok A" "ChainDB_batch A cd = (cd', Ok ())"
  shows "cd_headercache cd' = cd_headercache cd" "cd_network cd' = cd_network cd"
    "stored_at A (cd_db cd') = stored_at A (cd_db cd)" "keyed_at A (cd_db cd') = keyed_at A (cd_db cd)"
  using assms(2) db_okD(5,6) [OF assms(1)]
  by (auto simp: ChainDB_batch_def obind_conv split: prod.splits)

lemma never_failsD:
  assumes "never_fails A"
  shows "\<exists>cd'. put_stored A X cd st = (cd', Ok ())" "\<exists>cd'. ChainDB_store_header_tip A cd t = (cd', Ok ())"
    "\<exists>cd'. ChainDB_batch A cd = (cd', Ok ())"
    "\<exists>r. ChainDB_fetch_header A cd k = Ok r" "\<exists>r. ChainDB_fetch_header_tip A cd = Ok r"
proof -
  have "\<exists>d' p. db_put_hash_keyed A (cd_db cd) (StoredHeader_bitcoin_hash X st) st = (d', Ok p)"
    "\<exists>d' p. db_put_keyed_encodable A (cd_db cd) HEADER_TIP_KEY t = (d', Ok p)"
    "\<exists>d'. db_batch A (cd_db cd) = (d', Ok ())"
    "\<exists>r. db_get_hash_keyed A (cd_db cd) k = Ok r"
    "\<exists>r. db_get_keyed_decodable A (cd_db cd) HEADER_TIP_KEY = Ok r"
    using assms unfolding never_fails_def by blast+
  then show "\<exists>cd'. put_stored A X cd st = (cd', Ok ())" "\<exists>cd'. ChainDB_store_header_tip A cd t = (cd', Ok ())"
    "\<exists>cd'. ChainDB_batch A cd = (cd', Ok ())"
    "\<exists>r. ChainDB_fetch_header A cd k = Ok r" "\<exists>r. ChainDB_fetch_header_tip A cd = Ok r"
    by (auto simp: put_stored_def ChainDB_store_header_tip_def ChainDB_batch_def ChainDB_fetch_header_def
        ChainDB_fetch_header_tip_def)
qed

section \<open>Adding a header\<close>

lemma add_header_forward:
  assumes "hc_inv X hc" "prev_blockhash h \<noteq> 0"
    "HeaderCache_add_header X hc h = Some (hc', Ok (Some (c, u, f)))"
  shows "HeaderCache_tip_hash hc' = (case f of Some p \<Rightarrow> Some (last p) | None \<Rightarrow> HeaderCache_tip_hash hc) \<and>
    f \<noteq> Some [] \<and> (\<forall>p. f = Some p \<longrightarrow> last p = x_hash X h) \<and> x_hash X (ch_header c) = x_hash X h \<and>
    hc_headers hc' = (hc_headers hc)(x_hash X h \<mapsto> c)"
proof -
  obtain prev required tip where A: "cached_of X prev h = Ok c" "HeaderCache_tip hc = Some tip"
    "tree_inv X (insert_header hc c)" "hc_headers (insert_header hc c) (prev_blockhash h) = Some prev"
    "\<not> f64_less (ch_log2work tip) (ch_log2work c) \<Longrightarrow> hc' = insert_header hc c \<and> u = None \<and> f = None"
    "f64_less (ch_log2work tip) (ch_log2work c) \<Longrightarrow>
       move_trunk (insert_header hc c) h c = Some (hc', Ok (c, u, f))"
    using add_header_stored [OF assms] by metis
  note C = cached_of_Ok [OF A(1)]
  show ?thesis
  proof (cases "f64_less (ch_log2work tip) (ch_log2work c)")
    case True
    then show ?thesis
      using move_trunk_last [OF A(3,4,6)] move_trunk_nonempty [OF A(6)] C
      by (auto simp: HeaderCache_tip_hash_def)
  next
    case False
    then show ?thesis using A(5) C by (auto simp: HeaderCache_tip_hash_def)
  qed
qed

lemma chain_add_Ok:
  assumes ok: "db_ok A" and inv: "hc_inv X (cd_headercache cd)" "prev_blockhash h \<noteq> 0"
    and add: "ChainDB_add_header A X cd h = Some (cd', Ok (Some (st, u, f)))"
  obtains c where "HeaderCache_add_header X (cd_headercache cd) h = Some (cd_headercache cd', Ok (Some (c, u, f)))"
    "st = ch_stored c" "sh_header st = h" "cd_network cd' = cd_network cd"
    "stored_at A (cd_db cd') = (stored_at A (cd_db cd))(x_hash X h \<mapsto> st)"
    "keyed_at A (cd_db cd') = (case f of Some p \<Rightarrow> (keyed_at A (cd_db cd))(HEADER_TIP_KEY \<mapsto> x_hash X h)
       | None \<Rightarrow> keyed_at A (cd_db cd))"
proof -
  obtain hc r where r: "HeaderCache_add_header X (cd_headercache cd) h = Some (hc, r)"
    using add by (auto simp: ChainDB_add_header_def)
  obtain c u' f' where r': "r = Ok (Some (c, u', f'))"
    using add r by (auto simp: ChainDB_add_header_def Let_def split: outcome.splits option.splits)
  note F = add_header_forward [OF inv r [unfolded r']]
  have "ch_header c = h"
    using inv by (cases rule: add_header_spec) (use r r' in \<open>auto dest: cached_of_Ok\<close>)
  have e: "sbind (put_stored A X (cd\<lparr>cd_headercache := hc\<rparr>) (ch_stored c)) (\<lambda>cd _.
      sbind (case f' of Some f \<Rightarrow> if f \<noteq> [] then ChainDB_store_header_tip A cd (last f) else (cd, Ok ())
             | None \<Rightarrow> (cd, Ok ())) (\<lambda>cd _.
      (cd, Ok (Some (ch_stored c, u', f'))))) = (cd', Ok (Some (st, u, f)))"
    using add r r' by (simp add: ChainDB_add_header_def)
  then obtain cd1 where put: "put_stored A X (cd\<lparr>cd_headercache := hc\<rparr>) (ch_stored c) = (cd1, Ok ())"
    and res: "st = ch_stored c" "u' = u" "f' = f"
    and tip: "(case f of Some f \<Rightarrow> if f \<noteq> [] then ChainDB_store_header_tip A cd1 (last f) else (cd1, Ok ())
             | None \<Rightarrow> (cd1, Ok ())) = (cd', Ok ())"
    by (auto simp: sbind_eq_Ok)
  note P = put_stored_Ok [OF ok put]
  show thesis
  proof (cases f)
    case None
    then show thesis using that [of c] P tip r r' res F \<open>ch_header c = h\<close> by simp
  next
    case (Some p)
    then have "ChainDB_store_header_tip A cd1 (x_hash X h) = (cd', Ok ())" using tip F res by auto
    note T = store_tip_Ok [OF ok this]
    show thesis using that [of c] P T Some r r' res F \<open>ch_header c = h\<close> by simp
  qed
qed

lemma cd_inv_add:
  assumes ok: "db_ok A" and inv: "cd_inv A X cd" "prev_blockhash h \<noteq> 0"
    and add: "ChainDB_add_header A X cd h = Some (cd', Ok r)"
  shows "cd_inv A X cd'"
proof (cases r)
  case None
  have "hc_inv X (cd_headercache cd)" using inv(1) by (simp add: cd_inv_def)
  then have "cd' = cd"
    using inv(2) add None
    by (cases rule: add_header_spec)
      (auto simp: ChainDB_add_header_def Let_def sbind_eq_Ok split: outcome.splits option.splits)
  then show ?thesis using inv(1) by simp
next
  case (Some a)
  obtain st u f where a: "a = (st, u, f)" by (cases a)
  have hc: "hc_inv X (cd_headercache cd)"
    and disk: "\<And>k c. hc_headers (cd_headercache cd) k = Some c \<Longrightarrow> stored_at A (cd_db cd) k = Some (ch_stored c)"
    and tip: "keyed_at A (cd_db cd) HEADER_TIP_KEY = HeaderCache_tip_hash (cd_headercache cd)"
    using inv(1) by (auto simp: cd_inv_def)
  obtain c where C: "HeaderCache_add_header X (cd_headercache cd) h = Some (cd_headercache cd', Ok (Some (c, u, f)))"
    "st = ch_stored c" "stored_at A (cd_db cd') = (stored_at A (cd_db cd))(x_hash X h \<mapsto> st)"
    "keyed_at A (cd_db cd') = (case f of Some p \<Rightarrow> (keyed_at A (cd_db cd))(HEADER_TIP_KEY \<mapsto> x_hash X h)
       | None \<Rightarrow> keyed_at A (cd_db cd))"
    using chain_add_Ok [OF ok hc inv(2)] add Some a by metis
  note F = add_header_forward [OF hc inv(2) C(1)]
  have "hc_inv X (cd_headercache cd')" by (rule add_header_inv [OF hc inv(2) C(1)])
  moreover have "stored_at A (cd_db cd') k = Some (ch_stored d)" if "hc_headers (cd_headercache cd') k = Some d" for k d
    using that disk C(2,3) F by (auto split: if_splits)
  moreover have "keyed_at A (cd_db cd') HEADER_TIP_KEY = HeaderCache_tip_hash (cd_headercache cd')"
    using C(4) F tip by (cases f) auto
  ultimately show ?thesis by (simp add: cd_inv_def)
qed

text \<open>An error of the cache, as opposed to one of the store, leaves everything as it was.\<close>

lemma chain_add_returns:
  assumes "hc_inv X (cd_headercache cd)" "prev_blockhash h \<noteq> 0"
  shows "\<exists>cd' r. ChainDB_add_header A X cd h = Some (cd', r)"
  using assms by (cases rule: add_header_spec) (auto simp: ChainDB_add_header_def)

lemma chain_add_reliable:
  assumes ok: "db_ok A" "never_fails A" and inv: "cd_inv A X cd" "prev_blockhash h \<noteq> 0"
    and add: "ChainDB_add_header A X cd h = Some (cd', r)"
  shows "cd_inv A X cd' \<and> hc_headers (cd_headercache cd) \<subseteq>\<^sub>m hc_headers (cd_headercache cd')"
proof -
  have hc: "hc_inv X (cd_headercache cd)" using inv(1) by (simp add: cd_inv_def)
  obtain hc' q where q: "HeaderCache_add_header X (cd_headercache cd) h = Some (hc', q)"
    using add by (auto simp: ChainDB_add_header_def)
  note G = add_header_grows [OF hc inv(2) q]
  show ?thesis
  proof (cases "\<exists>a. q = Ok (Some a)")
    case False
    from hc inv(2) have "hc' = cd_headercache cd" by (cases rule: add_header_spec) (use q False in auto)
    then have "cd' = cd" using add q False
      by (auto simp: ChainDB_add_header_def Let_def split: outcome.splits option.splits)
    then show ?thesis using inv by simp
  next
    case True
    then obtain c u f where q': "q = Ok (Some (c, u, f))" by auto
    define cd0 where "cd0 = cd\<lparr>cd_headercache := hc'\<rparr>"
    obtain cd1 where 1: "put_stored A X cd0 (ch_stored c) = (cd1, Ok ())"
      using never_failsD(1) [OF ok(2)] by blast
    obtain cd2 where 2: "(case f of Some f \<Rightarrow> if f \<noteq> [] then ChainDB_store_header_tip A cd1 (last f) else (cd1, Ok ())
             | None \<Rightarrow> (cd1, Ok ())) = (cd2, Ok ())"
      using never_failsD(2) [OF ok(2)] by (cases f) (auto, metis)
    have "ChainDB_add_header A X cd h = Some (cd2, Ok (Some (ch_stored c, u, f)))"
      using 1 2 q q' by (simp add: ChainDB_add_header_def Let_def cd0_def)
    then have r: "cd' = cd2" "r = Ok (Some (ch_stored c, u, f))" using add by auto
    have "cd_headercache cd' = hc'"
      using 2 put_stored_Ok(1) [OF ok(1) 1] store_tip_Ok(1) [OF ok(1)] unfolding r cd0_def
      by (auto split: option.splits if_splits)
    then show ?thesis using cd_inv_add [OF ok(1) inv] add r G by auto
  qed
qed

text \<open>The chain database over a store that does not fail is a store of headers, too.\<close>

interpretation chain: header_store "\<lambda>cd. db_ok A \<and> never_fails A \<and> cd_inv A X cd" "\<lambda>h. prev_blockhash h \<noteq> 0"
  "ChainDB_add_header A X" ChainDB_get_header for A X
proof unfold_locales
  fix s :: "'a ChainDB" and h :: BlockHeader
  assume "db_ok A \<and> never_fails A \<and> cd_inv A X s" "prev_blockhash h \<noteq> 0"
  then show "\<exists>s' r. ChainDB_add_header A X s h = Some (s', r)"
    using chain_add_returns by (auto simp: cd_inv_def)
next
  fix s s' :: "'a ChainDB" and h :: BlockHeader and r k c
  assume A: "db_ok A \<and> never_fails A \<and> cd_inv A X s" "prev_blockhash h \<noteq> 0"
    "ChainDB_add_header A X s h = Some (s', r)"
  then show "db_ok A \<and> never_fails A \<and> cd_inv A X s'" using chain_add_reliable by blast
  assume "ChainDB_get_header s k = Some c"
  then show "ChainDB_get_header s' k = Some c"
    using chain_add_reliable A
    by (fastforce simp: ChainDB_get_header_def HeaderCache_get_header_def map_le_def dom_def)
qed

section \<open>Reading the stored chain\<close>

lemma linked_parent_next:
  "linked (parent m) ks \<Longrightarrow> x \<in> set ks \<Longrightarrow> x \<noteq> last ks \<Longrightarrow>
    \<exists>c. m x = Some c \<and> ch_prev c \<noteq> 0 \<and> ch_prev c \<in> set ks"
proof (induction ks)
  case (Cons y ks)
  show ?case
  proof (cases "x = y \<and> ks \<noteq> []")
    case True
    then obtain c where "m y = Some c" "ch_prev c \<noteq> 0" "hd ks = ch_prev c"
      using Cons.prems(1) by (auto simp: linked_Cons parent_def)
    then show ?thesis using True hd_in_set [of ks] by auto
  next
    case False
    then show ?thesis using Cons by (auto simp: linked_Cons split: if_splits)
  qed
qed simp

lemma linked_parent_anchored:
  assumes "linked (parent m) ks" "ks \<noteq> []" "m (last ks) = Some r" "ch_prev r = 0" "set ks \<subseteq> S"
  shows "\<forall>x\<in>set ks. anchored (m |` S) x"
  using assms
proof (induction ks)
  case (Cons x ks)
  show ?case
  proof (cases "ks = []")
    case True
    then show ?thesis using Cons.prems by (auto intro: anchored_root)
  next
    case False
    then have IH: "\<forall>y\<in>set ks. anchored (m |` S) y" using Cons by (auto simp: linked_Cons)
    have "parent m x (hd ks)" using Cons.prems(1) False by (simp add: linked_Cons)
    then obtain c where c: "m x = Some c" "ch_prev c \<noteq> 0" "hd ks = ch_prev c"
      unfolding parent_def by metis
    have "anchored (m |` S) (ch_prev c)" using IH False c(3) by (metis hd_in_set)
    moreover have "(m |` S) x = Some c" using c(1) Cons.prems(5) by simp
    ultimately have "anchored (m |` S) x" using c(2) by (blast intro: anchored_step)
    then show ?thesis using IH by simp
  qed
qed simp

lemma map_add_restrict_Cons:
  "m k = Some c \<Longrightarrow> n(k \<mapsto> c) ++ (m |` set ks) = n ++ (m |` set (k # ks))"
  by (rule ext) (auto simp: map_add_def restrict_map_def split: option.splits)

text \<open>From a key whose ancestors are stored, the loop reads the chain down to the root.\<close>

lemma read_chain_spec:
  assumes "anchored m h" "\<And>k c. m k = Some c \<Longrightarrow> ch_id c = k"
    "\<And>k c. m k = Some c \<Longrightarrow> stored_at A d k = Some (ch_stored c)" "cd_db cd = d"
  shows "\<exists>ks r. read_chain A cd h = Some (cd\<lparr>cd_headercache := (cd_headercache cd)
      \<lparr>hc_headers := hc_headers (cd_headercache cd) ++ (m |` set ks),
       hc_trunk := hc_trunk (cd_headercache cd) @ ks\<rparr>\<rparr>, Ok ()) \<and>
    ks \<noteq> [] \<and> hd ks = h \<and> linked (parent m) ks \<and> set ks \<subseteq> dom m \<and> m (last ks) = Some r \<and> ch_prev r = 0"
  using assms(1,4)
proof (induction arbitrary: cd)
  case (anchored_root k c)
  have f: "ChainDB_fetch_header A cd k = Ok (Some (ch_stored c))"
    using assms(3) anchored_root by (simp add: fetch_header_Some)
  have "CachedHeader_new k (ch_stored c) = c" using assms(2) [OF anchored_root(1)] by (simp add: CachedHeader_new_def)
  then have "read_chain A cd k = Some (cd\<lparr>cd_headercache := (cd_headercache cd)
      \<lparr>hc_headers := hc_headers (cd_headercache cd) ++ (m |` set [k]),
       hc_trunk := hc_trunk (cd_headercache cd) @ [k]\<rparr>\<rparr>, Ok ())"
    using f anchored_root map_add_restrict_Cons [of m k c _ "[]"]
    by (simp add: read_chain.simps HeaderCache_add_header_unchecked_def Let_def)
  then show ?case using anchored_root by (intro exI [of _ "[k]"] exI [of _ c]) auto
next
  case (anchored_step k c)
  let ?cd = "cd\<lparr>cd_headercache := HeaderCache_add_header_unchecked (cd_headercache cd) k (ch_stored c)\<rparr>"
  have f: "ChainDB_fetch_header A cd k = Ok (Some (ch_stored c))"
    using assms(3) anchored_step by (simp add: fetch_header_Some)
  have n: "CachedHeader_new k (ch_stored c) = c" using assms(2) [OF anchored_step.hyps(1)] by (simp add: CachedHeader_new_def)
  obtain ks r where IH: "read_chain A ?cd (ch_prev c) = Some (?cd\<lparr>cd_headercache := (cd_headercache ?cd)
      \<lparr>hc_headers := hc_headers (cd_headercache ?cd) ++ (m |` set ks),
       hc_trunk := hc_trunk (cd_headercache ?cd) @ ks\<rparr>\<rparr>, Ok ())"
    "ks \<noteq> []" "hd ks = ch_prev c" "linked (parent m) ks" "set ks \<subseteq> dom m" "m (last ks) = Some r" "ch_prev r = 0"
    using anchored_step.IH [of ?cd] anchored_step.prems by auto
  have upd: "(hc_headers (cd_headercache cd))(k \<mapsto> c) ++ (m |` set ks) =
      hc_headers (cd_headercache cd) ++ (m |` set (k # ks))"
    using anchored_step.hyps(1) by (rule map_add_restrict_Cons)
  have "read_chain A cd k = read_chain A ?cd (ch_prev c)"
    using f anchored_step.hyps(2) by (simp add: read_chain.simps [of A cd k] Let_def)
  moreover have "HeaderCache_add_header_unchecked (cd_headercache cd) k (ch_stored c) =
      (cd_headercache cd)\<lparr>hc_headers := (hc_headers (cd_headercache cd))(k \<mapsto> c),
        hc_trunk := hc_trunk (cd_headercache cd) @ [k]\<rparr>"
    by (simp add: HeaderCache_add_header_unchecked_def n Let_def)
  ultimately have "read_chain A cd k = Some (cd\<lparr>cd_headercache := (cd_headercache cd)
      \<lparr>hc_headers := hc_headers (cd_headercache cd) ++ (m |` set (k # ks)),
       hc_trunk := hc_trunk (cd_headercache cd) @ (k # ks)\<rparr>\<rparr>, Ok ())"
    using IH(1) upd by simp
  moreover have "linked (parent m) (k # ks)"
    using IH(2-4) anchored_step.hyps by (auto simp: linked_Cons parent_def)
  ultimately show ?case
    using IH anchored_step.hyps(1) by (intro exI [of _ "k # ks"] exI [of _ r]) auto
qed

lemma restricted_cache_inv:
  fixes net :: Network
  assumes inv: "hc_inv X hc" and tip: "HeaderCache_tip_hash hc = Some (hd ks)"
    and ks: "ks \<noteq> []" "linked (parent (hc_headers hc)) ks" "set ks \<subseteq> dom (hc_headers hc)"
      "hc_headers hc (last ks) = Some r" "ch_prev r = 0"
  defines "hc' \<equiv> \<lparr>hc_network = net, hc_headers = hc_headers hc |` set ks, hc_trunk = rev ks\<rparr>"
  shows "hc_inv X hc'" "trunk_linked hc'" "HeaderCache_tip hc' = HeaderCache_tip hc"
    "HeaderCache_tip_hash hc' = HeaderCache_tip_hash hc"
proof -
  let ?m = "hc_headers hc"
  have t: "tree_inv X hc" and mx: "tip_max hc" using inv by (auto simp: hc_inv_def)
  have sel: "hc_headers hc' = ?m |` set ks" "hc_trunk hc' = rev ks" by (simp_all add: hc'_def)
  have anch: "anchored (?m |` set ks) k" if "k \<in> set ks" for k
    using linked_parent_anchored [OF ks(2,1,4,5)] that by blast
  have entry: "ch_id c = k \<and> x_hash X (ch_header c) = k \<and> anchored (?m |` set ks) k \<and>
      (ch_prev c = 0 \<longrightarrow> k = hd (rev ks) \<and> ch_height c = 0) \<and>
      (ch_prev c \<noteq> 0 \<longrightarrow> (\<exists>p. (?m |` set ks) (ch_prev c) = Some p \<and> ch_height c = ch_height p + 1))"
    if kc: "(?m |` set ks) k = Some c" for k c
  proof -
    have k: "k \<in> set ks" "?m k = Some c" using kc by (auto simp: restrict_map_def split: if_splits)
    note T = tree_invD [OF t k(2)]
    have "k = hd (rev ks)" if "ch_prev c = 0"
      using T(4) [OF that] tree_invD(4) [OF t ks(4,5)] ks(1) by (simp add: hd_rev)
    moreover have "ch_prev c \<in> set ks" if "ch_prev c \<noteq> 0"
      using linked_parent_next [OF ks(2) k(1)] k(2) ks(4,5) that by fastforce
    ultimately show ?thesis using T anch [OF k(1)] by auto
  qed
  have "set (rev ks) \<subseteq> dom (?m |` set ks)" using ks(3) by auto
  then have "tree_inv X hc'" using entry ks(1) unfolding tree_inv_def sel by auto
  moreover show tip': "HeaderCache_tip hc' = HeaderCache_tip hc"
  proof -
    have "last (rev ks) = hd ks" "hd ks \<in> set ks" using ks(1) by (simp_all add: last_rev)
    then show ?thesis
      using tip ks(1)
      by (simp add: HeaderCache_tip_def HeaderCache_tip_hash_def HeaderCache_get_header_def sel split: if_splits)
  qed
  moreover have "tip_max hc'"
    using mx unfolding tip_max_def tip' sel by (auto simp: restrict_map_def split: if_splits)
  ultimately show "hc_inv X hc'" by (simp add: hc_inv_def)
  have "linked (parent (?m |` set ks)) ks"
    by (rule linked_mono [OF ks(2)]) (auto simp: parent_def)
  then show "trunk_linked hc'" by (simp add: trunk_linked_def sel linked_rev)
  show "HeaderCache_tip_hash hc' = HeaderCache_tip_hash hc"
    using tip ks(1) by (simp add: HeaderCache_tip_hash_def sel last_rev)
qed

lemma restart_spec:
  assumes inv: "cd_inv A X cd"
  shows "\<exists>hc. ChainDB_init A X G (opened (cd_db cd) net) = Some (\<lparr>cd_db = cd_db cd, cd_headercache = hc, cd_network = net\<rparr>, Ok ()) \<and>
    cd_inv A X \<lparr>cd_db = cd_db cd, cd_headercache = hc, cd_network = net\<rparr> \<and> trunk_linked hc \<and>
    HeaderCache_tip hc = ChainDB_header_tip cd \<and> hc_headers hc \<subseteq>\<^sub>m hc_headers (cd_headercache cd)"
proof -
  let ?hc = "cd_headercache cd" let ?m = "hc_headers ?hc" let ?o = "opened (cd_db cd) net"
  have hc: "hc_inv X ?hc" and t: "tree_inv X ?hc"
    and disk: "\<And>k c. ?m k = Some c \<Longrightarrow> stored_at A (cd_db cd) k = Some (ch_stored c)"
    and key: "keyed_at A (cd_db cd) HEADER_TIP_KEY = HeaderCache_tip_hash ?hc"
    using inv by (auto simp: cd_inv_def hc_inv_def)
  define h where "h = last (hc_trunk ?hc)"
  have tip: "HeaderCache_tip_hash ?hc = Some h"
    using tree_inv_trunk(1) [OF t] by (simp add: HeaderCache_tip_hash_def h_def)
  have "anchored ?m h"
    using tree_inv_trunk [OF t] tree_invD(3) [OF t] unfolding h_def by (metis last_in_set)
  then obtain ks r where R: "read_chain A ?o h = Some (?o\<lparr>cd_headercache := (cd_headercache ?o)
      \<lparr>hc_headers := hc_headers (cd_headercache ?o) ++ (?m |` set ks),
       hc_trunk := hc_trunk (cd_headercache ?o) @ ks\<rparr>\<rparr>, Ok ())"
    "ks \<noteq> []" "hd ks = h" "linked (parent ?m) ks" "set ks \<subseteq> dom ?m" "?m (last ks) = Some r" "ch_prev r = 0"
    using read_chain_spec [of ?m h A "cd_db cd" ?o] tree_invD(1) [OF t] disk
    by (auto simp: opened_def)
  define hc' where "hc' = \<lparr>hc_network = net, hc_headers = ?m |` set ks, hc_trunk = rev ks\<rparr>"
  let ?cd' = "\<lparr>cd_db = cd_db cd, cd_headercache = hc', cd_network = net\<rparr>"
  have fetch: "ChainDB_fetch_header_tip A ?o = Ok (Some h)"
    using key tip by (simp add: fetch_header_tip_Some opened_def)
  have init: "ChainDB_init A X G ?o = Some (?cd', Ok ())"
    using R(1) fetch
    by (simp add: ChainDB_init_def ChainDB_init_headers_def opened_def HeaderCache_new_def
        HeaderCache_reverse_trunk_def hc'_def)
  note I = restricted_cache_inv [OF hc _ R(2,4-7), of net, folded hc'_def]
  have "cd_inv A X ?cd'"
    using I(1,4) tip R(3) disk key
    by (auto simp: cd_inv_def hc'_def restrict_map_def split: if_splits)
  then show ?thesis
    using init I tip R(3)
    by (intro exI [of _ hc']) (auto simp: ChainDB_header_tip_def hc'_def map_le_def)
qed

section \<open>The first start\<close>

lemma genesis_start_spec:
  assumes ok: "db_ok A" "never_fails A" and new: "keyed_at A d HEADER_TIP_KEY = None"
    and g: "prev_blockhash (G net) = 0" "unat (x_work X (G net)) < 2 ^ 128"
  shows "\<exists>cd. ChainDB_init A X G \<lparr>cd_db = d, cd_headercache = HeaderCache_new net, cd_network = net\<rparr> = Some (cd, Ok ()) \<and>
    cd_inv A X cd \<and> trunk_linked (cd_headercache cd) \<and> hc_trunk (cd_headercache cd) = [x_hash X (G net)] \<and>
    (\<exists>cd1. ChainDB_batch A cd1 = (cd, Ok ()))"
proof -
  define cd0 where "cd0 = \<lparr>cd_db = d, cd_headercache = HeaderCache_new net, cd_network = net\<rparr>"
  define c where "c = CachedHeader_new (x_hash X (G net)) \<lparr>sh_header = G net, sh_height = 0,
    sh_log2work = x_log2 X (u128_as_f64 (word_of_nat (unat (x_work X (G net)))))\<rparr>"
  define hc where "hc = \<lparr>hc_network = net, hc_headers = [x_hash X (G net) \<mapsto> c], hc_trunk = [x_hash X (G net)]\<rparr>"
  have add: "HeaderCache_add_header X (HeaderCache_new net) (G net) = Some (hc, Ok (Some (c, None, Some [x_hash X (G net)])))"
    using g by (simp add: HeaderCache_add_header_def HeaderCache_new_def log2_eq Let_def hc_def c_def)
  then have hc: "hc_inv X hc" "trunk_linked hc" using genesis_spec [OF g, of net] by auto
  obtain r where "ChainDB_fetch_header_tip A cd0 = Ok r" using never_failsD(5) [OF ok(2)] by blast
  then have tip: "ChainDB_fetch_header_tip A cd0 = Ok None"
    using new fetch_header_tip_Some [of A cd0] by (cases r) (auto simp: cd0_def)
  obtain cd1 where 1: "put_stored A X (cd0\<lparr>cd_headercache := hc\<rparr>) (ch_stored c) = (cd1, Ok ())"
    using never_failsD(1) [OF ok(2)] by blast
  obtain cd2 where 2: "ChainDB_batch A cd1 = (cd2, Ok ())" using never_failsD(3) [OF ok(2)] by blast
  obtain cd3 where 3: "ChainDB_store_header_tip A cd2 (x_hash X (G net)) = (cd3, Ok ())"
    using never_failsD(2) [OF ok(2)] by blast
  obtain cd4 where 4: "ChainDB_batch A cd3 = (cd4, Ok ())" using never_failsD(3) [OF ok(2)] by blast
  have id: "ch_id c = x_hash X (G net)" "ch_header c = G net" by (simp_all add: c_def CachedHeader_new_def)
  have init: "ChainDB_init A X G cd0 = Some (cd4, Ok ())"
    using tip add 1 2 3 4 id
    by (simp add: ChainDB_init_def ChainDB_init_headers_def cd0_def Let_def CachedHeader_bitcoin_hash_def)
  note D = put_stored_Ok [OF ok(1) 1] batch_Ok [OF ok(1) 2] store_tip_Ok [OF ok(1) 3] batch_Ok [OF ok(1) 4]
  have "cd_headercache cd4 = hc" using D by simp
  then have "cd_inv A X cd4" using hc(1) D id
    by (auto simp: cd_inv_def hc_def HeaderCache_tip_hash_def split: if_splits)
  then show ?thesis
    using init hc(2) \<open>cd_headercache cd4 = hc\<close> 4 by (auto simp: cd0_def hc_def)
qed

section \<open>Correctness of the chain database\<close>

text \<open>A cache with its headers and its tip on disk, and a store that is full.\<close>

definition sample_chain :: "HeaderCache \<Rightarrow> mem_db ChainDB" where
  "sample_chain hc =
     \<lparr>cd_db = (\<lambda>k. map_option ch_stored (hc_headers hc k), [HEADER_TIP_KEY \<mapsto> last (hc_trunk hc)]),
      cd_headercache = hc, cd_network = hc_network hc\<rparr>"

definition full_api :: "mem_db db_api" where
  "full_api = mem_api\<lparr>db_put_hash_keyed :=
     (\<lambda>d k s. (d, Err \<lparr>fe_description = ''no space'', fe_display = ''no space''\<rparr>))\<rparr>"

definition sample_G :: "Network \<Rightarrow> BlockHeader" where
  "sample_G net = mk_header easy 1 0"

lemma sample_chain_inv: "hc_inv X hc \<Longrightarrow> cd_inv mem_api X (sample_chain hc)"
  by (auto simp: cd_inv_def sample_chain_def HeaderCache_tip_hash_def hc_inv_def tree_inv_def)

lemma sample_4_inv: "hc_inv sample_ext (sample_4 Bitcoin)"
  using add_header_inv [OF sample_3_inv _ sample_add_4] by simp

text \<open>
  C26. When adding a header through the chain database succeeds, that header, with its height and
  work, is read back from the store under its hash, the other headers are as they were, and
  the stored tip is the new header if it moved the trunk, and otherwise the one before.
\<close>

theorem chain_add_persists:
  assumes ok: "db_ok A" and inv: "hc_inv X (cd_headercache cd)" "prev_blockhash h \<noteq> 0"
    and add: "ChainDB_add_header A X cd h = Some (cd', Ok (Some (st, u, f)))"
  shows "sh_header st = h \<and> ChainDB_fetch_header A cd' (x_hash X h) = Ok (Some st) \<and>
    (\<forall>k s. k \<noteq> x_hash X h \<longrightarrow>
       (ChainDB_fetch_header A cd' k = Ok (Some s) \<longleftrightarrow> ChainDB_fetch_header A cd k = Ok (Some s))) \<and>
    (\<forall>t. ChainDB_fetch_header_tip A cd' = Ok (Some t) \<longleftrightarrow>
       (if f = None then ChainDB_fetch_header_tip A cd = Ok (Some t) else t = x_hash X h))"
proof -
  obtain c where "sh_header st = h"
    "stored_at A (cd_db cd') = (stored_at A (cd_db cd))(x_hash X h \<mapsto> st)"
    "keyed_at A (cd_db cd') = (case f of Some p \<Rightarrow> (keyed_at A (cd_db cd))(HEADER_TIP_KEY \<mapsto> x_hash X h)
       | None \<Rightarrow> keyed_at A (cd_db cd))"
    using chain_add_Ok [OF ok inv add] by metis
  then show ?thesis
    unfolding fetch_header_Some fetch_header_tip_Some by (auto split: option.splits)
qed

theorem chain_add_persists_witness:
  "\<exists>cd' st. ChainDB_add_header mem_api sample_ext (sample_chain (sample_3 Bitcoin)) (mk_header easy 4 3) =
      Some (cd', Ok (Some (st, Some [2], Some [1, 4]))) \<and>
    ChainDB_fetch_header mem_api cd' 4 = Ok (Some st) \<and> ChainDB_fetch_header_tip mem_api cd' = Ok (Some 4)"
proof -
  have e: "cd_headercache (sample_chain (sample_3 Bitcoin)) = sample_3 Bitcoin" by (simp add: sample_chain_def)
  have inv: "hc_inv sample_ext (cd_headercache (sample_chain (sample_3 Bitcoin)))"
    using sample_3_inv by (simp add: e)
  obtain cd' where a: "ChainDB_add_header mem_api sample_ext (sample_chain (sample_3 Bitcoin)) (mk_header easy 4 3) =
      Some (cd', Ok (Some (ch_stored (mk_cached 4 3 2 6), Some [2], Some [1, 4])))"
    by (simp add: ChainDB_add_header_def e sample_add_4 put_stored_def mem_api_def ChainDB_store_header_tip_def)
  then show ?thesis
    using chain_add_persists [OF mem_api_ok(1) inv _ a] by auto
qed

text \<open>
  The first start on an empty store returns, with the genesis header as the linked trunk and on
  disk.
\<close>

theorem first_start_genesis:
  assumes "db_ok A" "never_fails A" "keyed_at A d HEADER_TIP_KEY = None"
    "prev_blockhash (G net) = 0" "unat (x_work X (G net)) < 2 ^ 128"
  shows "\<exists>cd. ChainDB_init A X G \<lparr>cd_db = d, cd_headercache = HeaderCache_new net, cd_network = net\<rparr> = Some (cd, Ok ()) \<and>
    cd_inv A X cd \<and> trunk_linked (cd_headercache cd) \<and> hc_trunk (cd_headercache cd) = [x_hash X (G net)]"
  using genesis_start_spec [where G = G and net = net, OF assms] by blast

theorem first_start_genesis_witness:
  "\<exists>cd. ChainDB_init mem_api sample_ext sample_G
      \<lparr>cd_db = (Map.empty, Map.empty), cd_headercache = HeaderCache_new Testnet, cd_network = Testnet\<rparr> = Some (cd, Ok ()) \<and>
    hc_trunk (cd_headercache cd) = [1]"
  using first_start_genesis [of mem_api "(Map.empty, Map.empty)" sample_G Testnet sample_ext, OF mem_api_ok]
  by (auto simp: sample_G_def)

text \<open>
  A header that the cache accepts but the store fails to write stays in the cache: the call
  reports the error of the store, and adding the same header again is answered with nothing, so
  that it is never written.
\<close>

theorem failed_put_not_retried:
  assumes inv: "hc_inv X (cd_headercache cd)" "prev_blockhash h \<noteq> 0"
    and add: "HeaderCache_add_header X (cd_headercache cd) h = Some (hc', Ok (Some (c, u, f)))"
    and put: "db_put_hash_keyed A (cd_db cd) (x_hash X h) (ch_stored c) = (d', Err e)"
  shows "\<exists>cd'. ChainDB_add_header A X cd h = Some (cd', Err (Hammersbald e)) \<and>
    ChainDB_get_header cd' (x_hash X h) = Some c \<and>
    ChainDB_add_header A X cd' h = Some (cd', Ok None)"
proof -
  define cd' where "cd' = cd\<lparr>cd_headercache := hc', cd_db := d'\<rparr>"
  note F = add_header_forward [OF inv add]
  have "put_stored A X (cd\<lparr>cd_headercache := hc'\<rparr>) (ch_stored c) = (cd', Err (Hammersbald e))"
    using put F
    by (simp add: put_stored_def StoredHeader_bitcoin_hash_def cd'_def error_from_hammersbald_def)
  then have "ChainDB_add_header A X cd h = Some (cd', Err (Hammersbald e))"
    using add by (simp add: ChainDB_add_header_def)
  moreover have "hc_headers (cd_headercache cd') (x_hash X h) = Some c" using F by (simp add: cd'_def)
  moreover from this have "ChainDB_add_header A X cd' h = Some (cd', Ok None)"
    by (simp add: ChainDB_add_header_def HeaderCache_add_header_def)
  ultimately show ?thesis by (auto simp: ChainDB_get_header_def HeaderCache_get_header_def)
qed

theorem failed_put_not_retried_witness:
  "\<exists>cd' e. ChainDB_add_header full_api sample_ext (sample_chain (sample_3 Bitcoin)) (mk_header easy 4 3) =
      Some (cd', Err (Hammersbald e)) \<and>
    ChainDB_add_header full_api sample_ext cd' (mk_header easy 4 3) = Some (cd', Ok None)"
proof -
  have e: "cd_headercache (sample_chain (sample_3 Bitcoin)) = sample_3 Bitcoin" by (simp add: sample_chain_def)
  have "\<exists>d' err. db_put_hash_keyed full_api (cd_db (sample_chain (sample_3 Bitcoin)))
      (x_hash sample_ext (mk_header easy 4 3)) (ch_stored (mk_cached 4 3 2 6)) = (d', Err err)"
    by (simp add: full_api_def)
  then obtain d' err where put: "db_put_hash_keyed full_api (cd_db (sample_chain (sample_3 Bitcoin)))
      (x_hash sample_ext (mk_header easy 4 3)) (ch_stored (mk_cached 4 3 2 6)) = (d', Err err)" by blast
  have "hc_inv sample_ext (cd_headercache (sample_chain (sample_3 Bitcoin)))" unfolding e by (rule sample_3_inv)
  moreover have "HeaderCache_add_header sample_ext (cd_headercache (sample_chain (sample_3 Bitcoin))) (mk_header easy 4 3) =
      Some (sample_4 Bitcoin, Ok (Some (mk_cached 4 3 2 6, Some [2], Some [1, 4])))"
    unfolding e by (rule sample_add_4)
  ultimately show ?thesis using failed_put_not_retried [OF _ _ _ put] by fastforce
qed

end
