(* ===== verification/Net_Buffer.thy ===== *)
theory Net_Buffer
  imports Murmel_Error
begin

text \<open>
  The buffer between the sockets and the message codec (\<open>src/src/p2p.rs\<close>, \<open>Buffer\<close>): a deque of
  chunks with a read position and a checkpoint. What it promises is stated on the bytes it holds:
  those not yet read, and those since the last commit, to which a rollback returns.
\<close>

section \<open>State\<close>

abbreviation (input) IO_BUFFER_SIZE :: nat where
  "IO_BUFFER_SIZE \<equiv> 1024 * 1024"

record Buffer =
  chunks :: "u8 list list"
  pos :: "nat \<times> nat"
  checkpoint :: "nat \<times> nat"

definition Buffer_new :: Buffer where
  "Buffer_new = \<lparr>chunks = [], pos = (0, 0), checkpoint = (0, 0)\<rparr>"

section \<open>Operations\<close>

text \<open>Out of range indices and a position beyond its chunk make the operations panic.\<close>

definition Buffer_len :: "Buffer \<Rightarrow> nat result" where
  "Buffer_len b =
     (let s = sum_list (map length (drop (fst (pos b)) (chunks b)))
      in if snd (pos b) \<le> s then Ok (s - snd (pos b)) else Panicked)"

definition Buffer_rollback :: "Buffer \<Rightarrow> Buffer" where
  "Buffer_rollback b = b\<lparr>pos := checkpoint b\<rparr>"

definition Buffer_commit :: "Buffer \<Rightarrow> Buffer result" where
  "Buffer_commit b =
     (if fst (pos b) \<le> length (chunks b)
      then let b = b\<lparr>chunks := drop (fst (pos b)) (chunks b), pos := (0, snd (pos b))\<rparr>
           in Ok (b\<lparr>checkpoint := pos b\<rparr>)
      else Panicked)"

text \<open>
  The loop of \<open>read_ahead\<close> and \<open>read_advance\<close>: copies into \<open>buf\<close> what the chunks have from \<open>p\<close>
  on. It gives the position reached, the number of bytes and the filled \<open>buf\<close>.
\<close>

function read_loop ::
  "u8 list list \<Rightarrow> nat \<Rightarrow> nat \<times> nat \<Rightarrow> nat \<Rightarrow> u8 list \<Rightarrow> ((nat \<times> nat) \<times> nat \<times> u8 list) result" where
  "read_loop cs len p got buf =
     (if got < len then
        if fst p < length cs \<and> snd p \<le> length (cs ! fst p) then
          let current = cs ! fst p;
              available = min (len - got) (length current - snd p);
              buf = take got buf @ take available (drop (snd p) current) @ drop (got + available) buf;
              p = (fst p, snd p + available);
              got = got + available
          in if snd p = length current
             then if fst p < length cs - 1 then read_loop cs len (fst p + 1, 0) got buf
                  else Ok (p, got, buf)
             else read_loop cs len p got buf
        else Panicked
      else Ok (p, got, buf))"
  by pat_completeness auto

termination
proof (relation "measure (\<lambda>(cs, len, p, h, buf). (length cs - fst p) + (len - h))", goal_cases)
  case 1
  then show ?case by simp
next
  case (2 cs len p h buf current available buf' p' h')
  then show ?case by (auto simp: min_def split: if_splits)
next
  case (3 cs len p h buf current available buf' p' h')
  then show ?case by (auto simp: min_def split: if_splits)
qed

declare read_loop.simps [simp del]

definition Buffer_read_ahead :: "Buffer \<Rightarrow> u8 list \<Rightarrow> (nat \<times> u8 list) result" where
  "Buffer_read_ahead b buf =
     (if chunks b = [] then Ok (0, buf)
      else obind (read_loop (chunks b) (length buf) (pos b) 0 buf) (\<lambda>(_, got, buf). Ok (got, buf)))"

definition Buffer_read_advance :: "Buffer \<Rightarrow> u8 list \<Rightarrow> (Buffer \<times> nat \<times> u8 list) result" where
  "Buffer_read_advance b buf =
     (if chunks b = [] then Ok (b, 0, buf)
      else obind (read_loop (chunks b) (length buf) (pos b) 0 buf)
             (\<lambda>(p, got, buf). Ok (b\<lparr>pos := p\<rparr>, got, buf)))"

function advance_loop :: "u8 list list \<Rightarrow> nat \<Rightarrow> nat \<times> nat \<Rightarrow> nat \<Rightarrow> ((nat \<times> nat) \<times> nat) result" where
  "advance_loop cs len p got =
     (if got < len then
        if fst p < length cs \<and> snd p \<le> length (cs ! fst p) then
          let current = cs ! fst p;
              available = min (len - got) (length current - snd p);
              p = (fst p, snd p + available);
              got = got + available
          in if snd p = length current
             then if fst p < length cs - 1 then advance_loop cs len (fst p + 1, 0) got
                  else Ok (p, got)
             else advance_loop cs len p got
        else Panicked
      else Ok (p, got))"
  by pat_completeness auto

termination
proof (relation "measure (\<lambda>(cs, len, p, h). (length cs - fst p) + (len - h))", goal_cases)
  case 1
  then show ?case by simp
next
  case (2 cs len p h current available p' h')
  then show ?case by (auto simp: min_def split: if_splits)
next
  case (3 cs len p h current available p' h')
  then show ?case by (auto simp: min_def split: if_splits)
qed

declare advance_loop.simps [simp del]

definition Buffer_advance :: "Buffer \<Rightarrow> nat \<Rightarrow> (Buffer \<times> nat) result" where
  "Buffer_advance b len =
     obind (advance_loop (chunks b) len (pos b) 0) (\<lambda>(p, got). Ok (b\<lparr>pos := p\<rparr>, got))"

text \<open>A write appends to the last chunk, or opens a new one if that would get too big.\<close>

definition Buffer_write :: "Buffer \<Rightarrow> u8 list \<Rightarrow> Buffer \<times> nat" where
  "Buffer_write b buf =
     (if 0 < length buf then
        let cs = (if chunks b = [] \<or> IO_BUFFER_SIZE < length buf + length (chunks b ! (length (chunks b) - 1))
                  then chunks b @ [[]] else chunks b);
            nc = length cs
        in (b\<lparr>chunks := cs[nc - 1 := cs ! (nc - 1) @ buf]\<rparr>, length buf)
      else (b, length buf))"

definition Buffer_flush :: "Buffer \<Rightarrow> unit result" where
  "Buffer_flush b = Ok ()"

definition Buffer_read :: "Buffer \<Rightarrow> u8 list \<Rightarrow> (Buffer \<times> nat \<times> u8 list) result" where
  "Buffer_read b buf = Buffer_read_advance b buf"

text \<open>
  \<open>write_all\<close> of the standard library repeats \<open>write\<close> with what was not written: the first call
  takes it all.
\<close>

definition Buffer_write_all :: "Buffer \<Rightarrow> u8 list \<Rightarrow> Buffer" where
  "Buffer_write_all b buf = fst (Buffer_write b buf)"

section \<open>The bytes a buffer holds\<close>

definition valid_pos :: "u8 list list \<Rightarrow> nat \<times> nat \<Rightarrow> bool" where
  "valid_pos cs p \<longleftrightarrow>
     (if cs = [] then p = (0, 0) else fst p < length cs \<and> snd p \<le> length (cs ! fst p))"

definition buf_inv :: "Buffer \<Rightarrow> bool" where
  "buf_inv b \<longleftrightarrow> valid_pos (chunks b) (pos b) \<and> valid_pos (chunks b) (checkpoint b)"

definition bytes_from :: "u8 list list \<Rightarrow> nat \<times> nat \<Rightarrow> u8 list" where
  "bytes_from cs p = drop (snd p) (concat (drop (fst p) cs))"

text \<open>The bytes not yet read, and those since the last commit.\<close>

definition unread :: "Buffer \<Rightarrow> u8 list" where
  "unread b = bytes_from (chunks b) (pos b)"

definition uncommitted :: "Buffer \<Rightarrow> u8 list" where
  "uncommitted b = bytes_from (chunks b) (checkpoint b)"

lemma bytes_from_split:
  assumes "fst p < length cs" "snd p \<le> length (cs ! fst p)"
  shows "bytes_from cs p = drop (snd p) (cs ! fst p) @ concat (drop (fst p + 1) cs)"
proof -
  have "drop (fst p) cs = cs ! fst p # drop (fst p + 1) cs" using assms(1) by (simp add: Cons_nth_drop_Suc)
  then show ?thesis using assms(2) by (simp add: bytes_from_def)
qed

text \<open>What an iteration of the loop does to the buffer it fills.\<close>

lemma copy_chunk:
  assumes "fst p < length cs" "snd p \<le> length (cs ! fst p)" "a \<le> length (cs ! fst p) - snd p" "h + a \<le> length buf"
    "buf1 = take h buf @ take a (drop (snd p) (cs ! fst p)) @ drop (h + a) buf"
  shows "length buf1 = length buf" "buf1 = take h buf @ take a (bytes_from cs p) @ drop (h + a) buf"
    "take (h + a) buf1 @ take k (drop a (bytes_from cs p)) @ drop (h + a + k) buf1 =
       take h buf @ take (a + k) (bytes_from cs p) @ drop (h + (a + k)) buf"
proof -
  show "length buf1 = length buf" using assms by simp
  show b: "buf1 = take h buf @ take a (bytes_from cs p) @ drop (h + a) buf"
    using assms bytes_from_split [OF assms(1,2)] by simp
  have "a \<le> length (bytes_from cs p)" using assms(3) bytes_from_split [OF assms(1,2)] by simp
  then have "take (h + a) buf1 = take h buf @ take a (bytes_from cs p)" "drop (h + a + k) buf1 = drop (h + (a + k)) buf"
    using assms(4) unfolding b by (simp_all add: ac_simps)
  then show "take (h + a) buf1 @ take k (drop a (bytes_from cs p)) @ drop (h + a + k) buf1 =
      take h buf @ take (a + k) (bytes_from cs p) @ drop (h + (a + k)) buf"
    by (simp add: take_add)
qed

text \<open>The loop copies the first bytes from its position, as many as fit and are there.\<close>

lemma read_loop_spec:
  assumes "valid_pos cs p" "cs \<noteq> []" "h \<le> len" "length buf = len"
  shows "\<exists>p' k. read_loop cs len p h buf = Ok (p', h + k, take h buf @ take k (bytes_from cs p) @ drop (h + k) buf) \<and>
    k = min (len - h) (length (bytes_from cs p)) \<and> valid_pos cs p' \<and>
    bytes_from cs p' = drop k (bytes_from cs p) \<and> (fst p \<le> fst p')"
  using assms
proof (induction cs len p h buf rule: read_loop.induct)
  case (1 cs len p h buf)
  have v: "fst p < length cs" "snd p \<le> length (cs ! fst p)" using 1(3,4) by (auto simp: valid_pos_def)
  note B = bytes_from_split [OF v]
  show ?case
  proof (cases "h < len")
    case False
    then show ?thesis using 1(3-6) by (simp add: read_loop.simps)
  next
    case True
    define a where "a = min (len - h) (length (cs ! fst p) - snd p)"
    define buf1 where "buf1 = take h buf @ take a (drop (snd p) (cs ! fst p)) @ drop (h + a) buf"
    have a: "a \<le> length (cs ! fst p) - snd p" "h + a \<le> len" using True by (auto simp: a_def)
    note C = copy_chunk [OF v a(1) a(2) [folded 1(6)] buf1_def]
    have L: "read_loop cs len p h buf =
        (if snd p + a = length (cs ! fst p)
         then if fst p < length cs - 1 then read_loop cs len (fst p + 1, 0) (h + a) buf1
              else Ok ((fst p, snd p + a), h + a, buf1)
         else read_loop cs len (fst p, snd p + a) (h + a) buf1)"
      using True v by (simp add: read_loop.simps [of cs len p h buf] Let_def a_def buf1_def)
    show ?thesis
    proof (cases "snd p + a = length (cs ! fst p) \<and> fst p < length cs - 1")
      case False
      then have "a = len - h \<or> snd p + a = length (cs ! fst p) \<and> drop (fst p + 1) cs = []"
        using a v by (auto simp: a_def min_def split: if_splits)
      then have k: "a = min (len - h) (length (bytes_from cs p))" using a B v by auto
      have "read_loop cs len p h buf = Ok ((fst p, snd p + a), h + a, buf1)"
      proof (cases "snd p + a = length (cs ! fst p)")
        case part: False
        then have "h + a = len" using a v True by (auto simp: a_def min_def split: if_splits)
        then show ?thesis using L part by (simp add: read_loop.simps [of cs len _ len])
      qed (use L False in simp)
      moreover have "valid_pos cs (fst p, snd p + a)" using v a 1(4) by (simp add: valid_pos_def)
      moreover have "bytes_from cs (fst p, snd p + a) = drop a (bytes_from cs p)" by (simp add: bytes_from_def add.commute)
      ultimately show ?thesis using k C(2) by auto
    next
      case on: True
      then have bn: "bytes_from cs (fst p + 1, 0) = drop a (bytes_from cs p)" using B v by (simp add: bytes_from_def)
      have n: "valid_pos cs (fst p + 1, 0)" "length buf1 = len" using on 1(4,6) C(1) by (auto simp: valid_pos_def)
      obtain p' k where R: "read_loop cs len (fst p + 1, 0) (h + a) buf1 =
          Ok (p', h + a + k, take (h + a) buf1 @ take k (bytes_from cs (fst p + 1, 0)) @ drop (h + a + k) buf1)"
        "k = min (len - (h + a)) (length (bytes_from cs (fst p + 1, 0)))" "valid_pos cs p'"
        "bytes_from cs p' = drop k (bytes_from cs (fst p + 1, 0))" "fst p + 1 \<le> fst p'"
        using 1(1) [OF True _ refl refl refl refl refl] v on n 1(4) a(2)
        unfolding a_def [symmetric] buf1_def [symmetric] by auto
      have "read_loop cs len p h buf = Ok (p', h + (a + k), take h buf @ take (a + k) (bytes_from cs p) @ drop (h + (a + k)) buf)"
        using L on R(1) C(3) bn by (simp add: add.assoc)
      moreover have "a + k = min (len - h) (length (bytes_from cs p))"
        using a(2) R(2) bn B a(1) by (auto simp: min_def)
      ultimately show ?thesis using R(3-5) bn by (auto simp: add.commute)
    qed
  qed
qed

lemma advance_loop_read_loop:
  "advance_loop cs len p h = obind (read_loop cs len p h buf) (\<lambda>(p, k, _). Ok (p, k))"
proof (induction cs len p h arbitrary: buf rule: advance_loop.induct)
  case (1 cs len p h)
  show ?case
    using 1(1) [OF _ _ refl refl refl refl] 1(2) [OF _ _ refl refl refl refl]
    by (subst advance_loop.simps, subst read_loop.simps) (auto simp: Let_def)
qed

section \<open>What the operations promise\<close>

lemma buf_inv_new: "buf_inv Buffer_new" "unread Buffer_new = []" "uncommitted Buffer_new = []"
  by (simp_all add: buf_inv_def valid_pos_def Buffer_new_def unread_def uncommitted_def bytes_from_def)

lemma rollback_spec:
  "buf_inv b \<Longrightarrow> buf_inv (Buffer_rollback b)" "unread (Buffer_rollback b) = uncommitted b"
  "uncommitted (Buffer_rollback b) = uncommitted b"
  by (simp_all add: buf_inv_def Buffer_rollback_def unread_def uncommitted_def)

lemma commit_spec:
  assumes "buf_inv b"
  shows "\<exists>b'. Buffer_commit b = Ok b' \<and> buf_inv b' \<and> unread b' = unread b \<and> uncommitted b' = unread b"
proof -
  have "fst (pos b) \<le> length (chunks b)" using assms by (auto simp: buf_inv_def valid_pos_def split: if_splits)
  then show ?thesis
    using assms
    by (auto simp: Buffer_commit_def buf_inv_def valid_pos_def unread_def uncommitted_def bytes_from_def split: if_splits)
qed

lemma read_advance_spec:
  assumes "buf_inv b"
  shows "\<exists>b'. Buffer_read_advance b buf =
      Ok (b', min (length buf) (length (unread b)),
          take (length buf) (unread b) @ drop (length (unread b)) buf) \<and>
    buf_inv b' \<and> unread b' = drop (length buf) (unread b) \<and> uncommitted b' = uncommitted b"
proof (cases "chunks b = []")
  case True
  then have "unread b = []" by (simp add: unread_def bytes_from_def)
  then show ?thesis using True assms by (simp add: Buffer_read_advance_def)
next
  case False
  have "valid_pos (chunks b) (pos b)" using assms by (simp add: buf_inv_def)
  from read_loop_spec [OF this False, of 0 "length buf" buf]
  obtain p' k where R: "read_loop (chunks b) (length buf) (pos b) 0 buf =
      Ok (p', k, take k (unread b) @ drop k buf)"
    "k = min (length buf) (length (unread b))" "valid_pos (chunks b) p'"
    "bytes_from (chunks b) p' = drop k (unread b)"
    by (auto simp: unread_def)
  have "take k (unread b) = take (length buf) (unread b)" "drop k buf = drop (length (unread b)) buf"
    "drop k (unread b) = drop (length buf) (unread b)" using R(2) by (auto simp: min_def)
  then show ?thesis
    using R False assms
    by (auto simp: Buffer_read_advance_def buf_inv_def unread_def uncommitted_def)
qed

lemma read_ahead_spec:
  assumes "buf_inv b"
  shows "Buffer_read_ahead b buf = Ok (min (length buf) (length (unread b)),
    take (length buf) (unread b) @ drop (length (unread b)) buf)"
  using read_advance_spec [OF assms, of buf]
  by (auto simp: Buffer_read_advance_def Buffer_read_ahead_def obind_conv split: if_splits)

lemma advance_spec:
  assumes "buf_inv b" "unread b \<noteq> [] \<or> n = 0"
  shows "\<exists>b'. Buffer_advance b n = Ok (b', min n (length (unread b))) \<and> buf_inv b' \<and>
    unread b' = drop n (unread b) \<and> uncommitted b' = uncommitted b"
proof (cases "chunks b = []")
  case True
  then show ?thesis using assms by (auto simp: Buffer_advance_def advance_loop.simps unread_def bytes_from_def)
next
  case False
  then show ?thesis
    using read_advance_spec [OF assms(1), of "replicate n 0"]
    by (auto simp: Buffer_advance_def Buffer_read_advance_def obind_conv
        advance_loop_read_loop [of _ _ _ _ "replicate n 0"])
qed

text \<open>Appending to the last chunk appends to the bytes from any position.\<close>

abbreviation (input) grow_last :: "u8 list list \<Rightarrow> u8 list \<Rightarrow> u8 list list" where
  "grow_last cs ys \<equiv> cs[length cs - 1 := cs ! (length cs - 1) @ ys]"

lemma concat_grow_last: "cs \<noteq> [] \<Longrightarrow> concat (grow_last cs ys) = concat cs @ ys"
  by (cases cs rule: rev_cases) auto

lemma bytes_from_grow:
  assumes "valid_pos cs p" "cs \<noteq> []"
  shows "bytes_from (grow_last cs ys) p = bytes_from cs p @ ys" "valid_pos (grow_last cs ys) p"
proof -
  have v: "fst p < length cs" "snd p \<le> length (cs ! fst p)" using assms by (auto simp: valid_pos_def)
  have v': "fst p < length (grow_last cs ys)" "snd p \<le> length (grow_last cs ys ! fst p)"
    using v by (auto simp: nth_list_update)
  then show "valid_pos (grow_last cs ys) p" using assms(2) by (simp add: valid_pos_def)
  show "bytes_from (grow_last cs ys) p = bytes_from cs p @ ys"
  proof (cases "fst p = length cs - 1")
    case True
    then show ?thesis using v v' by (simp add: bytes_from_split)
  next
    case False
    then have l: "Suc (length cs - 2) = length cs - 1" using v(1) by auto
    have "drop (fst p + 1) (grow_last cs ys) = grow_last (drop (fst p + 1) cs) ys"
      using v(1) False l by (simp add: drop_update_swap)
    moreover have "drop (fst p + 1) cs \<noteq> []" using v(1) False by simp
    ultimately have "concat (drop (fst p + 1) (grow_last cs ys)) = concat (drop (fst p + 1) cs) @ ys"
      using concat_grow_last [of "drop (fst p + 1) cs" ys] by metis
    then show ?thesis
      using False unfolding bytes_from_split [OF v] bytes_from_split [OF v'] by (simp add: nth_list_update)
  qed
qed

lemma bytes_from_append_nil:
  assumes "valid_pos cs p"
  shows "bytes_from (cs @ [[]]) p = bytes_from cs p" "valid_pos (cs @ [[]]) p"
  using assms by (auto simp: bytes_from_def valid_pos_def nth_append split: if_splits)

lemma write_spec:
  assumes "buf_inv b"
  shows "\<exists>b'. Buffer_write b buf = (b', length buf) \<and> buf_inv b' \<and>
    unread b' = unread b @ buf \<and> uncommitted b' = uncommitted b @ buf"
proof (cases "buf = []")
  case True
  then show ?thesis using assms by (simp add: Buffer_write_def)
next
  case False
  define cs where "cs = (if chunks b = [] \<or> IO_BUFFER_SIZE < length buf + length (chunks b ! (length (chunks b) - 1))
    then chunks b @ [[]] else chunks b)"
  have ne: "cs \<noteq> []" by (simp add: cs_def)
  have v: "valid_pos cs (pos b)" "valid_pos cs (checkpoint b)"
    "bytes_from cs (pos b) = unread b" "bytes_from cs (checkpoint b) = uncommitted b"
    using assms bytes_from_append_nil by (auto simp: cs_def buf_inv_def unread_def uncommitted_def)
  have "Buffer_write b buf = (b\<lparr>chunks := grow_last cs buf\<rparr>, length buf)"
    using False by (simp add: Buffer_write_def cs_def Let_def)
  then show ?thesis
    using bytes_from_grow [OF v(1) ne] bytes_from_grow [OF v(2) ne] v(3,4)
    by (simp add: buf_inv_def unread_def uncommitted_def)
qed

lemma Buffer_len_spec: "buf_inv b \<Longrightarrow> Buffer_len b = Ok (length (unread b))"
proof -
  assume inv: "buf_inv b"
  have "snd (pos b) \<le> length (concat (drop (fst (pos b)) (chunks b)))"
  proof (cases "chunks b = []")
    case False
    then have "fst (pos b) < length (chunks b)" "snd (pos b) \<le> length (chunks b ! fst (pos b))"
      using inv by (auto simp: buf_inv_def valid_pos_def)
    moreover from this(1) have "drop (fst (pos b)) (chunks b) = chunks b ! fst (pos b) # drop (fst (pos b) + 1) (chunks b)"
      by (simp add: Cons_nth_drop_Suc)
    ultimately show ?thesis by simp
  qed (use inv in \<open>auto simp: buf_inv_def valid_pos_def\<close>)
  then show ?thesis
    by (simp add: Buffer_len_def Let_def unread_def bytes_from_def length_concat [symmetric])
qed

section \<open>Refinement\<close>

text \<open>
  The calls of the network layer on a buffer and what each hands out: the bytes read, or as many
  bytes as a number says.
\<close>

datatype buffer_call =
    WriteCall "u8 list" | ReadCall nat | ReadAheadCall nat | AdvanceCall nat | CommitCall | RollbackCall | LenCall

fun buffer_step :: "Buffer \<Rightarrow> buffer_call \<Rightarrow> (Buffer \<times> nat \<times> u8 list) result" where
  "buffer_step b (WriteCall xs) = (case Buffer_write b xs of (b, n) \<Rightarrow> Ok (b, n, []))"
| "buffer_step b (ReadCall n) =
     obind (Buffer_read b (replicate n 0)) (\<lambda>(b, got, buf). Ok (b, got, take got buf))"
| "buffer_step b (ReadAheadCall n) =
     obind (Buffer_read_ahead b (replicate n 0)) (\<lambda>(got, buf). Ok (b, got, take got buf))"
| "buffer_step b (AdvanceCall n) = obind (Buffer_advance b n) (\<lambda>(b, got). Ok (b, got, []))"
| "buffer_step b CommitCall = obind (Buffer_commit b) (\<lambda>b. Ok (b, 0, []))"
| "buffer_step b RollbackCall = Ok (Buffer_rollback b, 0, [])"
| "buffer_step b LenCall = obind (Buffer_len b) (\<lambda>n. Ok (b, n, []))"

text \<open>
  The specification: the bytes since the last commit, and how many of them have been read. There are
  no chunks and no positions, and nothing fails.
\<close>

type_synonym byte_queue = "u8 list \<times> nat"

definition spec_read :: "byte_queue \<Rightarrow> nat \<Rightarrow> nat" where
  "spec_read q n = min n (length (fst q) - snd q)"

fun spec_step :: "byte_queue \<Rightarrow> buffer_call \<Rightarrow> byte_queue \<times> nat \<times> u8 list" where
  "spec_step (xs, k) (WriteCall ys) = ((xs @ ys, k), length ys, [])"
| "spec_step (xs, k) (ReadCall n) =
     ((xs, k + spec_read (xs, k) n), spec_read (xs, k) n, take n (drop k xs))"
| "spec_step (xs, k) (ReadAheadCall n) = ((xs, k), spec_read (xs, k) n, take n (drop k xs))"
| "spec_step (xs, k) (AdvanceCall n) = ((xs, k + spec_read (xs, k) n), spec_read (xs, k) n, [])"
| "spec_step (xs, k) CommitCall = ((drop k xs, 0), 0, [])"
| "spec_step (xs, k) RollbackCall = ((xs, 0), 0, [])"
| "spec_step (xs, k) LenCall = ((xs, k), length xs - k, [])"

text \<open>
  A sequence of calls on either. \<open>advance\<close> asks that there is something to advance over: the
  network layer advances over bytes it has seen with \<open>read_ahead\<close>.
\<close>

fun buffer_run :: "Buffer \<Rightarrow> buffer_call list \<Rightarrow> (Buffer \<times> (nat \<times> u8 list) list) result" where
  "buffer_run b [] = Ok (b, [])"
| "buffer_run b (c # cs) =
     obind (buffer_step b c) (\<lambda>(b, n, out).
     obind (buffer_run b cs) (\<lambda>(b, outs). Ok (b, (n, out) # outs)))"

fun spec_run :: "byte_queue \<Rightarrow> buffer_call list \<Rightarrow> byte_queue \<times> (nat \<times> u8 list) list" where
  "spec_run q [] = (q, [])"
| "spec_run q (c # cs) =
     (case spec_step q c of (q, n, out) \<Rightarrow> case spec_run q cs of (q, outs) \<Rightarrow> (q, (n, out) # outs))"

fun advances_ok :: "byte_queue \<Rightarrow> buffer_call list \<Rightarrow> bool" where
  "advances_ok q [] = True"
| "advances_ok q (c # cs) =
     ((case c of AdvanceCall n \<Rightarrow> snd q < length (fst q) \<or> n = 0 | _ \<Rightarrow> True) \<and>
      advances_ok (fst (spec_step q c)) cs)"

definition refines :: "Buffer \<Rightarrow> byte_queue \<Rightarrow> bool" where
  "refines b q \<longleftrightarrow>
     buf_inv b \<and> snd q \<le> length (fst q) \<and> uncommitted b = fst q \<and> unread b = drop (snd q) (fst q)"

lemma take_fill:
  "take (min n (length xs)) (take n xs @ drop (length xs) (replicate n z)) = take n xs"
  by (simp add: min_def)

lemma buffer_step_refines:
  assumes "refines b q" "case c of AdvanceCall n \<Rightarrow> snd q < length (fst q) \<or> n = 0 | _ \<Rightarrow> True"
  shows "\<exists>b' q' n out. buffer_step b c = Ok (b', n, out) \<and> spec_step q c = (q', n, out) \<and> refines b' q'"
proof -
  obtain xs k where q: "q = (xs, k)" by (cases q)
  have R: "buf_inv b" "k \<le> length xs" "uncommitted b = xs" "unread b = drop k xs"
    using assms(1) q by (auto simp: refines_def)
  have adv: "drop n (drop k xs) = drop (k + min n (length xs - k)) xs" for n
    by (cases "n \<le> length xs - k") (simp_all add: min_def add.commute)
  show ?thesis
  proof (cases c)
    case (WriteCall ys)
    then show ?thesis using write_spec [OF R(1), of ys] R q by (auto simp: refines_def)
  next
    case (ReadCall n)
    obtain b' where "Buffer_read_advance b (replicate n 0) = Ok (b', min n (length (unread b)),
        take n (unread b) @ drop (length (unread b)) (replicate n 0))"
      "buf_inv b'" "unread b' = drop n (unread b)" "uncommitted b' = uncommitted b"
      using read_advance_spec [OF R(1), of "replicate n 0"] by auto
    then show ?thesis
      using ReadCall R q take_fill [of n "unread b" 0] adv [of n]
      by (auto simp: refines_def Buffer_read_def spec_read_def)
  next
    case (ReadAheadCall n)
    then show ?thesis
      using read_ahead_spec [OF R(1), of "replicate n 0"] assms(1) R q take_fill [of n "unread b" 0]
      by (auto simp: spec_read_def)
  next
    case (AdvanceCall n)
    then have "unread b \<noteq> [] \<or> n = 0" using assms(2) R q by auto
    from advance_spec [OF R(1) this] show ?thesis
      using AdvanceCall R q adv [of n] by (auto simp: refines_def spec_read_def)
  next
    case CommitCall
    then show ?thesis using commit_spec [OF R(1)] R q by (auto simp: refines_def)
  next
    case RollbackCall
    then show ?thesis using rollback_spec [of b] R q by (auto simp: refines_def)
  next
    case LenCall
    then show ?thesis using Buffer_len_spec [OF R(1)] assms(1) R q by simp
  qed
qed

lemma buffer_run_refines:
  "refines b q \<Longrightarrow> advances_ok q cs \<Longrightarrow>
   \<exists>b'. buffer_run b cs = Ok (b', snd (spec_run q cs)) \<and> refines b' (fst (spec_run q cs))"
proof (induction cs arbitrary: b q)
  case (Cons c cs)
  obtain b' q' n out where s: "buffer_step b c = Ok (b', n, out)" "spec_step q c = (q', n, out)" "refines b' q'"
    using buffer_step_refines [OF Cons.prems(1), of c] Cons.prems(2) by auto
  then show ?case using Cons.IH [OF s(3)] Cons.prems(2) by (auto split: prod.splits)
qed simp

text \<open>
  C8. A buffer is a queue of bytes with a checkpoint: on any sequence of writes, reads, reads ahead,
  advances, commits and rollbacks from a new buffer, in which no call advances when nothing is left to read, chunks and
  positions give the bytes and the counts that the specification gives, and no call panics. (To advance on an empty
  buffer panics, since there is no chunk; the network layer only advances over bytes it was shown by \<open>read_ahead\<close>.)
\<close>
theorem buffer_refines_queue:
  assumes "advances_ok ([], 0) cs"
  shows "\<exists>b. buffer_run Buffer_new cs = Ok (b, snd (spec_run ([], 0) cs)) \<and> refines b (fst (spec_run ([], 0) cs))"
  using assms buf_inv_new by (intro buffer_run_refines) (simp_all add: refines_def)

theorem buffer_refines_queue_witness:
  "advances_ok ([], 0) [WriteCall [1, 2, 3], ReadCall 2, RollbackCall, ReadAheadCall 1, AdvanceCall 1, CommitCall] \<and>
   (\<exists>b. buffer_run Buffer_new
       [WriteCall [1, 2, 3], ReadCall 2, RollbackCall, ReadAheadCall 1, AdvanceCall 1, CommitCall] =
     Ok (b, [(3, []), (2, [1, 2]), (0, []), (1, [1]), (1, []), (0, [])]) \<and> refines b ([2, 3], 0))"
  using buffer_refines_queue
    [of "[WriteCall [1, 2, 3], ReadCall 2, RollbackCall, ReadAheadCall 1, AdvanceCall 1, CommitCall]"]
  by (simp add: spec_read_def eval_nat_numeral del: buffer_run.simps)

text \<open>
  The optimised \<open>read_advance\<close> is \<open>read_ahead\<close> followed by \<open>advance\<close> over as many bytes, on
  every buffer that holds a chunk, valid or not.
\<close>
theorem read_advance_equiv:
  "Buffer_read_advance b buf =
     (if chunks b = [] then Ok (b, 0, buf)
      else obind (Buffer_read_ahead b buf) (\<lambda>(got, buf').
           obind (Buffer_advance b (length buf)) (\<lambda>(b', _). Ok (b', got, buf'))))"
proof (cases "read_loop (chunks b) (length buf) (pos b) 0 buf")
  case (Ok r)
  then show ?thesis
    by (cases r) (simp add: Buffer_read_advance_def Buffer_read_ahead_def Buffer_advance_def
        advance_loop_read_loop [of "chunks b" "length buf" "pos b" 0 buf])
qed (simp_all add: Buffer_read_advance_def Buffer_read_ahead_def)

end
