(* ===== verification/P2P_Types.thy ===== *)
theory P2P_Types
  imports Header_Work
begin

text \<open>
  The data of the network layer (\<open>src/src/p2p.rs\<close>): peers' ids, the messages between the network
  and the modules above it, the network messages as far as the library looks into them, and the
  configuration for the Bitcoin network (\<open>BitcoinP2PConfig\<close>).
\<close>

section \<open>Ids and addresses\<close>

text \<open>The network's name and the mio token, a number.\<close>

record PeerId =
  pid_network :: string
  pid_token :: nat

fun digit :: "nat \<Rightarrow> char" where
  "digit n = char_of (48 + n)"

fun decimal :: "nat \<Rightarrow> string" where
  "decimal n = (if n < 10 then [digit n] else decimal (n div 10) @ [digit (n mod 10)])"

declare decimal.simps [simp del]

definition PeerId_display :: "PeerId \<Rightarrow> string" where
  "PeerId_display p = pid_network p @ ''-'' @ decimal (pid_token p)"

datatype IpAddr = V4 u32 | V6 u128

record SocketAddr =
  sa_ip :: IpAddr
  sa_port :: "16 word"

section \<open>Network messages\<close>

text \<open>\<open>Address\<close> of the bitcoin crate: services and socket address.\<close>

record Address =
  ad_services :: u64
  ad_addr :: SocketAddr

text \<open>\<open>VersionMessage\<close> of the bitcoin crate; \<open>timestamp\<close> is \<open>i64\<close> and \<open>start_height\<close> \<open>i32\<close>.\<close>

record VersionMessage =
  vm_version :: u32
  vm_services :: u64
  vm_timestamp :: "64 word"
  vm_receiver :: Address
  vm_sender :: Address
  vm_nonce :: u64
  vm_user_agent :: string
  vm_start_height :: "32 word"
  vm_relay :: bool

datatype InvType = InvError | InvTransaction | InvBlock | InvWitnessBlock | InvWitnessTransaction

record Inventory =
  inv_type :: InvType
  inv_hash :: hash

text \<open>
  \<open>NetworkMessage\<close> of the bitcoin crate: the cases the library matches or builds; every other
  case is \<open>OtherMessage\<close> with its command and payload.
\<close>

datatype NetworkMessage =
    Version VersionMessage
  | Verack
  | Ping u64
  | Pong u64
  | Inv "Inventory list"
  | GetHeaders "hash list" hash
  | Headers "BlockHeader list"
  | OtherMessage string "u8 list"

record RawNetworkMessage =
  raw_magic :: u32
  raw_payload :: NetworkMessage

record VersionCarrier =
  vc_version :: u32
  vc_services :: u64
  vc_timestamp :: u64
  vc_receiver :: Address
  vc_sender :: Address
  vc_nonce :: u64
  vc_user_agent :: string
  vc_start_height :: u32
  vc_relay :: bool

text \<open>\<open>as u64\<close> and \<open>as u32\<close> keep the bits of the signed fields.\<close>

fun is_version :: "NetworkMessage \<Rightarrow> VersionCarrier option" where
  "is_version (Version v) = Some
     \<lparr>vc_version = vm_version v, vc_services = vm_services v, vc_timestamp = vm_timestamp v,
      vc_receiver = vm_receiver v, vc_sender = vm_sender v, vc_nonce = vm_nonce v,
      vc_user_agent = vm_user_agent v, vc_start_height = vm_start_height v, vc_relay = vm_relay v\<rparr>"
| "is_version _ = None"

fun is_verack :: "NetworkMessage \<Rightarrow> bool" where
  "is_verack Verack = True"
| "is_verack _ = False"

section \<open>Messages between the layers\<close>

datatype 'm PeerMessage =
    Outgoing 'm
  | Incoming PeerId 'm
  | Connected PeerId "SocketAddr option"
  | Disconnected PeerId bool

datatype 'm P2PControl =
    Send PeerId 'm
  | Broadcast 'm
  | Ban PeerId u32
  | Height u32
  | Bind SocketAddr

abbreviation (input) SERVICE_BLOCKS :: u64 where
  "SERVICE_BLOCKS \<equiv> 1"

abbreviation (input) SERVICE_WITNESS :: u64 where
  "SERVICE_WITNESS \<equiv> 8"

abbreviation (input) SERVICE_FILTERS :: u64 where
  "SERVICE_FILTERS \<equiv> 64"

section \<open>The configuration for the Bitcoin network\<close>

text \<open>
  \<open>cfg_magic\<close> stands for \<open>network.magic()\<close> of the bitcoin crate. The height is an atomic \<open>usize\<close>
  that is only set from a \<open>u32\<close>.
\<close>

record BitcoinP2PConfig =
  cfg_magic :: u32
  cfg_nonce :: u64
  cfg_height :: u64
  cfg_user_agent :: string
  cfg_max_protocol_version :: u32
  cfg_server :: bool

text \<open>The clock reading is the argument \<open>now\<close>.\<close>

definition BitcoinP2PConfig_version ::
  "BitcoinP2PConfig \<Rightarrow> u64 \<Rightarrow> SocketAddr \<Rightarrow> u32 \<Rightarrow> NetworkMessage" where
  "BitcoinP2PConfig_version cfg now remote max_protocol_version =
     (let services = (if \<not> cfg_server cfg then 0
                      else SERVICE_BLOCKS + SERVICE_WITNESS + SERVICE_FILTERS)
      in Version
           \<lparr>vm_version = min max_protocol_version (cfg_max_protocol_version cfg),
            vm_services = services,
            vm_timestamp = now,
            vm_receiver = \<lparr>ad_services = 1, ad_addr = remote\<rparr>,
            vm_sender = \<lparr>ad_services = 1, ad_addr = remote\<rparr>,
            vm_nonce = cfg_nonce cfg,
            vm_user_agent = cfg_user_agent cfg,
            vm_start_height = ucast (cfg_height cfg),
            vm_relay = True\<rparr>)"

definition BitcoinP2PConfig_nonce :: "BitcoinP2PConfig \<Rightarrow> u64" where
  "BitcoinP2PConfig_nonce cfg = cfg_nonce cfg"

definition BitcoinP2PConfig_magic :: "BitcoinP2PConfig \<Rightarrow> u32" where
  "BitcoinP2PConfig_magic cfg = cfg_magic cfg"

definition BitcoinP2PConfig_user_agent :: "BitcoinP2PConfig \<Rightarrow> string" where
  "BitcoinP2PConfig_user_agent cfg = cfg_user_agent cfg"

definition BitcoinP2PConfig_get_height :: "BitcoinP2PConfig \<Rightarrow> u32" where
  "BitcoinP2PConfig_get_height cfg = ucast (cfg_height cfg)"

definition BitcoinP2PConfig_set_height :: "BitcoinP2PConfig \<Rightarrow> u32 \<Rightarrow> BitcoinP2PConfig" where
  "BitcoinP2PConfig_set_height cfg height = cfg\<lparr>cfg_height := ucast height\<rparr>"

definition BitcoinP2PConfig_max_protocol_version :: "BitcoinP2PConfig \<Rightarrow> u32" where
  "BitcoinP2PConfig_max_protocol_version cfg = cfg_max_protocol_version cfg"

definition BitcoinP2PConfig_min_protocol_version :: "BitcoinP2PConfig \<Rightarrow> u32" where
  "BitcoinP2PConfig_min_protocol_version cfg = 70001"

definition BitcoinP2PConfig_verack :: "BitcoinP2PConfig \<Rightarrow> NetworkMessage" where
  "BitcoinP2PConfig_verack cfg = Verack"

definition BitcoinP2PConfig_wrap :: "BitcoinP2PConfig \<Rightarrow> NetworkMessage \<Rightarrow> RawNetworkMessage" where
  "BitcoinP2PConfig_wrap cfg m = \<lparr>raw_magic = cfg_magic cfg, raw_payload = m\<rparr>"

definition BitcoinP2PConfig_unwrap ::
  "BitcoinP2PConfig \<Rightarrow> RawNetworkMessage \<Rightarrow> (io_error, NetworkMessage) outcome" where
  "BitcoinP2PConfig_unwrap cfg e = Ok (raw_payload e)"

lemmas config_defs = BitcoinP2PConfig_nonce_def BitcoinP2PConfig_get_height_def
  BitcoinP2PConfig_max_protocol_version_def BitcoinP2PConfig_min_protocol_version_def
  BitcoinP2PConfig_verack_def BitcoinP2PConfig_wrap_def BitcoinP2PConfig_unwrap_def

lemma height_roundtrip_config [simp]:
  "BitcoinP2PConfig_get_height (BitcoinP2PConfig_set_height cfg h) = h"
  unfolding BitcoinP2PConfig_get_height_def BitcoinP2PConfig_set_height_def
  by (rule bit_word_eqI) (simp add: bit_simps)

end
