(* ===== verification/Net_Codec.thy ===== *)
theory Net_Codec
  imports Net_Buffer P2P_Types
begin

text \<open>
  Messages on the wire (\<open>src/src/p2p.rs\<close>, \<open>encode\<close> and \<open>decode\<close> of \<open>BitcoinP2PConfig\<close>). The
  serialisation of a message is a function of the bitcoin crate, an argument of the definitions.
  So is the decoder of that crate: a program that asks a reader for bytes, as often and as many
  as it likes, and ends with a message or an error.
\<close>

section \<open>Programs that read\<close>

datatype 'r reader = Return 'r | ReadBytes nat "u8 list \<Rightarrow> 'r reader"

text \<open>Running such a program on a buffer, through the buffer's \<open>read\<close> (\<open>PassThroughBufferReader\<close>).\<close>

primrec run_reader ::
  "('b \<Rightarrow> u8 list \<Rightarrow> ('b \<times> nat \<times> u8 list) result) \<Rightarrow> 'r reader \<Rightarrow> 'b \<Rightarrow> ('b \<times> 'r) result" where
  "run_reader rd (Return r) b = Ok (b, r)"
| "run_reader rd (ReadBytes n k) b =
     obind (rd b (replicate n 0)) (\<lambda>(b', got, buf). run_reader rd (k (take got buf)) b')"

text \<open>Running it on a list of bytes.\<close>

primrec run_list :: "'r reader \<Rightarrow> u8 list \<Rightarrow> 'r \<times> u8 list" where
  "run_list (Return r) xs = (r, xs)"
| "run_list (ReadBytes n k) xs = run_list (k (take n xs)) (drop n xs)"

section \<open>Encoding and decoding\<close>

definition BitcoinP2PConfig_encode :: "('e \<Rightarrow> u8 list) \<Rightarrow> 'e \<Rightarrow> Buffer \<Rightarrow> Buffer" where
  "BitcoinP2PConfig_encode serialize item dst = Buffer_write_all dst (serialize item)"

type_synonym 'e decoder = "(encode_error, 'e) outcome reader"

definition io_of_encode :: "encode_error \<Rightarrow> io_error" where
  "io_of_encode e = \<lparr>fe_description = fe_description e, fe_display = fe_display e, io_kind = InvalidData\<rparr>"

text \<open>The buffer after the call, and \<open>Ok None\<close> if more data is needed.\<close>

definition decode_with ::
  "('b \<Rightarrow> u8 list \<Rightarrow> ('b \<times> nat \<times> u8 list) result) \<Rightarrow> ('b \<Rightarrow> 'b result) \<Rightarrow> ('b \<Rightarrow> 'b) \<Rightarrow>
   'e decoder \<Rightarrow> 'b \<Rightarrow> ('b \<times> (io_error, 'e option) outcome) result" where
  "decode_with rd commit rollback consensus_decode src =
     obind (run_reader rd consensus_decode src) (\<lambda>(src, decode).
       case decode of
         Ok m \<Rightarrow> obind (commit src) (\<lambda>src. Ok (src, Ok (Some m)))
       | Err e \<Rightarrow>
           (case ee_io e of
              Some io \<Rightarrow>
                if io_kind io = UnexpectedEof then Ok (rollback src, Ok None)
                else obind (commit src) (\<lambda>src. Ok (src, Err io))
            | None \<Rightarrow> obind (commit src) (\<lambda>src. Ok (src, Err (io_of_encode e))))
       | Panicked \<Rightarrow> Panicked)"

definition BitcoinP2PConfig_decode ::
  "'e decoder \<Rightarrow> Buffer \<Rightarrow> (Buffer \<times> (io_error, 'e option) outcome) result" where
  "BitcoinP2PConfig_decode = decode_with Buffer_read Buffer_commit Buffer_rollback"

section \<open>What is documented of the codec\<close>

text \<open>
  For the messages \<open>M\<close> of a size the decoder accepts: it reads back a serialised message and
  nothing of what follows; on a message that is not complete it fails with \<open>UnexpectedEof\<close>.
\<close>

definition is_eof :: "encode_error \<Rightarrow> bool" where
  "is_eof e = (case ee_io e of Some io \<Rightarrow> io_kind io = UnexpectedEof | None \<Rightarrow> False)"

definition codec_ok :: "'e set \<Rightarrow> ('e \<Rightarrow> u8 list) \<Rightarrow> 'e decoder \<Rightarrow> bool" where
  "codec_ok M ser dec \<longleftrightarrow>
     (\<forall>m\<in>M. \<forall>ys. run_list dec (ser m @ ys) = (Ok m, ys)) \<and>
     (\<forall>m\<in>M. \<forall>xs ys. ser m = xs @ ys \<longrightarrow> ys \<noteq> [] \<longrightarrow>
        (\<exists>e rest. run_list dec xs = (Err e, rest) \<and> is_eof e))"

section \<open>The buffer as the codec sees it\<close>

text \<open>
  The contract of a buffer with checkpoints, on the bytes not yet read and those not yet committed.
\<close>

locale checkpointed_buffer =
  fixes binv :: "'b \<Rightarrow> bool"
    and rest :: "'b \<Rightarrow> u8 list"
    and since :: "'b \<Rightarrow> u8 list"
    and wr :: "'b \<Rightarrow> u8 list \<Rightarrow> 'b"
    and rd :: "'b \<Rightarrow> u8 list \<Rightarrow> ('b \<times> nat \<times> u8 list) result"
    and commit :: "'b \<Rightarrow> 'b result"
    and rollback :: "'b \<Rightarrow> 'b"
  assumes write_law: "binv b \<Longrightarrow> binv (wr b xs) \<and> rest (wr b xs) = rest b @ xs \<and> since (wr b xs) = since b @ xs"
    and read_law: "binv b \<Longrightarrow> \<exists>b'. rd b buf =
        Ok (b', min (length buf) (length (rest b)), take (length buf) (rest b) @ drop (length (rest b)) buf) \<and>
      binv b' \<and> rest b' = drop (length buf) (rest b) \<and> since b' = since b"
    and commit_law: "binv b \<Longrightarrow> \<exists>b'. commit b = Ok b' \<and> binv b' \<and> rest b' = rest b \<and> since b' = rest b"
    and rollback_law: "binv b \<Longrightarrow> binv (rollback b) \<and> rest (rollback b) = since b \<and> since (rollback b) = since b"
begin

lemma run_reader_list:
  "binv b \<Longrightarrow> \<exists>b'. run_reader rd p b = Ok (b', fst (run_list p (rest b))) \<and> binv b' \<and>
    rest b' = snd (run_list p (rest b)) \<and> since b' = since b"
proof (induction p arbitrary: b)
  case (Return r)
  then show ?case by simp
next
  case (ReadBytes n k)
  obtain b1 where b1: "rd b (replicate n 0) = Ok (b1, min n (length (rest b)),
      take n (rest b) @ drop (length (rest b)) (replicate n 0))"
    "binv b1" "rest b1 = drop n (rest b)" "since b1 = since b"
    using read_law [OF ReadBytes.prems, of "replicate n 0"] by auto
  have "take (min n (length (rest b))) (take n (rest b) @ drop (length (rest b)) (replicate n 0)) = take n (rest b)"
    by (simp add: min_def)
  then show ?case using ReadBytes.IH [of "k (take n (rest b))" b1] b1 by simp
qed

text \<open>
  A complete message is decoded and consumed; an incomplete one leaves the buffer to be continued.
\<close>

lemma decode_message:
  assumes "codec_ok M ser dec" "m \<in> M" "binv b" "rest b = ser m @ ys"
  shows "\<exists>b'. decode_with rd commit rollback dec b = Ok (b', Ok (Some m)) \<and> binv b' \<and> rest b' = ys \<and> since b' = ys"
proof -
  have "run_list dec (rest b) = (Ok m, ys)" using assms(1,2,4) by (simp add: codec_ok_def)
  then obtain b1 where b1: "run_reader rd dec b = Ok (b1, Ok m)" "binv b1" "rest b1 = ys"
    using run_reader_list [OF assms(3), of dec] by auto
  then show ?thesis using commit_law [OF b1(2)] by (auto simp: decode_with_def)
qed

lemma decode_incomplete:
  assumes "codec_ok M ser dec" "m \<in> M" "binv b" "since b = rest b" "ser m = rest b @ ys" "ys \<noteq> []"
  shows "\<exists>b'. decode_with rd commit rollback dec b = Ok (b', Ok None) \<and> binv b' \<and> rest b' = rest b \<and> since b' = rest b"
proof -
  obtain e zs where e: "run_list dec (rest b) = (Err e, zs)" "is_eof e"
    using assms(1,2,5,6) unfolding codec_ok_def by blast
  then obtain b1 where b1: "run_reader rd dec b = Ok (b1, Err e)" "binv b1" "since b1 = rest b"
    using run_reader_list [OF assms(3), of dec] assms(4) by auto
  then show ?thesis
    using rollback_law [OF b1(2)] e(2) by (auto simp: decode_with_def is_eof_def split: option.splits)
qed

end

interpretation net: checkpointed_buffer buf_inv unread uncommitted Buffer_write_all Buffer_read
  Buffer_commit Buffer_rollback
proof unfold_locales
  fix b xs assume "buf_inv b"
  then show "buf_inv (Buffer_write_all b xs) \<and> unread (Buffer_write_all b xs) = unread b @ xs \<and>
      uncommitted (Buffer_write_all b xs) = uncommitted b @ xs"
    using write_spec [of b xs] by (auto simp: Buffer_write_all_def)
qed (auto simp: Buffer_read_def read_advance_spec commit_spec rollback_spec)

end
