(* ===== verification/P2P_Peer.thy ===== *)
theory P2P_Peer
  imports Net_Codec
begin

text \<open>
  A peer (\<open>src/src/p2p.rs\<close>, \<open>Peer\<close>), the loop that writes its outgoing messages to the socket, and
  the loop that takes messages from its read buffer and performs the handshake. The operating
  system is an argument: what it answers to registering for events and to asking for the
  peer's address, and, for a call that writes, how many bytes the socket takes at each attempt.
\<close>

section \<open>State\<close>

record Peer =
  p_pid :: PeerId
  p_read_buffer :: Buffer
  p_write_buffer :: Buffer
  p_got_verack :: bool
  p_version :: "VersionCarrier option"
  p_queue :: "NetworkMessage list"
  p_writeable :: bool
  p_connected :: bool
  p_ban :: u32
  p_outgoing :: bool

text \<open>
  Answers of the operating system during a call: to registering a peer's socket or a listener with
  the poll, to asking for a peer's address, to connecting, accepting (by the listener's token)
  and binding; \<open>os_now\<close> is the clock.
\<close>

record os =
  os_register :: "PeerId \<Rightarrow> (io_error, unit) outcome"
  os_reregister :: "PeerId \<Rightarrow> (io_error, unit) outcome"
  os_peer_addr :: "PeerId \<Rightarrow> (io_error, SocketAddr) outcome"
  os_connect :: "SocketAddr \<Rightarrow> (io_error, unit) outcome"
  os_accept :: "nat \<Rightarrow> (io_error, SocketAddr) outcome"
  os_bind :: "SocketAddr \<Rightarrow> (io_error, unit) outcome"
  os_register_listener :: "nat \<Rightarrow> (io_error, unit) outcome"
  os_now :: u64

definition Peer_new :: "PeerId \<Rightarrow> bool \<Rightarrow> Peer" where
  "Peer_new pid outgoing =
     \<lparr>p_pid = pid, p_read_buffer = Buffer_new, p_write_buffer = Buffer_new, p_got_verack = False,
      p_version = None, p_queue = [], p_writeable = False, p_connected = False, p_ban = 0,
      p_outgoing = outgoing\<rparr>"

section \<open>Registering for events, sending\<close>

definition Peer_reregister_read :: "os \<Rightarrow> Peer \<Rightarrow> Peer \<times> unit result" where
  "Peer_reregister_read E p =
     (if p_writeable p
      then (p\<lparr>p_writeable := False\<rparr>, map_err error_from_io (os_reregister E (p_pid p)))
      else (p, Ok ()))"

definition Peer_register_read :: "os \<Rightarrow> Peer \<Rightarrow> Peer \<times> unit result" where
  "Peer_register_read E p =
     (case os_register E (p_pid p) of
        Ok _ \<Rightarrow> (p\<lparr>p_writeable := False\<rparr>, Ok ())
      | e \<Rightarrow> (p, map_err error_from_io e))"

definition Peer_reregister_write :: "os \<Rightarrow> Peer \<Rightarrow> Peer \<times> unit result" where
  "Peer_reregister_write E p =
     (if \<not> p_writeable p
      then (p\<lparr>p_writeable := True\<rparr>, map_err error_from_io (os_reregister E (p_pid p)))
      else (p, Ok ()))"

definition Peer_register_write :: "os \<Rightarrow> Peer \<Rightarrow> Peer \<times> unit result" where
  "Peer_register_write E p =
     (case os_register E (p_pid p) of
        Ok _ \<Rightarrow> (p\<lparr>p_writeable := True\<rparr>, Ok ())
      | e \<Rightarrow> (p, map_err error_from_io e))"

text \<open>The receiving end of the channel lives in the peer, so the channel takes every message.\<close>

definition Peer_send :: "os \<Rightarrow> Peer \<Rightarrow> NetworkMessage \<Rightarrow> Peer \<times> unit result" where
  "Peer_send E p msg = Peer_reregister_write E (p\<lparr>p_queue := p_queue p @ [msg]\<rparr>)"

definition Peer_try_receive :: "Peer \<Rightarrow> Peer \<times> NetworkMessage option" where
  "Peer_try_receive p =
     (case p_queue p of [] \<Rightarrow> (p, None) | msg # rest \<Rightarrow> (p\<lparr>p_queue := rest\<rparr>, Some msg))"

section \<open>Writing\<close>

text \<open>
  The attempts to write \<open>iobuf[wrote..len]\<close> (the loop in \<open>event_processor\<close>, lines 698 to 713). An
  entry \<open>Inr n\<close> of the list of attempts says that the socket takes up to \<open>n\<close> bytes, \<open>Inl e\<close> that it fails; an empty
  list that the call is still waiting: \<open>None\<close>. The result holds the peer, whether to fetch the
  next message, the attempts left and the bytes sent so far.
\<close>

type_synonym attempts = "(io_error + nat) list"

fun write_out ::
  "u8 list \<Rightarrow> nat \<Rightarrow> nat \<Rightarrow> Peer \<Rightarrow> attempts \<Rightarrow> u8 list \<Rightarrow> (Peer \<times> bool \<times> attempts \<times> u8 list) result option" where
  "write_out iobuf len wrote p [] sent = None"
| "write_out iobuf len wrote p (Inr n # ws) sent =
     (let wlen = min n (len - wrote) in
      if wlen = 0 then Some (Ok (p, False, ws, sent))
      else
        (case obind (Buffer_advance (p_write_buffer p) wlen) (\<lambda>(wb, _). Buffer_commit wb) of
           Ok wb \<Rightarrow>
             let p = p\<lparr>p_write_buffer := wb\<rparr>;
                 sent = sent @ take wlen (drop wrote iobuf);
                 wrote = wrote + wlen
             in if wrote = len then Some (Ok (p, True, ws, sent)) else write_out iobuf len wrote p ws sent
         | Err e \<Rightarrow> Some (Err e)
         | Panicked \<Rightarrow> Some Panicked))"
| "write_out iobuf len wrote p (Inl e # ws) sent = Some (Ok (p, True, ws, sent))"

text \<open>
  The loop around it (lines 690 to 732): what is in the write buffer goes out first, then the next
  message is serialised into it; with nothing left the peer is registered for reading only.
  The result holds the peer, the bytes sent and the outcome.
\<close>

partial_function (option) write_loop ::
  "BitcoinP2PConfig \<Rightarrow> (RawNetworkMessage \<Rightarrow> u8 list) \<Rightarrow> os \<Rightarrow> u8 list \<Rightarrow> Peer \<Rightarrow> attempts \<Rightarrow> u8 list \<Rightarrow>
   (Peer \<times> u8 list \<times> unit result) option" where
  "write_loop cfg ser E iobuf p ws sent =
     (case (case Buffer_read_ahead (p_write_buffer p) iobuf of
              Ok (len, iobuf) \<Rightarrow>
                if 0 < len then write_out iobuf len 0 p ws sent else Some (Ok (p, True, ws, sent))
            | Err _ \<Rightarrow> Some (Ok (p, True, ws, sent))
            | Panicked \<Rightarrow> Some Panicked) of
        None \<Rightarrow> None
      | Some (Err e) \<Rightarrow> Some (p, sent, Err e)
      | Some Panicked \<Rightarrow> Some (p, sent, Panicked)
      | Some (Ok (p, get_next, ws, sent)) \<Rightarrow>
          if get_next then
            (case Peer_try_receive p of
               (p, Some msg) \<Rightarrow>
                 write_loop cfg ser E iobuf
                   (p\<lparr>p_write_buffer := BitcoinP2PConfig_encode ser (BitcoinP2PConfig_wrap cfg msg) (p_write_buffer p)\<rparr>)
                   ws sent
             | (p, None) \<Rightarrow> (case Peer_reregister_read E p of (p, r) \<Rightarrow> Some (p, sent, r)))
          else write_loop cfg ser E iobuf p ws sent)"

declare write_loop.simps [code]

section \<open>The handshake\<close>

text \<open>What the handler collects while it takes messages from the read buffer.\<close>

record rstate =
  r_peer :: Peer
  r_incoming :: "RawNetworkMessage list"
  r_disconnect :: bool
  r_ban :: bool
  r_handshake :: bool
  r_address :: "SocketAddr option"

text \<open>Outcome of a step of the loop: \<open>Ok True\<close> to go on, \<open>Ok False\<close> for \<open>break\<close>.\<close>

definition reject :: "bool \<Rightarrow> rstate \<Rightarrow> rstate \<times> bool result" where
  "reject ban s = (s\<lparr>r_disconnect := True, r_ban := r_ban s \<or> ban\<rparr>, Ok False)"

text \<open>Accepting a version message: lines 795 to 818.\<close>

definition accept_version ::
  "BitcoinP2PConfig \<Rightarrow> os \<Rightarrow> VersionCarrier \<Rightarrow> rstate \<Rightarrow> rstate \<times> bool result" where
  "accept_version cfg E version s =
     (let greet =
        (if \<not> p_outgoing (r_peer s)
         then (case os_peer_addr E (p_pid (r_peer s)) of
                 Ok addr \<Rightarrow>
                   (case Peer_send E (r_peer s) (BitcoinP2PConfig_version cfg (os_now E) addr (vc_version version)) of
                      (p, Ok _) \<Rightarrow> (s\<lparr>r_peer := p\<rparr>, Ok True)
                    | (p, Err e) \<Rightarrow> (s\<lparr>r_peer := p\<rparr>, Err e)
                    | (p, Panicked) \<Rightarrow> (s\<lparr>r_peer := p\<rparr>, Panicked))
               | Err e \<Rightarrow> (s, Err (error_from_io e))
               | Panicked \<Rightarrow> (s, Panicked))
         else if vc_start_height version < BitcoinP2PConfig_get_height cfg then reject False s
         else (s, Ok True))
      in case greet of
           (s, Ok go_on) \<Rightarrow>
             if \<not> go_on then (s, Ok False) else
             (case Peer_send E (r_peer s) (BitcoinP2PConfig_verack cfg) of
                (p, Ok _) \<Rightarrow>
                  let vm = version\<lparr>vc_version := min (vc_version version) (BitcoinP2PConfig_max_protocol_version cfg)\<rparr>
                  in (s\<lparr>r_peer := p\<lparr>p_version := Some vm\<rparr>\<rparr>, Ok True)
              | (p, Err e) \<Rightarrow> (s\<lparr>r_peer := p\<rparr>, Err e)
              | (p, Panicked) \<Rightarrow> (s\<lparr>r_peer := p\<rparr>, Panicked))
         | other \<Rightarrow> other)"

text \<open>A message before the handshake is complete: lines 774 to 837.\<close>

definition handshake_message ::
  "BitcoinP2PConfig \<Rightarrow> os \<Rightarrow> u64 \<Rightarrow> NetworkMessage \<Rightarrow> rstate \<Rightarrow> rstate \<times> bool result" where
  "handshake_message cfg E needed_services msg s =
     (case is_version msg of
        Some version \<Rightarrow>
          if p_version (r_peer s) \<noteq> None then reject True s
          else if vc_nonce version = BitcoinP2PConfig_nonce cfg then reject True s
          else if vc_version version < BitcoinP2PConfig_min_protocol_version cfg \<or>
                  needed_services AND vc_services version \<noteq> needed_services then reject False s
          else accept_version cfg E version s
      | None \<Rightarrow>
          if is_verack msg then
            if p_got_verack (r_peer s) then reject True s
            else (s\<lparr>r_peer := (r_peer s)\<lparr>p_got_verack := True\<rparr>\<rparr>, Ok True)
          else reject True s)"

text \<open>Lines 838 to 846: both messages have arrived.\<close>

definition complete_handshake :: "os \<Rightarrow> rstate \<Rightarrow> rstate" where
  "complete_handshake E s =
     (if p_version (r_peer s) \<noteq> None \<and> p_got_verack (r_peer s)
      then s\<lparr>r_peer := (r_peer s)\<lparr>p_connected := True\<rparr>, r_handshake := True,
             r_address := (case os_peer_addr E (p_pid (r_peer s)) of Ok addr \<Rightarrow> Some addr | _ \<Rightarrow> None)\<rparr>
      else s)"

text \<open>The body of the loop over the decoded messages: lines 765 to 855.\<close>

definition on_message ::
  "BitcoinP2PConfig \<Rightarrow> os \<Rightarrow> u64 \<Rightarrow> RawNetworkMessage \<Rightarrow> rstate \<Rightarrow> rstate \<times> bool result" where
  "on_message cfg E needed_services msg s =
     (if p_connected (r_peer s) then (s\<lparr>r_incoming := r_incoming s @ [msg]\<rparr>, Ok True)
      else if \<not> (p_version (r_peer s) \<noteq> None \<and> p_got_verack (r_peer s)) then
        (case BitcoinP2PConfig_unwrap cfg msg of
           Ok msg \<Rightarrow>
             (case handshake_message cfg E needed_services msg s of
                (s, Ok go_on) \<Rightarrow> if go_on then (complete_handshake E s, Ok True) else (s, Ok False)
              | other \<Rightarrow> other)
         | Err _ \<Rightarrow> reject True s
         | Panicked \<Rightarrow> (s, Panicked))
      else (s, Ok True))"

text \<open>The loop itself: it ends when the buffer holds no further complete message.\<close>

partial_function (option) receive_loop ::
  "BitcoinP2PConfig \<Rightarrow> RawNetworkMessage decoder \<Rightarrow> os \<Rightarrow> u64 \<Rightarrow> rstate \<Rightarrow> (rstate \<times> unit result) option" where
  "receive_loop cfg dec E needed_services s =
     (case BitcoinP2PConfig_decode dec (p_read_buffer (r_peer s)) of
        Err e \<Rightarrow> Some (s, Err e)
      | Panicked \<Rightarrow> Some (s, Panicked)
      | Ok (buffer, r) \<Rightarrow>
          let s = s\<lparr>r_peer := (r_peer s)\<lparr>p_read_buffer := buffer\<rparr>\<rparr> in
          (case r of
             Err e \<Rightarrow> Some (s, Err (error_from_io e))
           | Panicked \<Rightarrow> Some (s, Panicked)
           | Ok None \<Rightarrow> Some (s, Ok ())
           | Ok (Some msg) \<Rightarrow>
               (case on_message cfg E needed_services msg s of
                  (s, Ok go_on) \<Rightarrow> if go_on then receive_loop cfg dec E needed_services s else Some (s, Ok ())
                | (s, Err e) \<Rightarrow> Some (s, Err e)
                | (s, Panicked) \<Rightarrow> Some (s, Panicked))))"

declare receive_loop.simps [code]

text \<open>
  A readable socket: lines 755 to 861. The argument is what \<open>stream.read\<close> gives: the bytes read,
  or an error.
\<close>

definition on_readable ::
  "BitcoinP2PConfig \<Rightarrow> RawNetworkMessage decoder \<Rightarrow> os \<Rightarrow> u64 \<Rightarrow> Peer \<Rightarrow> (io_error, u8 list) outcome \<Rightarrow>
   (rstate \<times> unit result) option" where
  "on_readable cfg dec E needed_services p data =
     (let s = \<lparr>r_peer = p, r_incoming = [], r_disconnect = False, r_ban = False, r_handshake = False,
               r_address = None\<rparr>
      in case data of
           Ok bytes \<Rightarrow>
             receive_loop cfg dec E needed_services
               (s\<lparr>r_disconnect := (length bytes = 0),
                  r_peer := p\<lparr>p_read_buffer := Buffer_write_all (p_read_buffer p) bytes\<rparr>\<rparr>)
         | Err _ \<Rightarrow> Some (s\<lparr>r_disconnect := True\<rparr>, Ok ())
         | Panicked \<Rightarrow> Some (s, Panicked))"

section \<open>Invariant of a peer\<close>

text \<open>
  Its buffers are valid; it counts as connected exactly when both messages of the handshake have
  arrived; and a version that was accepted offers the services needed, is not this node's own
  and is neither older than the oldest protocol supported nor newer than this node's.
\<close>

definition version_ok :: "BitcoinP2PConfig \<Rightarrow> u64 \<Rightarrow> VersionCarrier \<Rightarrow> bool" where
  "version_ok cfg needed_services v \<longleftrightarrow>
     needed_services AND vc_services v = needed_services \<and> vc_nonce v \<noteq> cfg_nonce cfg \<and>
     min 70001 (cfg_max_protocol_version cfg) \<le> vc_version v \<and> vc_version v \<le> cfg_max_protocol_version cfg"

definition peer_ok :: "BitcoinP2PConfig \<Rightarrow> u64 \<Rightarrow> Peer \<Rightarrow> bool" where
  "peer_ok cfg needed_services p \<longleftrightarrow>
     buf_inv (p_read_buffer p) \<and> buf_inv (p_write_buffer p) \<and>
     (p_connected p \<longleftrightarrow> p_version p \<noteq> None \<and> p_got_verack p) \<and>
     (\<forall>v. p_version p = Some v \<longrightarrow> version_ok cfg needed_services v)"

text \<open>Equality of peers but for the outgoing queue and the registration.\<close>

definition same_but_queue :: "Peer \<Rightarrow> Peer \<Rightarrow> bool" where
  "same_but_queue p q \<longleftrightarrow> p\<lparr>p_queue := [], p_writeable := False\<rparr> = q\<lparr>p_queue := [], p_writeable := False\<rparr>"

lemma same_but_queue_refl [simp]: "same_but_queue p p"
  by (simp add: same_but_queue_def)

lemma same_but_queue_trans: "same_but_queue p q \<Longrightarrow> same_but_queue q t \<Longrightarrow> same_but_queue p t"
  by (simp add: same_but_queue_def)

lemma same_but_queueD [frame]:
  assumes "same_but_queue p q"
  shows "p_pid q = p_pid p" "p_read_buffer q = p_read_buffer p" "p_write_buffer q = p_write_buffer p"
    "p_got_verack q = p_got_verack p" "p_version q = p_version p" "p_connected q = p_connected p"
    "p_ban q = p_ban p" "p_outgoing q = p_outgoing p"
  using assms unfolding same_but_queue_def by (cases p; cases q; simp)+

lemma same_but_queue_version:
  "same_but_queue p q \<Longrightarrow> same_but_queue (p\<lparr>p_version := v\<rparr>) (q\<lparr>p_version := v\<rparr>)"
  unfolding same_but_queue_def by (cases p; cases q) simp

lemma Peer_send_spec:
  assumes "Peer_send E p m = (q, r)"
  shows "same_but_queue p q \<and> p_queue q = p_queue p @ [m] \<and> p_writeable q"
  using assms
  by (auto simp: Peer_send_def Peer_reregister_write_def same_but_queue_def split: if_splits)

text \<open>Accepting a version either leaves it to be or stores it with the verack queued.\<close>

lemma accept_version_cases:
  assumes "accept_version cfg E v s = (s', r)"
  shows "(r = Ok True \<and> same_but_queue ((r_peer s)
         \<lparr>p_version := Some (v\<lparr>vc_version := min (vc_version v) (cfg_max_protocol_version cfg)\<rparr>)\<rparr>) (r_peer s') \<and>
       r_disconnect s' = r_disconnect s \<and> r_ban s' = r_ban s \<or>
      r \<noteq> Ok True \<and> same_but_queue (r_peer s) (r_peer s') \<and> (r = Ok False \<longrightarrow> r_disconnect s')) \<and>
     r_incoming s' = r_incoming s \<and> r_handshake s' = r_handshake s"
  using assms
  by (auto simp: accept_version_def reject_def config_defs Let_def
      split: if_splits prod.splits outcome.splits
      dest!: Peer_send_spec intro!: same_but_queue_version intro: same_but_queue_trans)

lemma version_ok_reduced:
  assumes "70001 \<le> vc_version v" "needed AND vc_services v = needed" "vc_nonce v \<noteq> cfg_nonce cfg"
  shows "version_ok cfg needed (v\<lparr>vc_version := min (vc_version v) (cfg_max_protocol_version cfg)\<rparr>)"
  using assms by (auto simp: version_ok_def min_def)

lemma peer_ok_same:
  "same_but_queue p q \<Longrightarrow> peer_ok cfg needed q \<longleftrightarrow> peer_ok cfg needed p"
  by (simp add: peer_ok_def frame)

lemma peer_ok_buffer:
  "peer_ok cfg needed p \<Longrightarrow> buf_inv b \<Longrightarrow> peer_ok cfg needed (p\<lparr>p_read_buffer := b\<rparr>)"
  by (simp add: peer_ok_def)

text \<open>One message of the handshake keeps the invariant once the completion is noticed.\<close>

lemma handshake_message_cases:
  assumes "handshake_message cfg E needed m s = (s', r)" "peer_ok cfg needed (r_peer s)"
    "\<not> p_connected (r_peer s)"
  shows "(r = Ok True \<and> (\<forall>v. p_version (r_peer s') = Some v \<longrightarrow> version_ok cfg needed v) \<and>
       r_disconnect s' = r_disconnect s \<and> r_ban s' = r_ban s \<or>
      r \<noteq> Ok True \<and> same_but_queue (r_peer s) (r_peer s') \<and> (r = Ok False \<longrightarrow> r_disconnect s')) \<and>
    p_pid (r_peer s') = p_pid (r_peer s) \<and> p_read_buffer (r_peer s') = p_read_buffer (r_peer s) \<and>
    p_write_buffer (r_peer s') = p_write_buffer (r_peer s) \<and> p_connected (r_peer s') = p_connected (r_peer s) \<and>
    r_incoming s' = r_incoming s \<and> r_handshake s' = r_handshake s"
proof (cases "is_version m")
  case None
  then show ?thesis using assms by (auto simp: handshake_message_def reject_def peer_ok_def split: if_splits)
next
  case (Some v)
  show ?thesis
  proof (cases "p_version (r_peer s) = None \<and> vc_nonce v \<noteq> cfg_nonce cfg \<and> \<not> vc_version v < 70001 \<and>
      needed AND vc_services v = needed")
    case False
    then show ?thesis
      using assms(1) Some by (auto simp: handshake_message_def reject_def config_defs split: if_splits)
  next
    case True
    then have acc: "accept_version cfg E v s = (s', r)"
      using assms(1) Some by (simp add: handshake_message_def config_defs)
    have "version_ok cfg needed (v\<lparr>vc_version := min (vc_version v) (cfg_max_protocol_version cfg)\<rparr>)"
      using True by (intro version_ok_reduced) auto
    then show ?thesis using accept_version_cases [OF acc] by (auto simp: frame)
  qed
qed

lemma on_message_spec:
  assumes "on_message cfg E needed m s = (s', r)" "peer_ok cfg needed (r_peer s)"
  shows "peer_ok cfg needed (r_peer s')" "p_pid (r_peer s') = p_pid (r_peer s)"
    "p_connected (r_peer s) \<Longrightarrow> p_connected (r_peer s')"
    "r_incoming s' = (if p_connected (r_peer s) then r_incoming s @ [m] else r_incoming s)"
    "r_handshake s' \<longleftrightarrow> r_handshake s \<or> \<not> p_connected (r_peer s) \<and> p_connected (r_peer s')"
    "r = Ok False \<Longrightarrow> r_disconnect s'"
proof -
  have *: "peer_ok cfg needed (r_peer s') \<and> p_pid (r_peer s') = p_pid (r_peer s) \<and>
      (r_handshake s' \<longleftrightarrow> r_handshake s \<or> p_connected (r_peer s')) \<and>
      r_incoming s' = r_incoming s \<and> (r = Ok False \<longrightarrow> r_disconnect s')" if nc: "\<not> p_connected (r_peer s)"
  proof -
    obtain s1 r1 where h: "handshake_message cfg E needed (raw_payload m) s = (s1, r1)"
      by (cases "handshake_message cfg E needed (raw_payload m) s")
    have b: "\<not> (p_version (r_peer s) \<noteq> None \<and> p_got_verack (r_peer s))" using nc assms(2) by (simp add: peer_ok_def)
    have e: "(s', r) = (if r1 = Ok True then (complete_handshake E s1, Ok True) else (s1, r1))"
      using assms(1) nc b h
      by (auto simp: on_message_def BitcoinP2PConfig_unwrap_def split: outcome.splits if_splits)
    note H = handshake_message_cases [OF h assms(2) nc]
    show ?thesis
    proof (cases "r1 = Ok True")
      case True
      then show ?thesis using e H nc assms(2) by (auto simp: complete_handshake_def peer_ok_def)
    next
      case False
      then show ?thesis using e H nc assms(2) peer_ok_same by (auto simp: frame)
    qed
  qed
  have c: "s' = s\<lparr>r_incoming := r_incoming s @ [m]\<rparr> \<and> r = Ok True" if "p_connected (r_peer s)"
    using assms(1) that by (simp add: on_message_def)
  show "peer_ok cfg needed (r_peer s')" "p_pid (r_peer s') = p_pid (r_peer s)"
    "p_connected (r_peer s) \<Longrightarrow> p_connected (r_peer s')"
    "r_incoming s' = (if p_connected (r_peer s) then r_incoming s @ [m] else r_incoming s)"
    "r_handshake s' \<longleftrightarrow> r_handshake s \<or> \<not> p_connected (r_peer s) \<and> p_connected (r_peer s')"
    "r = Ok False \<Longrightarrow> r_disconnect s'"
    using * c assms(2) by (cases "p_connected (r_peer s)"; simp)+
qed

section \<open>The loop over the messages\<close>

text \<open>Decoding never panics and keeps the buffer valid.\<close>

lemma decode_spec:
  assumes "buf_inv b"
  shows "\<exists>b' r. BitcoinP2PConfig_decode dec b = Ok (b', r) \<and> buf_inv b' \<or> BitcoinP2PConfig_decode dec b = Panicked"
proof -
  obtain b1 where b1: "run_reader Buffer_read dec b = Ok (b1, fst (run_list dec (unread b)))" "buf_inv b1"
    using net.run_reader_list [OF assms, of dec] by blast
  obtain b2 where "Buffer_commit b1 = Ok b2" "buf_inv b2" using commit_spec [OF b1(2)] by blast
  then show ?thesis
    using b1 rollback_spec(1) [OF b1(2)]
    by (cases "fst (run_list dec (unread b))")
      (auto simp: BitcoinP2PConfig_decode_def decode_with_def split: option.splits)
qed

text \<open>A predicate on the state that decoding and every message keep holds at the end.\<close>

lemma receive_loop_invariant:
  assumes run: "receive_loop cfg dec E needed s = Some (s', r)" and I: "I s"
    and buf: "\<And>s b x. I s \<Longrightarrow> BitcoinP2PConfig_decode dec (p_read_buffer (r_peer s)) = Ok (b, x) \<Longrightarrow>
      I (s\<lparr>r_peer := (r_peer s)\<lparr>p_read_buffer := b\<rparr>\<rparr>)"
    and msg: "\<And>s m t q. I s \<Longrightarrow> on_message cfg E needed m s = (t, q) \<Longrightarrow> I t"
  shows "I s'"
proof -
  have "cfg = cfg \<longrightarrow> dec = dec \<longrightarrow> E = E \<longrightarrow> needed = needed \<longrightarrow> I s \<longrightarrow> I (fst (s', r))"
  proof (rule receive_loop.raw_induct [where P = "\<lambda>c d e n s z. c = cfg \<longrightarrow> d = dec \<longrightarrow> e = E \<longrightarrow> n = needed \<longrightarrow>
      I s \<longrightarrow> I (fst z)", OF _ run], intro impI, goal_cases)
    case (1 rl c d e n s y)
    let ?b = "\<lambda>b. s\<lparr>r_peer := (r_peer s)\<lparr>p_read_buffer := b\<rparr>\<rparr>"
    note body = 1(2) [unfolded 1(3-6)]
    note IH = 1(1) [of cfg dec E needed]
    show ?case
    proof (cases "BitcoinP2PConfig_decode dec (p_read_buffer (r_peer s))")
      case (Ok w)
      obtain b x where w: "w = (b, x)" by (cases w)
      have Ib: "I (?b b)" using buf [OF 1(7)] Ok w by blast
      show ?thesis
      proof (cases "\<exists>m. x = Ok (Some m)")
        case True
        then obtain m where m: "x = Ok (Some m)" by blast
        obtain t q where t: "on_message cfg E needed m (?b b) = (t, q)" by (cases "on_message cfg E needed m (?b b)")
        have It: "I t" by (rule msg [OF Ib t])
        show ?thesis
          using body Ok w m t It IH [of t y] by (auto simp: Let_def split: outcome.splits if_splits)
      next
        case False
        then show ?thesis using body Ok w Ib by (auto simp: Let_def split: outcome.splits option.splits)
      qed
    qed (use body 1(7) in auto)
  qed
  then show ?thesis using I by simp
qed

lemma receive_loop_spec:
  assumes run: "receive_loop cfg dec E needed s = Some (s', r)" and ok: "peer_ok cfg needed (r_peer s)"
    and inc: "r_incoming s = [] \<or> p_connected (r_peer s)"
  shows "peer_ok cfg needed (r_peer s') \<and> p_pid (r_peer s') = p_pid (r_peer s) \<and>
    (p_connected (r_peer s) \<longrightarrow> p_connected (r_peer s')) \<and>
    (r_incoming s' = [] \<or> p_connected (r_peer s')) \<and>
    (r_handshake s' \<longleftrightarrow> r_handshake s \<or> \<not> p_connected (r_peer s) \<and> p_connected (r_peer s'))"
proof (rule receive_loop_invariant [OF run, where I = "\<lambda>t. peer_ok cfg needed (r_peer t) \<and>
    p_pid (r_peer t) = p_pid (r_peer s) \<and> (p_connected (r_peer s) \<longrightarrow> p_connected (r_peer t)) \<and>
    (r_incoming t = [] \<or> p_connected (r_peer t)) \<and>
    (r_handshake t \<longleftrightarrow> r_handshake s \<or> \<not> p_connected (r_peer s) \<and> p_connected (r_peer t))"], goal_cases)
  case 1
  then show ?case using ok inc by simp
next
  case (2 t b x)
  then have "buf_inv b" using decode_spec [of "p_read_buffer (r_peer t)" dec] by (auto simp: peer_ok_def)
  then show ?case using 2 peer_ok_buffer by simp
next
  case (3 t m u q)
  then show ?case using on_message_spec [of cfg E needed m t u q] by (auto split: if_splits)
qed

end
