(* ===== verification/P2P_Streams.thy ===== *)
theory P2P_Streams
  imports P2P_Peer
begin

text \<open>
  The two byte streams of a peer (\<open>src/src/p2p.rs\<close>, the reading and the writing half of
  \<open>event_processor\<close>): whatever pieces the socket delivers, the messages come out as they were
  sent; whatever pieces the socket takes, the bytes go out in order and none is lost.
\<close>

section \<open>Reassembling the stream\<close>

text \<open>The beginning of a message, not all of it.\<close>

definition incomplete :: "'e set \<Rightarrow> ('e \<Rightarrow> u8 list) \<Rightarrow> u8 list \<Rightarrow> bool" where
  "incomplete M ser xs \<longleftrightarrow> (\<exists>m\<in>M. \<exists>ys. ser m = xs @ ys \<and> ys \<noteq> [])"

definition holds_bytes :: "Buffer \<Rightarrow> u8 list \<Rightarrow> bool" where
  "holds_bytes b xs \<longleftrightarrow> buf_inv b \<and> unread b = xs \<and> uncommitted b = xs"

text \<open>A sequence of reads from the socket, with the messages they yield.\<close>

fun read_all ::
  "BitcoinP2PConfig \<Rightarrow> RawNetworkMessage decoder \<Rightarrow> os \<Rightarrow> u64 \<Rightarrow> Peer \<Rightarrow> u8 list list \<Rightarrow>
   (Peer \<times> RawNetworkMessage list) option" where
  "read_all cfg dec E needed p [] = Some (p, [])"
| "read_all cfg dec E needed p (c # cs) =
     (case on_readable cfg dec E needed p (Ok c) of
        Some (s, Ok _) \<Rightarrow>
          if r_disconnect s then None
          else map_option (\<lambda>(q, ms). (q, r_incoming s @ ms)) (read_all cfg dec E needed (r_peer s) cs)
      | _ \<Rightarrow> None)"

lemma incomplete_prefix: "incomplete M ser (xs @ ys) \<Longrightarrow> incomplete M ser xs"
  unfolding incomplete_def by auto

lemma prefix_of_messages:
  assumes "zs @ ws = concat (map ser ms) @ part" "incomplete M ser part" "set ms \<subseteq> M"
  shows "\<exists>ms1 ms2 part1. ms = ms1 @ ms2 \<and> zs = concat (map ser ms1) @ part1 \<and> incomplete M ser part1 \<and>
    part1 @ ws = concat (map ser ms2) @ part"
  using assms
proof (induction ms arbitrary: zs)
  case Nil
  then show ?case using incomplete_prefix [of M ser zs ws] by (intro exI [of _ "[]"] exI [of _ zs]) auto
next
  case (Cons m ms)
  have eq: "zs @ ws = ser m @ (concat (map ser ms) @ part)" using Cons.prems(1) by simp
  then obtain us where "zs = ser m @ us \<and> us @ ws = concat (map ser ms) @ part \<or>
      zs @ us = ser m \<and> ws = us @ (concat (map ser ms) @ part)"
    by (auto simp: append_eq_append_conv2)
  then show ?case
  proof (elim disjE conjE)
    assume us: "zs = ser m @ us" "us @ ws = concat (map ser ms) @ part"
    obtain ms1 ms2 part1 where I: "ms = ms1 @ ms2" "us = concat (map ser ms1) @ part1" "incomplete M ser part1"
      "part1 @ ws = concat (map ser ms2) @ part"
      using Cons.IH [OF us(2) Cons.prems(2)] Cons.prems(3) by auto
    then show ?thesis using us by (intro exI [of _ "m # ms1"] exI [of _ ms2] exI [of _ part1]) auto
  next
    assume us: "zs @ us = ser m" "ws = us @ (concat (map ser ms) @ part)"
    show ?thesis
    proof (cases "us = []")
      case True
      obtain ms1 ms2 part1 where I: "ms = ms1 @ ms2" "[] = concat (map ser ms1) @ part1" "incomplete M ser part1"
        "part1 @ ws = concat (map ser ms2) @ part"
        using Cons.IH [of "[]"] us True Cons.prems(2,3) by auto
      then show ?thesis using us True
        by (intro exI [of _ "m # ms1"] exI [of _ ms2] exI [of _ part1]) auto
    next
      case False
      have "incomplete M ser zs" unfolding incomplete_def using us(1) False Cons.prems(3)
        by (intro bexI [of _ m] exI [of _ us]) auto
      then show ?thesis using Cons.prems(1) by (intro exI [of _ "[]"] exI [of _ "m # ms"] exI [of _ zs]) simp
    qed
  qed
qed

lemma decode_complete:
  assumes "codec_ok M ser dec" "m \<in> M" "holds_bytes b (ser m @ ys)"
  shows "\<exists>b'. BitcoinP2PConfig_decode dec b = Ok (b', Ok (Some m)) \<and> holds_bytes b' ys"
  using net.decode_message [OF assms(1,2), of b ys] assms(3)
  unfolding holds_bytes_def BitcoinP2PConfig_decode_def by blast

lemma decode_partial:
  assumes "codec_ok M ser dec" "holds_bytes b part" "incomplete M ser part"
  shows "\<exists>b'. BitcoinP2PConfig_decode dec b = Ok (b', Ok None) \<and> holds_bytes b' part"
proof -
  obtain m ys where m: "m \<in> M" "ser m = unread b @ ys" "ys \<noteq> []"
    using assms(2,3) unfolding holds_bytes_def incomplete_def by blast
  show ?thesis
    using net.decode_incomplete [OF assms(1) m(1) _ _ m(2,3)] assms(2)
    unfolding holds_bytes_def BitcoinP2PConfig_decode_def by metis
qed

lemma receive_connected:
  assumes codec: "codec_ok M ser dec" and part: "incomplete M ser part"
  shows "p_connected (r_peer s) \<Longrightarrow> holds_bytes (p_read_buffer (r_peer s)) (concat (map ser ms) @ part) \<Longrightarrow>
    set ms \<subseteq> M \<Longrightarrow>
    \<exists>b. receive_loop cfg dec E needed s = Some (s\<lparr>r_peer := (r_peer s)\<lparr>p_read_buffer := b\<rparr>,
      r_incoming := r_incoming s @ ms\<rparr>, Ok ()) \<and> holds_bytes b part"
proof (induction ms arbitrary: s)
  case Nil
  obtain b where "BitcoinP2PConfig_decode dec (p_read_buffer (r_peer s)) = Ok (b, Ok None)" "holds_bytes b part"
    using decode_partial [OF codec _ part] Nil.prems(2) by auto
  then show ?case by (intro exI [of _ b]) (simp add: receive_loop.simps)
next
  case (Cons m ms)
  obtain b where b: "BitcoinP2PConfig_decode dec (p_read_buffer (r_peer s)) = Ok (b, Ok (Some m))"
    "holds_bytes b (concat (map ser ms) @ part)"
    using decode_complete [OF codec, of m _ "concat (map ser ms) @ part"] Cons.prems(2,3) by auto
  define t where "t = s\<lparr>r_peer := (r_peer s)\<lparr>p_read_buffer := b\<rparr>, r_incoming := r_incoming s @ [m]\<rparr>"
  have "receive_loop cfg dec E needed s = receive_loop cfg dec E needed t"
    using b(1) Cons.prems(1) by (simp add: receive_loop.simps [of _ _ _ _ s] on_message_def t_def)
  then show ?case
    using Cons.IH [of t] Cons.prems(1,3) b(2) by (auto simp: t_def)
qed

text \<open>The beginning of a message holds no message.\<close>

lemma no_message_left:
  assumes "codec_ok M ser dec" "incomplete M ser part0" "part0 = concat (map ser ms) @ part" "set ms \<subseteq> M"
  shows "ms = []"
proof (rule ccontr)
  assume "ms \<noteq> []"
  then obtain k ks where ms: "ms = k # ks" by (cases ms) auto
  then have "run_list dec part0 = (Ok k, concat (map ser ks) @ part)" using assms(1,3,4) by (simp add: codec_ok_def)
  moreover obtain e rest where "run_list dec part0 = (Err e, rest)"
    using assms(1,2) unfolding codec_ok_def incomplete_def by blast
  ultimately show False by simp
qed

lemma read_all_messages:
  assumes codec: "codec_ok M ser dec"
  shows "p_connected p \<Longrightarrow> holds_bytes (p_read_buffer p) part0 \<Longrightarrow>
    part0 @ concat cs = concat (map ser ms) @ part \<Longrightarrow> incomplete M ser part \<Longrightarrow> [] \<notin> set cs \<Longrightarrow>
    incomplete M ser part0 \<Longrightarrow> set ms \<subseteq> M \<Longrightarrow>
    \<exists>q. read_all cfg dec E needed p cs = Some (q, ms) \<and> holds_bytes (p_read_buffer q) part \<and> p_connected q"
proof (induction cs arbitrary: p part0 ms)
  case Nil
  have "ms = []" by (rule no_message_left [OF codec Nil.prems(6) _ Nil.prems(7)]) (use Nil.prems(3) in simp)
  then show ?case using Nil by simp
next
  case (Cons c cs)
  have "(part0 @ c) @ concat cs = concat (map ser ms) @ part" using Cons.prems(3) by simp
  then obtain ms1 ms2 part1 where S: "ms = ms1 @ ms2" "part0 @ c = concat (map ser ms1) @ part1" "incomplete M ser part1"
    "part1 @ concat cs = concat (map ser ms2) @ part"
    using prefix_of_messages [OF _ Cons.prems(4,7)] by blast
  define p1 where "p1 = p\<lparr>p_read_buffer := Buffer_write_all (p_read_buffer p) c\<rparr>"
  have h: "holds_bytes (p_read_buffer p1) (concat (map ser ms1) @ part1)"
    using Cons.prems(2) net.write_law [of "p_read_buffer p" c] S(2) by (simp add: holds_bytes_def p1_def)
  define s where "s = \<lparr>r_peer = p1, r_incoming = [], r_disconnect = False, r_ban = False, r_handshake = False, r_address = None\<rparr>"
  have "c \<noteq> []" using Cons.prems(5) by auto
  then have "on_readable cfg dec E needed p (Ok c) = receive_loop cfg dec E needed s"
    by (simp add: on_readable_def s_def p1_def)
  moreover obtain b where b: "receive_loop cfg dec E needed s = Some (s\<lparr>r_peer := (r_peer s)\<lparr>p_read_buffer := b\<rparr>,
      r_incoming := r_incoming s @ ms1\<rparr>, Ok ())" "holds_bytes b part1"
    using receive_connected [OF codec S(3), of s ms1 cfg E needed] h Cons.prems(1,7) S(1) by (auto simp: s_def p1_def)
  moreover obtain q where "read_all cfg dec E needed (p1\<lparr>p_read_buffer := b\<rparr>) cs = Some (q, ms2)"
    "holds_bytes (p_read_buffer q) part" "p_connected q"
    using Cons.IH [of "p1\<lparr>p_read_buffer := b\<rparr>" part1 ms2] b(2) S(1,3,4) Cons.prems(1,4,5,7) by (auto simp: p1_def)
  ultimately show ?case using S(1) by (simp add: s_def)
qed

section \<open>Writing loses nothing\<close>

text \<open>The bytes a peer still has to send: those in the write buffer, then the queued messages.\<close>

definition to_send :: "BitcoinP2PConfig \<Rightarrow> (RawNetworkMessage \<Rightarrow> u8 list) \<Rightarrow> Peer \<Rightarrow> u8 list" where
  "to_send cfg ser p =
     unread (p_write_buffer p) @ concat (map (\<lambda>m. ser (BitcoinP2PConfig_wrap cfg m)) (p_queue p))"

lemma advance_commit:
  assumes "buf_inv b" "0 < n" "n \<le> length (unread b)"
  shows "\<exists>b'. obind (Buffer_advance b n) (\<lambda>(wb, _). Buffer_commit wb) = Ok b' \<and> buf_inv b' \<and>
    unread b' = drop n (unread b)"
proof -
  obtain b1 where b1: "Buffer_advance b n = Ok (b1, min n (length (unread b)))" "buf_inv b1" "unread b1 = drop n (unread b)"
    using advance_spec [OF assms(1), of n] assms(2,3) by (cases "unread b = []") auto
  then show ?thesis using commit_spec [OF b1(2)] by auto
qed

lemma write_out_spec:
  assumes "write_out iobuf len wrote p ws sent = Some z" "buf_inv (p_write_buffer p)" "wrote \<le> len"
    "take (len - wrote) (drop wrote iobuf) = take (len - wrote) (unread (p_write_buffer p))"
    "len - wrote \<le> length (unread (p_write_buffer p))"
  shows "\<exists>b g ws' sent'. z = Ok (p\<lparr>p_write_buffer := b\<rparr>, g, ws', sent') \<and> buf_inv b \<and>
    sent' @ unread b = sent @ unread (p_write_buffer p)"
  using assms
proof (induction iobuf len wrote p ws sent rule: write_out.induct)
  case (2 iobuf len wrote p n ws sent)
  define wlen where "wlen = min n (len - wrote)"
  show ?case
  proof (cases "wlen = 0")
    case True
    then show ?thesis using 2(2,3) by (intro exI [of _ "p_write_buffer p"]) (auto simp: wlen_def Let_def)
  next
    case False
    have w: "wlen \<le> len - wrote" by (simp add: wlen_def)
    obtain b where b: "obind (Buffer_advance (p_write_buffer p) wlen) (\<lambda>(wb, _). Buffer_commit wb) = Ok b"
      "buf_inv b" "unread b = drop wlen (unread (p_write_buffer p))"
      using advance_commit [OF 2(3), of wlen] False w 2(6) by auto
    define p' where "p' = p\<lparr>p_write_buffer := b\<rparr>"
    define sent1 where "sent1 = sent @ take wlen (drop wrote iobuf)"
    have "take wlen (drop wrote iobuf) = take wlen (unread (p_write_buffer p))"
      using arg_cong [OF 2(5), of "take wlen"] w by (simp add: min_absorb1)
    then have cons: "sent1 @ unread b = sent @ unread (p_write_buffer p)" using b(3) by (simp add: sent1_def)
    have step: "(if wrote + wlen = len then Some (Ok (p', True, ws, sent1)) else write_out iobuf len (wrote + wlen) p' ws sent1) = Some z"
      using 2(2) False unfolding write_out.simps Let_def wlen_def [symmetric] p'_def sent1_def
      by (simp only: if_False b(1) outcome.case)
    show ?thesis
    proof (cases "wrote + wlen = len")
      case True
      then show ?thesis using step b(2) cons by (auto simp: p'_def)
    next
      case more: False
      have rest: "take (len - (wrote + wlen)) (drop (wrote + wlen) iobuf) = take (len - (wrote + wlen)) (unread b)"
        using arg_cong [OF 2(5), of "drop wlen"] b(3) by (simp add: drop_take ac_simps)
      have len': "wrote + wlen \<le> len" "len - (wrote + wlen) \<le> length (unread b)" using w 2(4,6) b(3) by auto
      have "write_out iobuf len (wrote + wlen) p' ws sent1 = Some z" using step more by simp
      from 2(1) [OF wlen_def False b(1) p'_def sent1_def refl more] this b(2) rest len' cons
      show ?thesis by (auto simp: p'_def)
    qed
  qed
next
  case (3 iobuf len wrote p e ws sent)
  then show ?case by (intro exI [of _ "p_write_buffer p"]) auto
qed simp

text \<open>A socket that takes at least a byte at every attempt takes everything.\<close>

definition willing :: "attempts \<Rightarrow> bool" where
  "willing ws \<longleftrightarrow> (\<forall>w\<in>set ws. \<exists>n. w = Inr (Suc n))"

lemma write_out_flush:
  assumes "willing ws" "len - wrote \<le> length ws" "wrote < len" "buf_inv (p_write_buffer p)"
    "len - wrote \<le> length (unread (p_write_buffer p))"
    "take (len - wrote) (drop wrote iobuf) = take (len - wrote) (unread (p_write_buffer p))"
  shows "\<exists>b ws'. write_out iobuf len wrote p ws sent = Some (Ok (p\<lparr>p_write_buffer := b\<rparr>, True, ws',
      sent @ take (len - wrote) (unread (p_write_buffer p)))) \<and> buf_inv b \<and>
    unread b = drop (len - wrote) (unread (p_write_buffer p)) \<and> willing ws' \<and>
    length ws \<le> length ws' + (len - wrote)"
  using assms
proof (induction iobuf len wrote p ws sent rule: write_out.induct)
  case (2 iobuf len wrote p n ws sent)
  define wlen where "wlen = min n (len - wrote)"
  have w: "wlen \<noteq> 0" "wlen \<le> len - wrote" using 2(2,4) by (auto simp: wlen_def willing_def)
  obtain b where b: "obind (Buffer_advance (p_write_buffer p) wlen) (\<lambda>(wb, _). Buffer_commit wb) = Ok b"
    "buf_inv b" "unread b = drop wlen (unread (p_write_buffer p))"
    using advance_commit [OF 2(5), of wlen] w 2(6) by auto
  define p' where "p' = p\<lparr>p_write_buffer := b\<rparr>"
  define sent1 where "sent1 = sent @ take wlen (drop wrote iobuf)"
  have tk: "take wlen (drop wrote iobuf) = take wlen (unread (p_write_buffer p))"
    using arg_cong [OF 2(7), of "take wlen"] w by (simp add: min_absorb1)
  have step: "write_out iobuf len wrote p (Inr n # ws) sent =
      (if wrote + wlen = len then Some (Ok (p', True, ws, sent1)) else write_out iobuf len (wrote + wlen) p' ws sent1)"
    using w(1) unfolding write_out.simps Let_def wlen_def [symmetric] p'_def sent1_def
    by (simp only: if_False b(1) outcome.case)
  have wl: "willing ws" using 2(2) by (simp add: willing_def)
  show ?case
  proof (cases "wrote + wlen = len")
    case True
    then have "len - wrote = wlen" by simp
    then show ?thesis using step True b(2,3) wl tk 2(4) by (auto simp: p'_def sent1_def)
  next
    case more: False
    have rest: "take (len - (wrote + wlen)) (drop (wrote + wlen) iobuf) = take (len - (wrote + wlen)) (unread b)"
      using arg_cong [OF 2(7), of "drop wlen"] b(3) by (simp add: drop_take ac_simps)
    have len': "wrote + wlen < len" "len - (wrote + wlen) \<le> length (unread b)"
      "len - (wrote + wlen) \<le> length ws" using w more 2(3,6) b(3) by auto
    obtain b' ws' where R: "write_out iobuf len (wrote + wlen) p' ws sent1 = Some (Ok (p'\<lparr>p_write_buffer := b'\<rparr>, True, ws',
        sent1 @ take (len - (wrote + wlen)) (unread b)))" "buf_inv b'"
      "unread b' = drop (len - (wrote + wlen)) (unread b)" "willing ws'"
      "length ws \<le> length ws' + (len - (wrote + wlen))"
      using 2(1) [OF wlen_def w(1) b(1) p'_def sent1_def refl more] wl b(2) rest len' by (auto simp: p'_def)
    have sum: "len - wrote = wlen + (len - (wrote + wlen))" using w by simp
    have "sent1 @ take (len - (wrote + wlen)) (unread b) = sent @ take (len - wrote) (unread (p_write_buffer p))"
      unfolding sum take_add by (simp add: sent1_def tk b(3))
    moreover have "unread b' = drop (len - wrote) (unread (p_write_buffer p))"
      unfolding R(3) b(3) using sum by (simp add: add.commute)
    moreover have "Suc (length ws) \<le> length ws' + (len - wrote)" using R(5) sum w(1) by linarith
    ultimately show ?thesis
      using step more R(1,2,4) unfolding p'_def
      by (intro exI [of _ b'] exI [of _ ws']) simp
  qed
qed (auto simp: willing_def)

text \<open>What one call of \<open>read_ahead\<close> offers to the socket.\<close>

lemma read_ahead_offer:
  assumes "buf_inv b" "Buffer_read_ahead b iobuf = Ok (len, iobuf')"
  shows "len = min (length iobuf) (length (unread b))" "take len (drop 0 iobuf') = take len (unread b)"
  using read_ahead_spec [OF assms(1), of iobuf] assms(2) by (auto simp: min_def)

lemma encode_unread:
  assumes "buf_inv b"
  shows "buf_inv (BitcoinP2PConfig_encode ser m b)" "unread (BitcoinP2PConfig_encode ser m b) = unread b @ ser m"
  using net.write_law [OF assms, of "ser m"] by (simp_all add: BitcoinP2PConfig_encode_def)

text \<open>Equality of peers but for what concerns their output.\<close>

definition same_but_output :: "Peer \<Rightarrow> Peer \<Rightarrow> bool" where
  "same_but_output p q \<longleftrightarrow>
     p\<lparr>p_write_buffer := Buffer_new, p_queue := [], p_writeable := False\<rparr> =
     q\<lparr>p_write_buffer := Buffer_new, p_queue := [], p_writeable := False\<rparr>"

lemma same_but_outputD [frame]:
  assumes "same_but_output p q"
  shows "p_pid q = p_pid p" "p_read_buffer q = p_read_buffer p" "p_got_verack q = p_got_verack p"
    "p_version q = p_version p" "p_connected q = p_connected p" "p_ban q = p_ban p" "p_outgoing q = p_outgoing p"
  using assms unfolding same_but_output_def by (cases p; cases q; simp)+

text \<open>An iteration of the loop up to the next message: bytes move from the write buffer to the socket.\<close>

lemma offer_written:
  assumes inv: "buf_inv (p_write_buffer p)" and ra: "Buffer_read_ahead (p_write_buffer p) io = Ok (len, io')"
    and m: "(if 0 < len then write_out io' len 0 p ws sent else Some (Ok (p, True, ws, sent))) = Some m"
  obtains b g ws' sent' where "m = Ok (p\<lparr>p_write_buffer := b\<rparr>, g, ws', sent')" "buf_inv b"
    "sent' @ to_send cfg ser (p\<lparr>p_write_buffer := b\<rparr>) = sent @ to_send cfg ser p"
proof -
  have "\<exists>b g ws' sent'. m = Ok (p\<lparr>p_write_buffer := b\<rparr>, g, ws', sent') \<and> buf_inv b \<and>
      sent' @ unread b = sent @ unread (p_write_buffer p)"
  proof (cases "0 < len")
    case True
    then show ?thesis using write_out_spec [of io' len 0 p ws sent m] m inv read_ahead_offer [OF inv ra] by auto
  next
    case False
    then show ?thesis using m inv by (intro exI [of _ "p_write_buffer p"]) auto
  qed
  then obtain b g ws' sent1 where M: "m = Ok (p\<lparr>p_write_buffer := b\<rparr>, g, ws', sent1)" "buf_inv b"
    "sent1 @ unread b = sent @ unread (p_write_buffer p)" by blast
  have "sent1 @ to_send cfg ser (p\<lparr>p_write_buffer := b\<rparr>) = sent @ to_send cfg ser p"
    using M(3) by (simp add: to_send_def flip: append_assoc)
  then show thesis using that M by blast
qed

lemma write_loop_conserves:
  assumes run: "write_loop cfg ser E iobuf p ws sent = Some (p', sent', r)" and inv: "buf_inv (p_write_buffer p)"
  shows "buf_inv (p_write_buffer p') \<and> sent' @ to_send cfg ser p' = sent @ to_send cfg ser p \<and>
    same_but_output p p' \<and> (r = Ok () \<longrightarrow> p_queue p' = [])"
proof -
  define Q where "Q p sent z \<longleftrightarrow> (case z of (p', sent', r) \<Rightarrow> buf_inv (p_write_buffer p') \<and>
    sent' @ to_send cfg ser p' = sent @ to_send cfg ser p \<and>
    same_but_output p p' \<and> (r = Ok () \<longrightarrow> p_queue p' = []))"
    for p sent and z :: "Peer \<times> u8 list \<times> unit result"
  have "cfg = cfg \<longrightarrow> ser = ser \<longrightarrow> buf_inv (p_write_buffer p) \<longrightarrow> Q p sent (p', sent', r)"
  proof (rule write_loop.raw_induct [where P = "\<lambda>c d e io p ws sent z. c = cfg \<longrightarrow> d = ser \<longrightarrow>
      buf_inv (p_write_buffer p) \<longrightarrow> Q p sent z", OF _ run], intro impI, goal_cases)
    case (1 wl c d e io p ws sent z)
    note body = 1(2) [unfolded 1(3,4)] and IH = 1(1) [of cfg ser] and inv = 1(5)
    obtain len io' where ra: "Buffer_read_ahead (p_write_buffer p) io = Ok (len, io')"
      using read_ahead_spec [OF inv] by blast
    let ?m = "if 0 < len then write_out io' len 0 p ws sent else Some (Ok (p, True, ws, sent))"
    obtain m where m: "?m = Some m" using body ra by (cases ?m) (auto split: if_splits)
    obtain b g ws' sent1 where M: "m = Ok (p\<lparr>p_write_buffer := b\<rparr>, g, ws', sent1)" "buf_inv b"
      and cons: "sent1 @ to_send cfg ser (p\<lparr>p_write_buffer := b\<rparr>) = sent @ to_send cfg ser p"
      using offer_written [OF inv ra m] by metis
    show ?case
    proof (cases g)
      case False
      then have "wl cfg ser e io (p\<lparr>p_write_buffer := b\<rparr>) ws' sent1 = Some z" using body ra m M(1) by simp
      from IH [OF this] M(2) have "Q (p\<lparr>p_write_buffer := b\<rparr>) sent1 z" by simp
      then show ?thesis using cons by (simp add: Q_def same_but_output_def split: prod.splits)
    next
      case True
      show ?thesis
      proof (cases "p_queue p")
        case Nil
        then have "z = (fst (Peer_reregister_read e (p\<lparr>p_write_buffer := b\<rparr>)), sent1,
            snd (Peer_reregister_read e (p\<lparr>p_write_buffer := b\<rparr>)))"
          using body ra m M(1) True by (simp add: Peer_try_receive_def split: prod.splits)
        then show ?thesis
          using cons M(2) Nil
          by (simp add: Q_def Peer_reregister_read_def to_send_def same_but_output_def)
      next
        case (Cons msg rest)
        define p1 where "p1 = p\<lparr>p_write_buffer := b, p_queue := rest\<rparr>"
        define p2 where "p2 = p1\<lparr>p_write_buffer := BitcoinP2PConfig_encode ser (BitcoinP2PConfig_wrap cfg msg) b\<rparr>"
        have "wl cfg ser e io p2 ws' sent1 = Some z"
          using body ra m M(1) True Cons by (simp add: Peer_try_receive_def p1_def p2_def)
        from IH [OF this] encode_unread(1) [OF M(2), of ser "BitcoinP2PConfig_wrap cfg msg"]
        have "Q p2 sent1 z" by (simp add: p2_def p1_def)
        moreover have "sent1 @ to_send cfg ser p2 = sent @ to_send cfg ser p"
          using cons encode_unread(2) [OF M(2), of ser "BitcoinP2PConfig_wrap cfg msg"] Cons
          by (simp add: to_send_def p2_def p1_def)
        ultimately show ?thesis by (simp add: Q_def p2_def p1_def same_but_output_def split: prod.splits)
      qed
    qed
  qed
  then show ?thesis using inv by (simp add: Q_def)
qed

text \<open>What the write buffer holds goes out at once if it fits into the buffer for input and output.\<close>

lemma flush_buffer:
  assumes "willing ws" "length (unread (p_write_buffer p)) \<le> length ws" "buf_inv (p_write_buffer p)"
    "length (unread (p_write_buffer p)) \<le> length iobuf"
  obtains b ws' where "willing ws'" "length ws \<le> length ws' + length (unread (p_write_buffer p))"
    "buf_inv b" "unread b = []"
    "p_queue p = [] \<Longrightarrow> write_loop cfg ser E iobuf p ws sent =
       (case Peer_reregister_read E (p\<lparr>p_write_buffer := b\<rparr>) of (q, r) \<Rightarrow>
          Some (q, sent @ unread (p_write_buffer p), r))"
    "\<And>m ms. p_queue p = m # ms \<Longrightarrow> write_loop cfg ser E iobuf p ws sent =
       write_loop cfg ser E iobuf
         (p\<lparr>p_queue := ms, p_write_buffer := BitcoinP2PConfig_encode ser (BitcoinP2PConfig_wrap cfg m) b\<rparr>)
         ws' (sent @ unread (p_write_buffer p))"
proof -
  let ?len = "min (length iobuf) (length (unread (p_write_buffer p)))"
  obtain io' where ra: "Buffer_read_ahead (p_write_buffer p) iobuf = Ok (?len, io')"
    using read_ahead_spec [OF assms(3)] by blast
  note O = read_ahead_offer [OF assms(3) ra]
  have len: "?len = length (unread (p_write_buffer p))" using assms(4) by simp
  have "\<exists>b ws'. (if 0 < ?len then write_out io' ?len 0 p ws sent else Some (Ok (p, True, ws, sent))) =
      Some (Ok (p\<lparr>p_write_buffer := b\<rparr>, True, ws', sent @ unread (p_write_buffer p))) \<and> unread b = [] \<and>
      buf_inv b \<and> willing ws' \<and> length ws \<le> length ws' + ?len"
  proof (cases "0 < ?len")
    case True
    then show ?thesis using write_out_flush [OF assms(1), of ?len 0 p io' sent] assms(2,3) O len by auto
  next
    case False
    then show ?thesis using len assms(1,3) by (intro exI [of _ "p_write_buffer p"]) auto
  qed
  then obtain b ws' where b: "(if 0 < ?len then write_out io' ?len 0 p ws sent else Some (Ok (p, True, ws, sent))) =
      Some (Ok (p\<lparr>p_write_buffer := b\<rparr>, True, ws', sent @ unread (p_write_buffer p)))" "unread b = []" "buf_inv b"
    "willing ws'" "length ws \<le> length ws' + ?len" by blast
  show thesis
  proof (rule that [of ws' b])
    show "length ws \<le> length ws' + length (unread (p_write_buffer p))" using b(5) len by simp
  qed (use b ra in \<open>simp_all add: write_loop.simps [of _ _ _ _ p] Peer_try_receive_def\<close>)
qed

text \<open>
  If every message fits into the buffer for input and output, a willing socket gets everything.
\<close>

lemma write_loop_flushes:
  assumes "willing ws" "length (to_send cfg ser p) \<le> length ws" "buf_inv (p_write_buffer p)"
    "length (unread (p_write_buffer p)) \<le> length iobuf"
    "\<forall>m\<in>set (p_queue p). length (ser (BitcoinP2PConfig_wrap cfg m)) \<le> length iobuf"
  shows "\<exists>p' r. write_loop cfg ser E iobuf p ws sent = Some (p', sent @ to_send cfg ser p, r) \<and>
    to_send cfg ser p' = [] \<and> \<not> p_writeable p' \<and> (\<exists>q. r = snd (Peer_reregister_read E q))"
  using assms
proof (induction "p_queue p" arbitrary: p ws sent)
  case Nil
  then have len: "length (unread (p_write_buffer p)) \<le> length ws" by (simp add: to_send_def)
  show ?case
    by (rule flush_buffer [OF Nil.prems(1) len Nil.prems(3,4), of cfg ser E sent])
      (use Nil.hyps in \<open>auto simp: to_send_def Peer_reregister_read_def\<close>)
next
  case (Cons m ms)
  have q: "p_queue p = m # ms" using Cons.hyps(2) by simp
  have len: "length (unread (p_write_buffer p)) \<le> length ws" using Cons.prems(2) by (simp add: to_send_def)
  obtain b ws' where b: "willing ws'" "length ws \<le> length ws' + length (unread (p_write_buffer p))"
    "buf_inv b" "unread b = []"
    "write_loop cfg ser E iobuf p ws sent = write_loop cfg ser E iobuf
         (p\<lparr>p_queue := ms, p_write_buffer := BitcoinP2PConfig_encode ser (BitcoinP2PConfig_wrap cfg m) b\<rparr>)
         ws' (sent @ unread (p_write_buffer p))"
    by (rule flush_buffer [OF Cons.prems(1) len Cons.prems(3,4), of cfg ser E sent]) (use q in blast)
  define p1 where "p1 = p\<lparr>p_queue := ms, p_write_buffer := BitcoinP2PConfig_encode ser (BitcoinP2PConfig_wrap cfg m) b\<rparr>"
  have u: "unread (p_write_buffer p1) = ser (BitcoinP2PConfig_wrap cfg m)" "buf_inv (p_write_buffer p1)" "p_queue p1 = ms"
    using encode_unread [OF b(3), of ser "BitcoinP2PConfig_wrap cfg m"] b(4) by (simp_all add: p1_def)
  have ts: "to_send cfg ser p = unread (p_write_buffer p) @ to_send cfg ser p1"
    using u q by (simp add: to_send_def)
  have "\<exists>p' r. write_loop cfg ser E iobuf p1 ws' (sent @ unread (p_write_buffer p)) =
      Some (p', (sent @ unread (p_write_buffer p)) @ to_send cfg ser p1, r) \<and> to_send cfg ser p' = [] \<and> \<not> p_writeable p' \<and>
      (\<exists>q. r = snd (Peer_reregister_read E q))"
    using Cons.prems(2,5) b(1,2) u q ts by (intro Cons.hyps(1)) auto
  then show ?case using b(5) ts by (simp add: p1_def)
qed

text \<open>
  When the socket refuses a write (\<open>WouldBlock\<close> on a non-blocking socket) and no message is queued,
  the peer is registered for reading only, although bytes wait in the write buffer.
\<close>

lemma refused_write_unregisters:
  assumes "buf_inv (p_write_buffer p)" "unread (p_write_buffer p) \<noteq> []" "iobuf \<noteq> []" "p_queue p = []" "p_writeable p"
  shows "\<exists>r. write_loop cfg ser E iobuf p (Inl e # ws) sent = Some (p\<lparr>p_writeable := False\<rparr>, sent, r)"
proof -
  let ?len = "min (length iobuf) (length (unread (p_write_buffer p)))"
  obtain io' where ra: "Buffer_read_ahead (p_write_buffer p) iobuf = Ok (?len, io')"
    using read_ahead_spec [OF assms(1)] by blast
  have "0 < ?len" using assms(2,3) by simp
  then show ?thesis
    using ra assms(4,5) by (simp add: write_loop.simps [of _ _ _ _ p] Peer_try_receive_def Peer_reregister_read_def)
qed

end
