(* ===== verification/P2P_Node.thy ===== *)
theory P2P_Node
  imports P2P_Streams "HOL-Library.AList"
begin

text \<open>
  The network layer (\<open>src/src/p2p.rs\<close>, \<open>P2P\<close> and the senders to it): the map of peers, connecting
  and disconnecting them, the ban score, the control loop and the processing of network events.
  The map of peers is an association list with distinct keys. What the layer sends out is
  recorded: the messages to the dispatcher, the tasks it wakes, the sockets it shuts down
  and the bytes it writes to each peer.
\<close>

section \<open>State\<close>

record P2P =
  n_config :: BitcoinP2PConfig
  n_peers :: "(PeerId \<times> Peer) list"
  n_next_peer_id :: nat
  n_waker :: "PeerId set"
  n_listener :: "(nat \<times> SocketAddr) list"
  n_dispatched :: "NetworkMessage PeerMessage list"
  n_woken :: "PeerId list"
  n_closed :: "PeerId list"
  n_sent :: "(PeerId \<times> u8 list) list"

definition P2P_new :: "BitcoinP2PConfig \<Rightarrow> P2P" where
  "P2P_new cfg =
     \<lparr>n_config = cfg, n_peers = [], n_next_peer_id = 0, n_waker = {}, n_listener = [],
      n_dispatched = [], n_woken = [], n_closed = [], n_sent = []\<rparr>"

abbreviation peer :: "P2P \<Rightarrow> PeerId \<Rightarrow> Peer option" where
  "peer n pid \<equiv> map_of (n_peers n) pid"

definition P2P_connected_peers :: "os \<Rightarrow> P2P \<Rightarrow> SocketAddr list" where
  "P2P_connected_peers E n =
     List.map_filter (\<lambda>(pid, _). case os_peer_addr E pid of Ok a \<Rightarrow> Some a | _ \<Rightarrow> None) (n_peers n)"

definition P2P_n_connected_peers :: "P2P \<Rightarrow> nat" where
  "P2P_n_connected_peers n = length (n_peers n)"

section \<open>The senders\<close>

text \<open>The control channel as the list of what was sent into it.\<close>

type_synonym control_queue = "NetworkMessage P2PControl list"

definition P2PControlSender_new :: control_queue where
  "P2PControlSender_new = []"

definition P2PControlSender_send :: "control_queue \<Rightarrow> NetworkMessage P2PControl \<Rightarrow> control_queue" where
  "P2PControlSender_send q control = q @ [control]"

definition P2PControlSender_send_network :: "control_queue \<Rightarrow> PeerId \<Rightarrow> NetworkMessage \<Rightarrow> control_queue" where
  "P2PControlSender_send_network q pid msg = P2PControlSender_send q (Send pid msg)"

text \<open>The random number is an argument.\<close>

definition P2PControlSender_send_random_network ::
  "P2P \<Rightarrow> u32 \<Rightarrow> control_queue \<Rightarrow> NetworkMessage \<Rightarrow> control_queue \<times> PeerId option" where
  "P2PControlSender_send_random_network n rnd q msg =
     (let peers = map fst (n_peers n) in
      if 0 < length peers
      then let pid = peers ! unat (rnd mod word_of_nat (length peers))
           in (P2PControlSender_send q (Send pid msg), Some pid)
      else (q, None))"

definition P2PControlSender_broadcast :: "control_queue \<Rightarrow> NetworkMessage \<Rightarrow> control_queue" where
  "P2PControlSender_broadcast q msg = P2PControlSender_send q (Broadcast msg)"

definition P2PControlSender_ban :: "control_queue \<Rightarrow> PeerId \<Rightarrow> u32 \<Rightarrow> control_queue" where
  "P2PControlSender_ban q pid increment = P2PControlSender_send q (Ban pid increment)"

definition P2PControlSender_peer_version :: "P2P \<Rightarrow> PeerId \<Rightarrow> VersionCarrier option" where
  "P2PControlSender_peer_version n pid =
     (case peer n pid of Some p \<Rightarrow> p_version p | None \<Rightarrow> None)"

definition P2PControlSender_peers :: "P2P \<Rightarrow> PeerId list" where
  "P2PControlSender_peers n = map fst (n_peers n)"

text \<open>A sender of peer messages holds a channel, or none (\<open>dummy\<close>).\<close>

type_synonym 'm message_sender = "'m PeerMessage list option"

definition PeerMessageSender_new :: "'m message_sender" where
  "PeerMessageSender_new = Some []"

definition PeerMessageSender_dummy :: "'m message_sender" where
  "PeerMessageSender_dummy = None"

definition PeerMessageSender_send :: "'m message_sender \<Rightarrow> 'm PeerMessage \<Rightarrow> 'm message_sender" where
  "PeerMessageSender_send sender msg = (case sender of Some ch \<Rightarrow> Some (ch @ [msg]) | None \<Rightarrow> None)"

section \<open>Disconnecting and banning\<close>

definition dispatch :: "P2P \<Rightarrow> NetworkMessage PeerMessage \<Rightarrow> P2P" where
  "dispatch n msg = n\<lparr>n_dispatched := n_dispatched n @ [msg]\<rparr>"

text \<open>Removing a peer from the map shuts its socket down.\<close>

definition remove_peer :: "P2P \<Rightarrow> PeerId \<Rightarrow> P2P" where
  "remove_peer n pid =
     (if peer n pid \<noteq> None
      then n\<lparr>n_peers := AList.delete pid (n_peers n), n_closed := n_closed n @ [pid]\<rparr>
      else n)"

definition wake :: "P2P \<Rightarrow> PeerId \<Rightarrow> P2P" where
  "wake n pid =
     (if pid \<in> n_waker n
      then n\<lparr>n_waker := n_waker n - {pid}, n_woken := n_woken n @ [pid]\<rparr>
      else n)"

definition P2P_disconnect :: "P2P \<Rightarrow> PeerId \<Rightarrow> bool \<Rightarrow> P2P" where
  "P2P_disconnect n pid banned =
     wake (remove_peer (dispatch n (Disconnected pid banned)) pid) pid"

definition P2P_connected :: "P2P \<Rightarrow> PeerId \<Rightarrow> SocketAddr option \<Rightarrow> P2P" where
  "P2P_connected n pid address = dispatch n (Connected pid address)"

abbreviation (input) BAN :: u32 where
  "BAN \<equiv> 100"

definition set_peer :: "P2P \<Rightarrow> PeerId \<Rightarrow> Peer \<Rightarrow> P2P" where
  "set_peer n pid p = n\<lparr>n_peers := AList.update pid p (n_peers n)\<rparr>"

text \<open>The addition to the score overflows as the build says; the flag is the first argument.\<close>

definition P2P_ban :: "bool \<Rightarrow> P2P \<Rightarrow> PeerId \<Rightarrow> u32 \<Rightarrow> P2P \<times> unit result" where
  "P2P_ban checks n pid increment =
     (case peer n pid of
        Some p \<Rightarrow>
          (case rust_add checks (p_ban p) increment :: u32 result of
             Ok ban \<Rightarrow>
               let n = set_peer n pid (p\<lparr>p_ban := ban\<rparr>)
               in if BAN \<le> ban then (P2P_disconnect n pid True, Ok ()) else (n, Ok ())
           | _ \<Rightarrow> (n, Panicked))
      | None \<Rightarrow> (n, Ok ()))"

section \<open>Listening and connecting\<close>

definition P2P_add_listener :: "os \<Rightarrow> P2P \<Rightarrow> SocketAddr \<Rightarrow> P2P \<times> (io_error, unit) outcome" where
  "P2P_add_listener E n bind =
     (case os_bind E bind of
        Ok _ \<Rightarrow>
          let token = n_next_peer_id n;
              n = n\<lparr>n_next_peer_id := token + 1\<rparr>
          in (case os_register_listener E token of
                Ok _ \<Rightarrow> (n\<lparr>n_listener := AList.update token bind (n_listener n)\<rparr>, Ok ())
              | e \<Rightarrow> (n, e))
      | e \<Rightarrow> (n, e))"

definition P2P_is_listener :: "P2P \<Rightarrow> nat \<Rightarrow> SocketAddr option" where
  "P2P_is_listener n token = map_of (n_listener n) token"

datatype PeerSource = OutgoingTo SocketAddr | IncomingFrom nat

text \<open>Is a peer of this address connected already?\<close>

definition ip_connected :: "os \<Rightarrow> P2P \<Rightarrow> IpAddr \<Rightarrow> bool" where
  "ip_connected E n ip =
     list_ex (\<lambda>(pid, _). case os_peer_addr E pid of Ok addr \<Rightarrow> ip = sa_ip addr | _ \<Rightarrow> False) (n_peers n)"

text \<open>From line 612 on: create the peer, register it, greet it if the connection is outgoing.\<close>

definition install_peer ::
  "os \<Rightarrow> P2P \<Rightarrow> NetworkMessage \<Rightarrow> PeerId \<Rightarrow> bool \<Rightarrow> SocketAddr \<Rightarrow> P2P \<times> SocketAddr result" where
  "install_peer E n version pid outgoing addr =
     (let p = Peer_new pid outgoing in
      case (if outgoing then Peer_register_write E p else Peer_register_read E p) of
        (p, Ok _) \<Rightarrow>
          if outgoing then
            (case Peer_send E p version of
               (p, Ok _) \<Rightarrow> (set_peer n pid p, Ok addr)
             | (p, Err e) \<Rightarrow> (set_peer n pid p, Err e)
             | (p, Panicked) \<Rightarrow> (set_peer n pid p, Panicked))
          else (set_peer n pid p, Ok addr)
      | (p, Err e) \<Rightarrow> (set_peer n pid p, Err e)
      | (p, Panicked) \<Rightarrow> (set_peer n pid p, Panicked))"

definition P2P_connect ::
  "os \<Rightarrow> P2P \<Rightarrow> NetworkMessage \<Rightarrow> PeerId \<Rightarrow> PeerSource \<Rightarrow> P2P \<times> SocketAddr result" where
  "P2P_connect E n version pid source =
     (case source of
        OutgoingTo a \<Rightarrow>
          if ip_connected E n (sa_ip a) then (n, Err Handshake)
          else (case os_connect E a of
                  Ok _ \<Rightarrow> install_peer E n version pid True a
                | Err e \<Rightarrow> (n, Err (error_from_io e))
                | Panicked \<Rightarrow> (n, Panicked))
      | IncomingFrom listener \<Rightarrow>
          (case os_accept E listener of
             Ok a \<Rightarrow>
               if ip_connected E n (sa_ip a) then (n\<lparr>n_closed := n_closed n @ [pid]\<rparr>, Err Handshake)
               else install_peer E n version pid False a
           | Err e \<Rightarrow> (n, Err (error_from_io e))
           | Panicked \<Rightarrow> (n, Panicked)))"

text \<open>The address in the version message of a connection this node opens is fixed (line 538).\<close>

definition fixed_address :: SocketAddr where
  "fixed_address = \<lparr>sa_ip = V4 0x7F000001, sa_port = 8333\<rparr>"

text \<open>
  \<open>add_peer\<close> with the first poll of its future: a new id, the connection, and the removal of the
  peer if that failed. The polls that follow are \<open>poll_handshake\<close> until the handshake is complete,
  then \<open>poll_finished\<close> until the peer is gone; \<open>handshake_timeout\<close> is the failure after
  \<open>CONNECT_TIMEOUT_SECONDS\<close>.
\<close>

definition P2P_add_peer ::
  "os \<Rightarrow> P2P \<Rightarrow> string \<Rightarrow> PeerSource \<Rightarrow> P2P \<times> PeerId \<times> SocketAddr result" where
  "P2P_add_peer E n network source =
     (let pid = \<lparr>pid_network = network, pid_token = n_next_peer_id n\<rparr>;
          n = n\<lparr>n_next_peer_id := n_next_peer_id n + 1\<rparr>;
          version = BitcoinP2PConfig_version (n_config n) (os_now E) fixed_address
                      (BitcoinP2PConfig_max_protocol_version (n_config n))
      in case P2P_connect E n version pid source of
           (n, Err e) \<Rightarrow> (remove_peer n pid, pid, Err e)
         | (n, r) \<Rightarrow> (n, pid, r))"

datatype 'a Async = Pending | Ready 'a

definition poll_handshake :: "P2P \<Rightarrow> PeerId \<Rightarrow> SocketAddr \<Rightarrow> P2P \<times> SocketAddr result Async" where
  "poll_handshake n pid addr =
     (case peer n pid of
        Some p \<Rightarrow>
          if p_connected p then (n, Ready (Ok addr))
          else (n\<lparr>n_waker := insert pid (n_waker n)\<rparr>, Pending)
      | None \<Rightarrow> (n, Ready (Err Handshake)))"

definition poll_finished :: "P2P \<Rightarrow> PeerId \<Rightarrow> SocketAddr \<Rightarrow> P2P \<times> SocketAddr result Async" where
  "poll_finished n pid addr =
     (if peer n pid \<noteq> None then (n\<lparr>n_waker := insert pid (n_waker n)\<rparr>, Pending)
      else (n, Ready (Ok addr)))"

definition handshake_timeout :: "P2P \<Rightarrow> PeerId \<Rightarrow> P2P" where
  "handshake_timeout n pid = remove_peer n pid"

text \<open>
  The tasks that wait for peers, with the address of the peer: for the handshake, or, after it, for the
  peer to go. \<open>poll_waiting\<close> and \<open>task_failed\<close> are what follows a poll of the first kind: \<open>and_then\<close>
  polls the second future at once, and \<open>map_err\<close> removes the peer.
\<close>

datatype task = Connecting SocketAddr | Waiting SocketAddr

type_synonym tasks = "(PeerId \<times> task) list"

definition poll_waiting :: "PeerId \<Rightarrow> SocketAddr \<Rightarrow> P2P \<times> tasks \<Rightarrow> P2P \<times> tasks" where
  "poll_waiting pid addr s =
     (case poll_finished (fst s) pid addr of
        (n, Pending) \<Rightarrow> (n, AList.update pid (Waiting addr) (snd s))
      | (n, Ready _) \<Rightarrow> (n, AList.delete pid (snd s)))"

definition task_failed :: "PeerId \<Rightarrow> P2P \<times> tasks \<Rightarrow> P2P \<times> tasks" where
  "task_failed pid s = (handshake_timeout (fst s) pid, AList.delete pid (snd s))"

text \<open>A poll of the task of a peer: nothing happens if there is none.\<close>

definition poll_task :: "PeerId \<Rightarrow> P2P \<times> tasks \<Rightarrow> P2P \<times> tasks" where
  "poll_task pid s =
     (case map_of (snd s) pid of
        None \<Rightarrow> s
      | Some (Waiting addr) \<Rightarrow> poll_waiting pid addr s
      | Some (Connecting addr) \<Rightarrow>
          (case poll_handshake (fst s) pid addr of
             (n, Pending) \<Rightarrow> (n, snd s)
           | (n, Ready (Ok addr)) \<Rightarrow> poll_waiting pid addr (n, snd s)
           | (n, Ready _) \<Rightarrow> task_failed pid (n, snd s)))"

text \<open>
  The poll when \<open>CONNECT_TIMEOUT_SECONDS\<close> have passed: the future with the timeout polls the inner
  one first, and fails if that is still pending.
\<close>

definition expire_task :: "PeerId \<Rightarrow> P2P \<times> tasks \<Rightarrow> P2P \<times> tasks" where
  "expire_task pid s =
     (case map_of (snd s) pid of
        Some (Connecting addr) \<Rightarrow>
          (case poll_handshake (fst s) pid addr of
             (n, Pending) \<Rightarrow> task_failed pid (n, snd s)
           | _ \<Rightarrow> poll_task pid s)
      | _ \<Rightarrow> s)"

text \<open>Spawning the task of a new peer: \<open>add_peer\<close> and the polls that follow at once if it connects.\<close>

definition spawn_peer :: "os \<Rightarrow> string \<Rightarrow> PeerSource \<Rightarrow> P2P \<times> tasks \<Rightarrow> P2P \<times> tasks" where
  "spawn_peer E network source s =
     (case P2P_add_peer E (fst s) network source of
        (n, pid, Ok addr) \<Rightarrow> poll_task pid (n, AList.update pid (Connecting addr) (snd s))
      | (n, pid, _) \<Rightarrow> (n, snd s))"

section \<open>The control loop\<close>

text \<open>\<open>expect\<close> panics if a message can not be sent.\<close>

fun send_all ::
  "os \<Rightarrow> NetworkMessage \<Rightarrow> (PeerId \<times> Peer) list \<Rightarrow> (PeerId \<times> Peer) list \<times> unit result" where
  "send_all E msg [] = ([], Ok ())"
| "send_all E msg ((pid, p) # ps) =
     (case Peer_send E p msg of
        (p, Ok _) \<Rightarrow> (case send_all E msg ps of (ps, r) \<Rightarrow> ((pid, p) # ps, r))
      | (p, _) \<Rightarrow> ((pid, p) # ps, Panicked))"

definition control_step :: "bool \<Rightarrow> os \<Rightarrow> P2P \<Rightarrow> NetworkMessage P2PControl \<Rightarrow> P2P \<times> unit result" where
  "control_step checks E n control =
     (case control of
        Ban pid score \<Rightarrow> P2P_ban checks n pid score
      | Height height \<Rightarrow> (n\<lparr>n_config := BitcoinP2PConfig_set_height (n_config n) height\<rparr>, Ok ())
      | Bind addr \<Rightarrow> (fst (P2P_add_listener E n addr), Ok ())
      | Broadcast message \<Rightarrow>
          (case send_all E message (n_peers n) of (ps, r) \<Rightarrow> (n\<lparr>n_peers := ps\<rparr>, r))
      | Send pid message \<Rightarrow>
          (case peer n pid of
             Some p \<Rightarrow>
               (case Peer_send E p message of
                  (p, Ok _) \<Rightarrow> (set_peer n pid p, Ok ())
                | (p, _) \<Rightarrow> (set_peer n pid p, Panicked))
           | None \<Rightarrow> (n, Ok ())))"

text \<open>The loop over the messages the channel delivers; when all senders are gone it panics.\<close>

fun P2P_control_loop :: "bool \<Rightarrow> os \<Rightarrow> P2P \<Rightarrow> control_queue \<Rightarrow> P2P \<times> unit result" where
  "P2P_control_loop checks E n [] = (n, Panicked)"
| "P2P_control_loop checks E n (c # cs) =
     (case control_step checks E n c of
        (n, Ok _) \<Rightarrow> P2P_control_loop checks E n cs
      | (n, r) \<Rightarrow> (n, r))"

section \<open>Network events\<close>

text \<open>
  An event with the answers of the socket while it is processed: the attempts at writing and the
  data of the read.
\<close>

record event =
  ev_hup :: bool
  ev_writable :: bool
  ev_readable :: bool
  ev_attempts :: attempts
  ev_data :: "(io_error, u8 list) outcome"

text \<open>The functions of the bitcoin crate and the buffer for input and output.\<close>

record codec =
  c_ser :: "RawNetworkMessage \<Rightarrow> u8 list"
  c_dec :: "RawNetworkMessage decoder"
  c_iobuf :: "u8 list"

definition on_writable :: "os \<Rightarrow> codec \<Rightarrow> P2P \<Rightarrow> PeerId \<Rightarrow> event \<Rightarrow> (P2P \<times> unit result) option" where
  "on_writable E C n pid ev =
     (case peer n pid of
        Some p \<Rightarrow>
          (case write_loop (n_config n) (c_ser C) E (c_iobuf C) p (ev_attempts ev) [] of
             None \<Rightarrow> None
           | Some (p, sent, r) \<Rightarrow> Some ((set_peer n pid p)\<lparr>n_sent := n_sent n @ [(pid, sent)]\<rparr>, r))
      | None \<Rightarrow> Some (n, Ok ()))"

text \<open>Lines 876 to 887: the messages go to the dispatcher.\<close>

fun deliver :: "P2P \<Rightarrow> PeerId \<Rightarrow> RawNetworkMessage list \<Rightarrow> P2P" where
  "deliver n pid [] = n"
| "deliver n pid (msg # msgs) =
     (case BitcoinP2PConfig_unwrap (n_config n) msg of
        Ok m \<Rightarrow> deliver (dispatch n (Incoming pid m)) pid msgs
      | _ \<Rightarrow> deliver (P2P_disconnect n pid True) pid msgs)"

text \<open>Lines 863 to 888.\<close>

definition after_read :: "P2P \<Rightarrow> PeerId \<Rightarrow> rstate \<Rightarrow> P2P" where
  "after_read n pid s =
     (if r_disconnect s then P2P_disconnect n pid (r_ban s)
      else
        let n = (if r_handshake s then wake (P2P_connected n pid (r_address s)) pid else n)
        in deliver n pid (r_incoming s))"

text \<open>An error of the codec or of sending leaves the handler at once (\<open>?\<close>).\<close>

definition P2P_readable :: "os \<Rightarrow> codec \<Rightarrow> P2P \<Rightarrow> PeerId \<Rightarrow> u64 \<Rightarrow> event \<Rightarrow> (P2P \<times> unit result) option" where
  "P2P_readable E C n pid needed_services ev =
     (case peer n pid of
        Some p \<Rightarrow>
          (case on_readable (n_config n) (c_dec C) E needed_services p (ev_data ev) of
             None \<Rightarrow> None
           | Some (s, r) \<Rightarrow>
               let n = set_peer n pid (r_peer s)
               in Some (case r of Ok _ \<Rightarrow> (after_read n pid s, Ok ()) | _ \<Rightarrow> (n, r)))
      | None \<Rightarrow> Some (n, Ok ()))"

definition P2P_event_processor ::
  "os \<Rightarrow> codec \<Rightarrow> P2P \<Rightarrow> event \<Rightarrow> PeerId \<Rightarrow> u64 \<Rightarrow> (P2P \<times> unit result) option" where
  "P2P_event_processor E C n ev pid needed_services =
     (if ev_hup ev then Some (P2P_disconnect n pid False, Ok ())
      else
        (case (if ev_writable ev then on_writable E C n pid ev else Some (n, Ok ())) of
           None \<Rightarrow> None
         | Some (n, Ok _) \<Rightarrow>
             if ev_readable ev then P2P_readable E C n pid needed_services ev else Some (n, Ok ())
         | Some (n, r) \<Rightarrow> Some (n, r)))"

text \<open>One event of \<open>poll_events\<close>: a connection request, or an event of a peer.\<close>

definition poll_event ::
  "bool \<Rightarrow> os \<Rightarrow> codec \<Rightarrow> P2P \<Rightarrow> string \<Rightarrow> u64 \<Rightarrow> nat \<Rightarrow> event \<Rightarrow> (P2P \<times> unit result) option" where
  "poll_event checks E C n network needed_services token ev =
     (case P2P_is_listener n token of
        Some _ \<Rightarrow> Some (fst (P2P_add_peer E n network (IncomingFrom token)), Ok ())
      | None \<Rightarrow>
          let pid = \<lparr>pid_network = network, pid_token = token\<rparr> in
          (case P2P_event_processor E C n ev pid needed_services of
             None \<Rightarrow> None
           | Some (n, Err _) \<Rightarrow> Some (P2P_ban checks n pid 10)
           | Some (n, r) \<Rightarrow> Some (n, r)))"

text \<open>
  \<open>poll_events\<close> on the events it gets, each with the operating system at that time. The loop of the
  code ends only by a panic; here it also ends after the last event.
\<close>

fun P2P_poll_events ::
  "bool \<Rightarrow> codec \<Rightarrow> P2P \<Rightarrow> string \<Rightarrow> u64 \<Rightarrow> (os \<times> nat \<times> event) list \<Rightarrow> (P2P \<times> unit result) option" where
  "P2P_poll_events checks C n network needed_services [] = Some (n, Ok ())"
| "P2P_poll_events checks C n network needed_services ((E, token, ev) # events) =
     (case poll_event checks E C n network needed_services token ev of
        Some (n, Ok _) \<Rightarrow> P2P_poll_events checks C n network needed_services events
      | r \<Rightarrow> r)"

end
