(* ===== verification/P2P_Samples.thy ===== *)
theory P2P_Samples
  imports P2P_Node
begin

text \<open>
  Concrete data on which the properties of the network layer and of the modules above it are
  evaluated: a configuration, peers, an operating system that grants everything, and a small
  codec for three messages.
\<close>

definition sample_pid :: "nat \<Rightarrow> PeerId" where
  "sample_pid k = \<lparr>pid_network = ''bitcoin'', pid_token = k\<rparr>"

definition sample_cfg :: BitcoinP2PConfig where
  "sample_cfg =
     \<lparr>cfg_magic = 0xD9B4BEF9, cfg_nonce = 42, cfg_height = 0, cfg_user_agent = ''murmel: 0.1.0'',
      cfg_max_protocol_version = 70001, cfg_server = False\<rparr>"

definition sample_addr :: SocketAddr where
  "sample_addr = \<lparr>sa_ip = V4 0x0A000001, sa_port = 8333\<rparr>"

definition sample_os :: os where
  "sample_os =
     \<lparr>os_register = (\<lambda>_. Ok ()), os_reregister = (\<lambda>_. Ok ()), os_peer_addr = (\<lambda>_. Ok sample_addr),
      os_connect = (\<lambda>_. Ok ()), os_accept = (\<lambda>_. Ok sample_addr), os_bind = (\<lambda>_. Ok ()),
      os_register_listener = (\<lambda>_. Ok ()), os_now = 1000\<rparr>"

definition one_peer :: P2P where
  "one_peer = (P2P_new sample_cfg)\<lparr>n_peers := [(sample_pid 1, Peer_new (sample_pid 1) True)], n_next_peer_id := 2\<rparr>"

section \<open>A codec\<close>

definition sample_version :: VersionMessage where
  "sample_version =
     \<lparr>vm_version = 70015, vm_services = 1, vm_timestamp = 1000,
      vm_receiver = \<lparr>ad_services = 1, ad_addr = sample_addr\<rparr>, vm_sender = \<lparr>ad_services = 1, ad_addr = sample_addr\<rparr>,
      vm_nonce = 43, vm_user_agent = ''peer'', vm_start_height = 100, vm_relay = True\<rparr>"

definition sample_raw :: "NetworkMessage \<Rightarrow> RawNetworkMessage" where
  "sample_raw m = BitcoinP2PConfig_wrap sample_cfg m"

definition sample_messages :: "RawNetworkMessage set" where
  "sample_messages = {sample_raw Verack, sample_raw (NetworkMessage.Ping 7), sample_raw (Version sample_version)}"

definition sample_ser :: "RawNetworkMessage \<Rightarrow> u8 list" where
  "sample_ser r =
     (case raw_payload r of Verack \<Rightarrow> [1] | NetworkMessage.Ping _ \<Rightarrow> [2, 2] | _ \<Rightarrow> [3, 0, 0])"

definition sample_eof :: encode_error where
  "sample_eof =
     \<lparr>fe_description = ''eof'', fe_display = ''eof'',
      ee_io = Some \<lparr>fe_description = ''eof'', fe_display = ''eof'', io_kind = UnexpectedEof\<rparr>\<rparr>"

definition sample_bad :: encode_error where
  "sample_bad = \<lparr>fe_description = ''bad'', fe_display = ''bad'', ee_io = None\<rparr>"

definition sample_dec :: "RawNetworkMessage decoder" where
  "sample_dec =
     ReadBytes 1 (\<lambda>b.
       if b = [1] then Return (Ok (sample_raw Verack))
       else if b = [2] then
         ReadBytes 1 (\<lambda>c. Return (if c = [2] then Ok (sample_raw (NetworkMessage.Ping 7))
                                  else if c = [] then Err sample_eof else Err sample_bad))
       else if b = [3] then
         ReadBytes 2 (\<lambda>c. Return (if c = [0, 0] then Ok (sample_raw (Version sample_version))
                                  else if length c < 2 then Err sample_eof else Err sample_bad))
       else Return (if b = [] then Err sample_eof else Err sample_bad))"

lemma sample_raw_simps [simp]:
  "raw_payload (sample_raw m) = m" "BitcoinP2PConfig_wrap sample_cfg m = sample_raw m"
  "sample_raw m = sample_raw m' \<longleftrightarrow> m = m'"
  by (simp_all add: sample_raw_def BitcoinP2PConfig_wrap_def)

lemma sample_ser_simps [simp]:
  "sample_ser (sample_raw Verack) = [1]" "sample_ser (sample_raw (NetworkMessage.Ping 7)) = [2, 2]"
  "sample_ser (sample_raw (Version sample_version)) = [3, 0, 0]"
  by (simp_all add: sample_ser_def)

lemma proper_prefixes:
  "[a] = xs @ ys \<Longrightarrow> ys \<noteq> [] \<Longrightarrow> xs = []"
  "[a, b] = xs @ ys \<Longrightarrow> ys \<noteq> [] \<Longrightarrow> xs = [] \<or> xs = [a]"
  "[a, b, c] = xs @ ys \<Longrightarrow> ys \<noteq> [] \<Longrightarrow> xs = [] \<or> xs = [a] \<or> xs = [a, b]"
  by (auto simp: Cons_eq_append_conv)

lemma sample_dec_runs:
  "run_list sample_dec (1 # ys) = (Ok (sample_raw Verack), ys)"
  "run_list sample_dec (2 # 2 # ys) = (Ok (sample_raw (NetworkMessage.Ping 7)), ys)"
  "run_list sample_dec (3 # 0 # 0 # ys) = (Ok (sample_raw (Version sample_version)), ys)"
  "run_list sample_dec [] = (Err sample_eof, [])" "run_list sample_dec [2] = (Err sample_eof, [])"
  "run_list sample_dec [3] = (Err sample_eof, [])" "run_list sample_dec [3, 0] = (Err sample_eof, [])"
  by (simp_all add: sample_dec_def)

lemma sample_codec_ok: "codec_ok sample_messages sample_ser sample_dec"
  unfolding codec_ok_def
proof (intro conjI ballI allI impI, goal_cases)
  case (1 m ys)
  then show ?case by (auto simp: sample_messages_def sample_dec_runs)
next
  case (2 m xs ys)
  have "xs = [] \<or> xs = [2] \<or> xs = [3] \<or> xs = [3, 0]"
    using 2 proper_prefixes(1) [of 1 xs ys] proper_prefixes(2) [of 2 2 xs ys] proper_prefixes(3) [of 3 0 0 xs ys]
    by (auto simp: sample_messages_def)
  then have "run_list sample_dec xs = (Err sample_eof, [])" by (elim disjE) (simp_all add: sample_dec_runs)
  then show ?case by (auto simp: is_eof_def sample_eof_def)
qed

definition sample_codec :: codec where
  "sample_codec = \<lparr>c_ser = sample_ser, c_dec = sample_dec, c_iobuf = replicate 8 0\<rparr>"

end
