(* ===== verification/Peer_Timeout.thy ===== *)
theory Peer_Timeout
  imports P2P_Samples
begin

text \<open>
  Replies that peers owe (\<open>src/src/timeout.rs\<close>): how many replies of each kind are expected of a
  peer and until when, and the ban of peers that are late. The modules that ask peers, the ping
  and the header download, share one such table; what they rely on is the locale \<open>reply_tracker\<close>.
  Maps are association lists; the clock reading is the argument \<open>now\<close>.
\<close>

section \<open>State\<close>

abbreviation (input) TIMEOUT :: u64 where
  "TIMEOUT \<equiv> 60"

datatype ExpectedReply =
    ExpectBlock | ExpectHeaders | ExpectPong | ExpectFilterHeader | ExpectFilterCheckpoints | ExpectFilter

record 'r Timeout =
  timeouts :: "(PeerId \<times> u64) list"
  expected :: "(PeerId \<times> ('r \<times> u64) list) list"

section \<open>Operations\<close>

definition Timeout_new :: "'r Timeout" where
  "Timeout_new = \<lparr>timeouts = [], expected = []\<rparr>"

definition Timeout_forget :: "'r Timeout \<Rightarrow> PeerId \<Rightarrow> 'r Timeout" where
  "Timeout_forget t pid =
     t\<lparr>timeouts := AList.delete pid (timeouts t), expected := AList.delete pid (expected t)\<rparr>"

text \<open>\<open>self.timeouts.insert(peer, Self::now() + TIMEOUT)\<close>; the sum overflows as the build says.\<close>

definition set_deadline :: "bool \<Rightarrow> u64 \<Rightarrow> 'r Timeout \<Rightarrow> PeerId \<Rightarrow> 'r Timeout result" where
  "set_deadline checks now t pid =
     obind (rust_add checks now TIMEOUT) (\<lambda>d. Ok (t\<lparr>timeouts := AList.update pid d (timeouts t)\<rparr>))"

text \<open>\<open>entry(k).or_insert(v)\<close>, the value it gives.\<close>

definition or_insert :: "('k \<times> 'v) list \<Rightarrow> 'k \<Rightarrow> 'v \<Rightarrow> 'v" where
  "or_insert m k v = (case map_of m k of Some x \<Rightarrow> x | None \<Rightarrow> v)"

definition Timeout_expect ::
  "bool \<Rightarrow> u64 \<Rightarrow> 'r Timeout \<Rightarrow> PeerId \<Rightarrow> u64 \<Rightarrow> 'r \<Rightarrow> 'r Timeout result" where
  "Timeout_expect checks now t pid n what =
     obind (set_deadline checks now t pid) (\<lambda>t.
       let e = or_insert (expected t) pid [] in
       obind (rust_add checks (or_insert e what 0) n) (\<lambda>m.
         Ok (t\<lparr>expected := AList.update pid (AList.update what m e) (expected t)\<rparr>)))"

definition Timeout_received ::
  "bool \<Rightarrow> u64 \<Rightarrow> 'r Timeout \<Rightarrow> PeerId \<Rightarrow> u64 \<Rightarrow> 'r \<Rightarrow> 'r Timeout result" where
  "Timeout_received checks now t pid n what =
     obind (case map_of (expected t) pid of
              Some e \<Rightarrow>
                (case map_of e what of
                   Some m \<Rightarrow> if 0 < m then set_deadline checks now t pid else Ok t
                 | None \<Rightarrow> Ok t)
            | None \<Rightarrow> Ok t) (\<lambda>t.
       let e = or_insert (expected t) pid [];
           m = or_insert e what n;
           e = AList.update what (m - min n m) e;
           t = t\<lparr>expected := AList.update pid e (expected t)\<rparr>
       in Ok (if list_all (\<lambda>(_, v). v = 0) e then t\<lparr>timeouts := AList.delete pid (timeouts t)\<rparr> else t))"

definition Timeout_is_busy :: "'r Timeout \<Rightarrow> PeerId \<Rightarrow> bool" where
  "Timeout_is_busy t pid = (map_of (timeouts t) pid \<noteq> None)"

definition expects_some :: "'r Timeout \<Rightarrow> PeerId \<Rightarrow> 'r \<Rightarrow> bool" where
  "expects_some t pid what =
     (case map_of (expected t) pid of
        Some e \<Rightarrow> (case map_of e what of Some n \<Rightarrow> 0 < n | None \<Rightarrow> False)
      | None \<Rightarrow> False)"

definition Timeout_is_busy_with :: "'r Timeout \<Rightarrow> PeerId \<Rightarrow> 'r \<Rightarrow> bool" where
  "Timeout_is_busy_with t pid what = (Timeout_is_busy t pid \<and> expects_some t pid what)"

text \<open>The peers that are late with one of the replies, in the order of the map.\<close>

definition late_peers :: "u64 \<Rightarrow> 'r Timeout \<Rightarrow> 'r list \<Rightarrow> PeerId list" where
  "late_peers now t replies =
     map fst (filter (\<lambda>(pid, timeout). timeout < now \<and> list_ex (expects_some t pid) replies) (timeouts t))"

definition Timeout_check ::
  "u64 \<Rightarrow> 'r Timeout \<Rightarrow> control_queue \<Rightarrow> 'r list \<Rightarrow> 'r Timeout \<times> control_queue" where
  "Timeout_check now t q replies =
     (let banned = late_peers now t replies
      in (fold (\<lambda>pid t. Timeout_forget t pid) banned t,
          fold (\<lambda>pid q. P2PControlSender_send q (Ban pid 100)) banned q))"

section \<open>What is owed\<close>

definition owed :: "'r Timeout \<Rightarrow> PeerId \<Rightarrow> 'r \<Rightarrow> nat" where
  "owed t pid what = unat (or_insert (or_insert (expected t) pid []) what 0)"

definition deadline :: "'r Timeout \<Rightarrow> PeerId \<Rightarrow> nat option" where
  "deadline t pid = map_option unat (map_of (timeouts t) pid)"

text \<open>A peer has a deadline exactly if it owes something.\<close>

definition to_inv :: "'r Timeout \<Rightarrow> bool" where
  "to_inv t \<longleftrightarrow>
     distinct (map fst (timeouts t)) \<and>
     (\<forall>pid e. map_of (expected t) pid = Some e \<longrightarrow> distinct (map fst e)) \<and>
     (\<forall>pid. deadline t pid \<noteq> None \<longleftrightarrow> (\<exists>what. 0 < owed t pid what))"

lemma or_insert_update [simp]:
  "or_insert (AList.update k v m) k' d = (if k' = k then v else or_insert m k' d)"
  by (simp add: or_insert_def update_conv')

lemma or_insert_delete [simp]:
  "or_insert (AList.delete k m) k' d = (if k' = k then d else or_insert m k' d)"
  by (simp add: or_insert_def delete_conv')

lemma or_insert_Nil [simp]: "or_insert [] k d = d"
  by (simp add: or_insert_def)

lemma expects_some_owed: "expects_some t pid what \<longleftrightarrow> 0 < owed t pid what"
  by (auto simp: expects_some_def owed_def or_insert_def word_neq_0_conv unat_gt_0 split: option.splits)

lemma is_busy_deadline: "Timeout_is_busy t pid \<longleftrightarrow> deadline t pid \<noteq> None"
  by (simp add: Timeout_is_busy_def deadline_def)

lemma busy_with_owed: "to_inv t \<Longrightarrow> Timeout_is_busy_with t pid what \<longleftrightarrow> 0 < owed t pid what"
  by (auto simp: Timeout_is_busy_with_def expects_some_owed is_busy_deadline to_inv_def)

lemma forget_view [simp]:
  "owed (Timeout_forget t pid) p what = (if p = pid then 0 else owed t p what)"
  "deadline (Timeout_forget t pid) p = (if p = pid then None else deadline t p)"
  by (auto simp: owed_def deadline_def Timeout_forget_def delete_conv')

lemma forget_inv: "to_inv t \<Longrightarrow> to_inv (Timeout_forget t pid)"
  unfolding to_inv_def forget_view
  by (auto simp: Timeout_forget_def distinct_delete delete_conv')

lemma new_view [simp]: "owed Timeout_new p what = 0" "deadline Timeout_new p = None" "to_inv Timeout_new"
  by (simp_all add: owed_def deadline_def Timeout_new_def to_inv_def)

lemma deadline_set:
  assumes "set_deadline checks now t pid = Ok t'" "unat now + 60 < 2 ^ 64"
  shows "owed t' = owed t" "expected t' = expected t" "deadline t' = (deadline t)(pid \<mapsto> unat now + 60)"
    "distinct (map fst (timeouts t)) \<Longrightarrow> distinct (map fst (timeouts t'))"
proof -
  have t': "t' = t\<lparr>timeouts := AList.update pid (now + 60) (timeouts t)\<rparr>"
    using assms by (auto simp: set_deadline_def obind_eq_Ok dest!: rust_add_eq_Ok)
  have "unat (now + 60) = unat now + 60" using assms(2) by (simp add: unat_word_ariths)
  then show "owed t' = owed t" "expected t' = expected t" "deadline t' = (deadline t)(pid \<mapsto> unat now + 60)"
    "distinct (map fst (timeouts t)) \<Longrightarrow> distinct (map fst (timeouts t'))"
    by (auto simp: t' owed_def deadline_def update_conv' fun_eq_iff distinct_update)
qed

lemma set_deadline_Ok: "unat now + 60 < 2 ^ 64 \<Longrightarrow> \<exists>t'. set_deadline checks now t pid = Ok t'"
  by (simp add: set_deadline_def rust_add_Ok)

lemma expect_spec:
  assumes inv: "to_inv t" and room: "unat now + 60 < 2 ^ 64" "owed t pid what + unat n < 2 ^ 64" and n: "0 < n"
  shows "\<exists>t'. Timeout_expect checks now t pid n what = Ok t' \<and> to_inv t' \<and>
    owed t' = (owed t)(pid := (owed t pid)(what := owed t pid what + unat n)) \<and>
    deadline t' = (deadline t)(pid \<mapsto> unat now + 60)"
proof -
  obtain t1 where t1: "set_deadline checks now t pid = Ok t1" using set_deadline_Ok [OF room(1)] by blast
  note D = deadline_set [OF t1 room(1)]
  define e where "e = or_insert (expected t1) pid []"
  define m where "m = or_insert e what 0"
  have m: "unat m = owed t pid what" by (simp add: m_def e_def owed_def D)
  then have add: "(rust_add checks m n :: u64 result) = Ok (m + n)" "unat (m + n) = owed t pid what + unat n"
    using room(2) by (simp_all add: rust_add_Ok unat_word_ariths)
  define t' where "t' = t1\<lparr>expected := AList.update pid (AList.update what (m + n) e) (expected t1)\<rparr>"
  have run: "Timeout_expect checks now t pid n what = Ok t'"
    using t1 add(1) by (simp add: Timeout_expect_def Let_def t'_def m_def e_def)
  have owed': "owed t' = (owed t)(pid := (owed t pid)(what := owed t pid what + unat n))"
    using add(2) by (auto simp: fun_eq_iff t'_def owed_def e_def D)
  have dl: "deadline t' = (deadline t)(pid \<mapsto> unat now + 60)"
    using D(3) by (simp add: t'_def deadline_def fun_eq_iff)
  have "distinct (map fst e)"
    using inv by (auto simp: e_def or_insert_def D to_inv_def split: option.splits)
  then have "to_inv t'"
    unfolding to_inv_def owed' dl using inv n D(4)
    by (auto simp: to_inv_def t'_def D(2) update_conv' distinct_update unat_gt_0 word_neq_0_conv split: if_splits)
  then show ?thesis using run owed' dl by blast
qed

lemma to_inv_change:
  assumes "to_inv t" "distinct (map fst (timeouts t'))" "\<And>p x. map_of (expected t') p = Some x \<Longrightarrow> distinct (map fst x)"
    "\<And>p. p \<noteq> pid \<Longrightarrow> deadline t' p = deadline t p \<and> owed t' p = owed t p"
    "deadline t' pid \<noteq> None \<longleftrightarrow> (\<exists>w. 0 < owed t' pid w)"
  shows "to_inv t'"
  using assms unfolding to_inv_def by metis

lemma all_zero: "distinct (map fst e) \<Longrightarrow> list_all (\<lambda>(_, v). v = 0) e \<longleftrightarrow> (\<forall>w v. map_of e w = Some v \<longrightarrow> v = 0)"
  by (auto simp: list_all_iff)

lemma unat_rest: "unat (m - min n m) = unat m - unat (n :: u64)"
  by (auto simp: min_def unat_sub word_le_nat_alt)

text \<open>The first part of \<open>received\<close>: a peer that owes such a reply gets more time.\<close>

lemma received_prolongs:
  assumes "to_inv t" "unat now + 60 < 2 ^ 64"
  obtains t1 where "(if expects_some t pid what then set_deadline checks now t pid else Ok t) = Ok t1"
    "owed t1 = owed t" "expected t1 = expected t" "distinct (map fst (timeouts t1))"
    "deadline t1 = (if 0 < owed t pid what then (deadline t)(pid \<mapsto> unat now + 60) else deadline t)"
proof -
  obtain t1 where t1: "(if expects_some t pid what then set_deadline checks now t pid else Ok t) = Ok t1"
    using set_deadline_Ok [OF assms(2), of checks t pid] by (cases "expects_some t pid what") auto
  then have "owed t1 = owed t" "expected t1 = expected t" "distinct (map fst (timeouts t1))"
    "deadline t1 = (if 0 < owed t pid what then (deadline t)(pid \<mapsto> unat now + 60) else deadline t)"
    using deadline_set [OF _ assms(2), of checks t pid t1] assms(1) by (auto simp: expects_some_owed to_inv_def split: if_splits)
  then show thesis using that t1 by blast
qed

lemma received_spec:
  assumes inv: "to_inv t" and room: "unat now + 60 < 2 ^ 64"
  shows "\<exists>t'. Timeout_received checks now t pid n what = Ok t' \<and> to_inv t' \<and>
    owed t' = (owed t)(pid := (owed t pid)(what := owed t pid what - unat n)) \<and>
    deadline t' =
      (if \<forall>w. owed t' pid w = 0 then (deadline t)(pid := None)
       else if 0 < owed t pid what then (deadline t)(pid \<mapsto> unat now + 60) else deadline t)"
proof -
  obtain t1 where t1: "(if expects_some t pid what then set_deadline checks now t pid else Ok t) = Ok t1"
    and T: "owed t1 = owed t" "expected t1 = expected t" "distinct (map fst (timeouts t1))"
      "deadline t1 = (if 0 < owed t pid what then (deadline t)(pid \<mapsto> unat now + 60) else deadline t)"
    using received_prolongs [OF inv room] by metis
  have t0: "(case map_of (expected t) pid of Some e \<Rightarrow> (case map_of e what of
      Some m \<Rightarrow> if 0 < m then set_deadline checks now t pid else Ok t | None \<Rightarrow> Ok t) | None \<Rightarrow> Ok t) = Ok t1"
    using t1 by (auto simp: expects_some_def split: option.splits)
  define e where "e = or_insert (expected t) pid []"
  define m where "m = or_insert e what n"
  define e' where "e' = AList.update what (m - min n m) e"
  define t2 where "t2 = t1\<lparr>expected := AList.update pid e' (expected t1)\<rparr>"
  define t' where "t' = (if list_all (\<lambda>(_, v). v = 0) e' then t2\<lparr>timeouts := AList.delete pid (timeouts t2)\<rparr> else t2)"
  have run: "Timeout_received checks now t pid n what = Ok t'"
    unfolding Timeout_received_def t0 by (simp add: Let_def T(2) t'_def t2_def e'_def m_def e_def)
  have "unat m - unat n = owed t pid what - unat n" by (auto simp: m_def or_insert_def owed_def e_def split: option.splits)
  then have owed2: "owed t2 = (owed t)(pid := (owed t pid)(what := owed t pid what - unat n))"
    using T(1,2) by (auto simp: fun_eq_iff t2_def owed_def e'_def e_def unat_rest)
  then have owed': "owed t' = (owed t)(pid := (owed t pid)(what := owed t pid what - unat n))"
    by (auto simp: t'_def owed_def fun_eq_iff)
  have de: "distinct (map fst e')"
    using inv by (auto simp: e'_def e_def or_insert_def to_inv_def distinct_update split: option.splits)
  have zero: "list_all (\<lambda>(_, v). v = 0) e' \<longleftrightarrow> (\<forall>w. owed t2 pid w = 0)"
    unfolding all_zero [OF de] by (auto simp: owed_def t2_def or_insert_def unat_eq_0 update_conv' split: option.splits)
  have dl: "deadline t' = (if \<forall>w. owed t' pid w = 0 then (deadline t)(pid := None) else deadline t1)"
    using T(4) unfolding owed' owed2 [symmetric] zero [symmetric]
    by (auto simp: t'_def t2_def deadline_def delete_conv' fun_eq_iff)
  have "to_inv t'"
  proof (rule to_inv_change [OF inv, of _ pid])
    show "distinct (map fst (timeouts t'))" using T(3) by (simp add: t'_def t2_def distinct_delete)
    show "distinct (map fst x)" if "map_of (expected t') p = Some x" for p x
      using that de inv T(2) by (auto simp: t'_def t2_def update_conv' to_inv_def split: if_splits)
    show "deadline t' p = deadline t p \<and> owed t' p = owed t p" if "p \<noteq> pid" for p using that dl T(4) owed' by auto
    have "0 < owed t pid w" if "0 < owed t' pid w" for w using that owed' by (auto split: if_splits)
    then show "deadline t' pid \<noteq> None \<longleftrightarrow> (\<exists>w. 0 < owed t' pid w)" using dl T(4) inv by (auto simp: to_inv_def)
  qed
  then show ?thesis using run owed' dl T(4) by auto
qed

text \<open>The check forgets the late peers and sends a ban for each, once.\<close>

lemma forget_all_view:
  "owed (fold (\<lambda>pid t. Timeout_forget t pid) ps t) p what = (if p \<in> set ps then 0 else owed t p what)"
  "deadline (fold (\<lambda>pid t. Timeout_forget t pid) ps t) p = (if p \<in> set ps then None else deadline t p)"
  by (induction ps arbitrary: t) auto

lemma forget_all_inv: "to_inv t \<Longrightarrow> to_inv (fold (\<lambda>pid t. Timeout_forget t pid) ps t)"
  by (induction ps arbitrary: t) (simp_all add: forget_inv)

lemma send_bans:
  "fold (\<lambda>pid q. P2PControlSender_send q (Ban pid 100)) ps q = q @ map (\<lambda>pid. Ban pid 100) ps"
  by (induction ps arbitrary: q) (simp_all add: P2PControlSender_send_def)

definition late :: "nat \<Rightarrow> (PeerId \<Rightarrow> nat option) \<Rightarrow> (PeerId \<Rightarrow> 'r \<Rightarrow> nat) \<Rightarrow> 'r list \<Rightarrow> PeerId \<Rightarrow> bool" where
  "late now dl ow replies pid \<longleftrightarrow>
     (\<exists>d. dl pid = Some d \<and> d < now) \<and> (\<exists>what\<in>set replies. 0 < ow pid what)"

lemma late_peers_set:
  assumes "to_inv t"
  shows "pid \<in> set (late_peers now t replies) \<longleftrightarrow> late (unat now) (deadline t) (owed t) replies pid"
proof -
  have "distinct (map fst (timeouts t))" using assms by (simp add: to_inv_def)
  then have "(\<exists>d. (pid, d) \<in> set (timeouts t) \<and> d < now) \<longleftrightarrow> (\<exists>d. deadline t pid = Some d \<and> d < unat now)"
    by (auto simp: deadline_def word_less_nat_alt)
  then show ?thesis by (auto simp: late_peers_def late_def list_ex_iff expects_some_owed image_iff)
qed

lemma late_peers_distinct: "to_inv t \<Longrightarrow> distinct (late_peers now t replies)"
  by (simp add: to_inv_def late_peers_def distinct_map_filter)

section \<open>Refinement\<close>

text \<open>
  The specification: for each peer the number of replies owed by kind, and the time until which they
  are due, for a peer that owes something. The bans are the set of late peers.
\<close>

type_synonym 'r ledger = "(PeerId \<Rightarrow> 'r \<Rightarrow> nat) \<times> (PeerId \<Rightarrow> nat option)"

definition ledger_of :: "'r Timeout \<Rightarrow> 'r ledger" where
  "ledger_of t = (owed t, deadline t)"

datatype 'r timeout_call =
    ForgetCall PeerId | ExpectCall PeerId u64 'r | ReceivedCall PeerId u64 'r | CheckCall "'r list"

fun timeout_step ::
  "bool \<Rightarrow> u64 \<Rightarrow> 'r Timeout \<times> control_queue \<Rightarrow> 'r timeout_call \<Rightarrow> ('r Timeout \<times> control_queue) result" where
  "timeout_step checks now (t, q) (ForgetCall pid) = Ok (Timeout_forget t pid, q)"
| "timeout_step checks now (t, q) (ExpectCall pid n what) =
     obind (Timeout_expect checks now t pid n what) (\<lambda>t. Ok (t, q))"
| "timeout_step checks now (t, q) (ReceivedCall pid n what) =
     obind (Timeout_received checks now t pid n what) (\<lambda>t. Ok (t, q))"
| "timeout_step checks now (t, q) (CheckCall replies) = Ok (Timeout_check now t q replies)"

fun ledger_step :: "nat \<Rightarrow> 'r ledger \<Rightarrow> 'r timeout_call \<Rightarrow> 'r ledger \<times> PeerId set" where
  "ledger_step now (ow, dl) (ForgetCall pid) = ((ow(pid := \<lambda>_. 0), dl(pid := None)), {})"
| "ledger_step now (ow, dl) (ExpectCall pid n what) =
     ((ow(pid := (ow pid)(what := ow pid what + unat n)), dl(pid \<mapsto> now + 60)), {})"
| "ledger_step now (ow, dl) (ReceivedCall pid n what) =
     (let ow' = ow(pid := (ow pid)(what := ow pid what - unat n)) in
      ((ow', if \<forall>w. ow' pid w = 0 then dl(pid := None)
             else if 0 < ow pid what then dl(pid \<mapsto> now + 60) else dl), {}))"
| "ledger_step now (ow, dl) (CheckCall replies) =
     (let banned = {pid. late now dl ow replies pid}
      in ((\<lambda>pid. if pid \<in> banned then (\<lambda>_. 0) else ow pid, \<lambda>pid. if pid \<in> banned then None else dl pid), banned))"

text \<open>Machine integers have room: the clock is not at its end, nor are the counts.\<close>

definition has_room :: "u64 \<Rightarrow> 'r ledger \<Rightarrow> 'r timeout_call \<Rightarrow> bool" where
  "has_room now l c \<longleftrightarrow>
     unat now + 60 < 2 ^ 64 \<and>
     (case c of ExpectCall pid n what \<Rightarrow> 0 < n \<and> fst l pid what + unat n < 2 ^ 64 | _ \<Rightarrow> True)"

lemma timeout_step_refines:
  assumes inv: "to_inv t" and room: "has_room now (ledger_of t) c"
  shows "\<exists>t' banned. timeout_step checks now (t, q) c = Ok (t', q @ map (\<lambda>pid. Ban pid 100) banned) \<and> to_inv t' \<and>
    ledger_step (unat now) (ledger_of t) c = (ledger_of t', set banned) \<and> distinct banned"
proof (cases c)
  case (ForgetCall pid)
  then show ?thesis using forget_inv [OF inv]
    by (intro exI [of _ "Timeout_forget t pid"] exI [of _ "[]"]) (auto simp: ledger_of_def fun_eq_iff)
next
  case (ExpectCall pid n what)
  then show ?thesis
    using expect_spec [OF inv, of now pid what n checks] room by (auto simp: has_room_def ledger_of_def)
next
  case (ReceivedCall pid n what)
  obtain t' where "Timeout_received checks now t pid n what = Ok t'" "to_inv t'"
    "owed t' = (owed t)(pid := (owed t pid)(what := owed t pid what - unat n))"
    "deadline t' = (if \<forall>w. owed t' pid w = 0 then (deadline t)(pid := None)
       else if 0 < owed t pid what then (deadline t)(pid \<mapsto> unat now + 60) else deadline t)"
    using received_spec [OF inv, of now checks pid n what] room by (auto simp: has_room_def)
  then show ?thesis
    using ReceivedCall by (intro exI [of _ t'] exI [of _ "[]"]) (simp add: ledger_of_def Let_def)
next
  case (CheckCall replies)
  define ps where "ps = late_peers now t replies"
  have "set ps = {pid. late (unat now) (deadline t) (owed t) replies pid}" "distinct ps"
    using late_peers_set [OF inv] late_peers_distinct [OF inv] by (auto simp: ps_def)
  then show ?thesis
    using CheckCall forget_all_inv [OF inv, of ps]
    by (intro exI [of _ "fold (\<lambda>pid t. Timeout_forget t pid) ps t"] exI [of _ ps])
      (simp add: Timeout_check_def Let_def ps_def [symmetric] send_bans ledger_of_def forget_all_view fun_eq_iff)
qed

fun timeout_run ::
  "bool \<Rightarrow> 'r Timeout \<times> control_queue \<Rightarrow> (u64 \<times> 'r timeout_call) list \<Rightarrow> ('r Timeout \<times> control_queue) result" where
  "timeout_run checks s [] = Ok s"
| "timeout_run checks s ((now, c) # cs) = obind (timeout_step checks now s c) (\<lambda>s. timeout_run checks s cs)"

fun ledger_run :: "'r ledger \<Rightarrow> (u64 \<times> 'r timeout_call) list \<Rightarrow> 'r ledger \<times> PeerId set" where
  "ledger_run l [] = (l, {})"
| "ledger_run l ((now, c) # cs) =
     (case ledger_step (unat now) l c of (l, banned) \<Rightarrow>
      case ledger_run l cs of (l, later) \<Rightarrow> (l, banned \<union> later))"

fun run_has_room :: "'r ledger \<Rightarrow> (u64 \<times> 'r timeout_call) list \<Rightarrow> bool" where
  "run_has_room l [] = True"
| "run_has_room l ((now, c) # cs) =
     (has_room now l c \<and> run_has_room (fst (ledger_step (unat now) l c)) cs)"

lemma timeout_run_refines:
  "to_inv t \<Longrightarrow> run_has_room (ledger_of t) cs \<Longrightarrow>
   \<exists>t' banned. timeout_run checks (t, q) cs = Ok (t', q @ map (\<lambda>pid. Ban pid 100) banned) \<and> to_inv t' \<and>
     ledger_run (ledger_of t) cs = (ledger_of t', set banned)"
proof (induction cs arbitrary: t q)
  case Nil
  then show ?case by (intro exI [of _ t] exI [of _ "[]"]) simp
next
  case (Cons x cs)
  obtain now c where x: "x = (now, c)" by (cases x)
  obtain t1 b1 where 1: "timeout_step checks now (t, q) c = Ok (t1, q @ map (\<lambda>pid. Ban pid 100) b1)" "to_inv t1"
    "ledger_step (unat now) (ledger_of t) c = (ledger_of t1, set b1)"
    using timeout_step_refines [OF Cons.prems(1), of now c checks q] Cons.prems(2) x by auto
  obtain t2 b2 where 2: "timeout_run checks (t1, q @ map (\<lambda>pid. Ban pid 100) b1) cs =
      Ok (t2, (q @ map (\<lambda>pid. Ban pid 100) b1) @ map (\<lambda>pid. Ban pid 100) b2)" "to_inv t2"
    "ledger_run (ledger_of t1) cs = (ledger_of t2, set b2)"
    using Cons.IH [OF 1(2), of "q @ map (\<lambda>pid. Ban pid 100) b1"] Cons.prems(2) x 1(3) by auto
  then show ?case using 1 x by (intro exI [of _ t2] exI [of _ "b1 @ b2"]) simp
qed

text \<open>
  C21. The table of timeouts implements the ledger: after any calls on a new table no call has
  panicked, what peers owe and until when is what the ledger says, exactly the peers the ledger
  finds late have been banned, and a peer is busy exactly while it owes a reply.
\<close>
theorem timeout_refines_ledger:
  assumes "run_has_room (\<lambda>_ _. 0, \<lambda>_. None) cs"
  shows "\<exists>t banned. timeout_run checks (Timeout_new, []) cs = Ok (t, map (\<lambda>pid. Ban pid 100) banned) \<and>
    ledger_run (\<lambda>_ _. 0, \<lambda>_. None) cs = (ledger_of t, set banned) \<and>
    (\<forall>pid. Timeout_is_busy t pid \<longleftrightarrow> (\<exists>what. 0 < owed t pid what))"
proof -
  have l: "ledger_of Timeout_new = (\<lambda>_ _. 0, \<lambda>_. None)" by (simp add: ledger_of_def fun_eq_iff)
  obtain t banned where "timeout_run checks (Timeout_new, []) cs = Ok (t, map (\<lambda>pid. Ban pid 100) banned)"
    "to_inv t" "ledger_run (\<lambda>_ _. 0, \<lambda>_. None) cs = (ledger_of t, set banned)"
    using timeout_run_refines [of Timeout_new cs checks "[]"] assms by (auto simp: l)
  then show ?thesis by (auto simp: is_busy_deadline to_inv_def)
qed

definition late_pong :: "(u64 \<times> ExpectedReply timeout_call) list" where
  "late_pong =
     [(0, ExpectCall \<lparr>pid_network = ''bitcoin'', pid_token = 1\<rparr> 1 ExpectPong), (61, CheckCall [ExpectPong])]"

theorem timeout_refines_ledger_witness:
  "run_has_room (\<lambda>_ _. 0, \<lambda>_. None) late_pong \<and>
   (\<exists>t banned. timeout_run True (Timeout_new, []) late_pong = Ok (t, map (\<lambda>pid. Ban pid 100) banned) \<and>
     set banned = {\<lparr>pid_network = ''bitcoin'', pid_token = 1\<rparr>})"
proof -
  have room: "run_has_room (\<lambda>_ _. 0, \<lambda>_. None) late_pong" by (simp add: late_pong_def has_room_def)
  have "snd (ledger_run (\<lambda>_ _. 0, \<lambda>_. None) late_pong) = {\<lparr>pid_network = ''bitcoin'', pid_token = 1\<rparr>}"
    by (auto simp: late_pong_def late_def Let_def split: if_splits)
  then show ?thesis using room timeout_refines_ledger [OF room, of True] by (metis snd_conv)
qed

section \<open>The tracker as the asking modules see it\<close>

text \<open>
  A module asks a peer one thing at a time: only if it does not wait for such a reply already.
  It relies on the laws of a single reply; from them follows that never more than one
  reply of a kind is awaited of a peer.
\<close>

locale reply_tracker =
  fixes tinv :: "'t \<Rightarrow> bool"
    and owes :: "'t \<Rightarrow> PeerId \<Rightarrow> 'r \<Rightarrow> nat"
    and in_time :: "u64 \<Rightarrow> bool"
    and expect :: "u64 \<Rightarrow> 't \<Rightarrow> PeerId \<Rightarrow> 'r \<Rightarrow> 't result"
    and received :: "u64 \<Rightarrow> 't \<Rightarrow> PeerId \<Rightarrow> 'r \<Rightarrow> 't result"
    and busy_with :: "'t \<Rightarrow> PeerId \<Rightarrow> 'r \<Rightarrow> bool"
    and forget :: "'t \<Rightarrow> PeerId \<Rightarrow> 't"
  assumes busy_law: "tinv t \<Longrightarrow> busy_with t pid w \<longleftrightarrow> 0 < owes t pid w"
    and expect_law: "tinv t \<Longrightarrow> in_time now \<Longrightarrow> owes t pid w = 0 \<Longrightarrow>
      \<exists>t'. expect now t pid w = Ok t' \<and> tinv t' \<and> owes t' = (owes t)(pid := (owes t pid)(w := 1))"
    and received_law: "tinv t \<Longrightarrow> in_time now \<Longrightarrow>
      \<exists>t'. received now t pid w = Ok t' \<and> tinv t' \<and> owes t' = (owes t)(pid := (owes t pid)(w := owes t pid w - 1))"
    and forget_law: "tinv t \<Longrightarrow> tinv (forget t pid) \<and> owes (forget t pid) = (owes t)(pid := \<lambda>_. 0)"
begin

lemma ask_once:
  assumes "tinv t" "in_time now" "\<forall>p. owes t p w \<le> 1"
  shows "\<exists>t'. (if busy_with t pid w then Ok t else expect now t pid w) = Ok t' \<and> tinv t' \<and>
    (\<forall>p. owes t' p w \<le> 1) \<and> owes t' pid w = 1"
proof (cases "busy_with t pid w")
  case True
  then have "owes t pid w = 1" using assms(3) busy_law [OF assms(1), of pid w] by (metis One_nat_def Suc_leI le_antisym)
  then show ?thesis using assms True by auto
next
  case False
  then have "owes t pid w = 0" using busy_law [OF assms(1)] by simp
  from expect_law [OF assms(1,2) this] show ?thesis using assms(3) False by auto
qed

lemma received_once:
  assumes "tinv t" "in_time now" "\<forall>p. owes t p w \<le> 1"
  shows "\<exists>t'. received now t pid w = Ok t' \<and> tinv t' \<and> (\<forall>p. owes t' p w \<le> 1) \<and> owes t' pid w = 0"
  using received_law [OF assms(1,2), of pid w] assms(3) by auto

end

interpretation replies: reply_tracker to_inv owed "\<lambda>now. unat now + 60 < 2 ^ 64"
  "\<lambda>now t pid w. Timeout_expect checks now t pid 1 w" "\<lambda>now t pid w. Timeout_received checks now t pid 1 w"
  Timeout_is_busy_with Timeout_forget
  for checks
proof (unfold_locales, goal_cases)
  case (1 t pid w)
  then show ?case by (rule busy_with_owed)
next
  case (2 t now pid w)
  then show ?case using expect_spec [of t now pid w 1 checks] by auto
next
  case (3 t now pid w)
  then show ?case using received_spec [of t now checks pid 1 w] by auto
next
  case (4 t pid)
  then show ?case using forget_inv by (auto simp: fun_eq_iff)
qed

end
