(* ===== verification/Node_Modules.thy ===== *)
theory Node_Modules
  imports Peer_Timeout
begin

text \<open>
  The small modules above the network layer: the dispatcher of incoming messages
  (\<open>src/src/dispatcher.rs\<close>), the interface to the application (\<open>src/src/downstream.rs\<close>) and the
  ping (\<open>src/src/ping.rs\<close>). A loop that waits on a channel is a function on the list of what the
  channel delivers.
\<close>

section \<open>The dispatcher\<close>

record 'm Dispatcher =
  listeners :: "'m message_sender list"

definition Dispatcher_new :: "'m Dispatcher" where
  "Dispatcher_new = \<lparr>listeners = []\<rparr>"

definition Dispatcher_add_listener :: "'m Dispatcher \<Rightarrow> 'm message_sender \<Rightarrow> 'm Dispatcher" where
  "Dispatcher_add_listener d listener = d\<lparr>listeners := listeners d @ [listener]\<rparr>"

text \<open>The body of the loop: every listener is sent a copy.\<close>

definition Dispatcher_forward :: "'m Dispatcher \<Rightarrow> 'm PeerMessage \<Rightarrow> 'm Dispatcher" where
  "Dispatcher_forward d pm = d\<lparr>listeners := map (\<lambda>l. PeerMessageSender_send l pm) (listeners d)\<rparr>"

text \<open>When the channel is closed the loop ends in a panic.\<close>

fun incoming_messages_loop :: "'m PeerMessage list \<Rightarrow> 'm Dispatcher \<Rightarrow> 'm Dispatcher \<times> unit result" where
  "incoming_messages_loop [] d = (d, Panicked)"
| "incoming_messages_loop (pm # incoming) d =
     incoming_messages_loop incoming (Dispatcher_forward d pm)"

lemma dispatch_all:
  "listeners (fst (incoming_messages_loop msgs d)) =
     map (map_option (\<lambda>ch. ch @ msgs)) (listeners d)"
proof (induction msgs arbitrary: d)
  case Nil
  have "map_option (\<lambda>ch. ch) = (\<lambda>x :: 'a message_sender. x)" by (simp add: fun_eq_iff option.map_ident)
  then show ?case by simp
next
  case (Cons m ms)
  show ?case by (simp add: Cons.IH Dispatcher_forward_def PeerMessageSender_send_def comp_def option.case_eq_if option.map_comp)
      (auto simp: option.map_sel split: option.splits)
qed

section \<open>The application\<close>

text \<open>A block of the bitcoin crate: its header and the transactions, serialised.\<close>

record Block =
  blk_header :: BlockHeader
  blk_txdata :: "u8 list list"

text \<open>The trait \<open>Downstream\<close>: three functions on the state of the application.\<close>

record 's Downstream =
  block_connected :: "'s \<Rightarrow> Block \<Rightarrow> u32 \<Rightarrow> 's"
  header_connected :: "'s \<Rightarrow> BlockHeader \<Rightarrow> u32 \<Rightarrow> 's"
  block_disconnected :: "'s \<Rightarrow> BlockHeader \<Rightarrow> 's"

definition DownStreamDummy :: "unit Downstream" where
  "DownStreamDummy =
     \<lparr>block_connected = (\<lambda>s _ _. s), header_connected = (\<lambda>s _ _. s), block_disconnected = (\<lambda>s _. s)\<rparr>"

text \<open>An application that keeps a record of what it is told, on which properties are stated.\<close>

datatype notice = BlockConnected Block u32 | HeaderConnected BlockHeader u32 | BlockDisconnected BlockHeader

definition recorder :: "notice list Downstream" where
  "recorder =
     \<lparr>block_connected = (\<lambda>s b h. s @ [BlockConnected b h]),
      header_connected = (\<lambda>s b h. s @ [HeaderConnected b h]),
      block_disconnected = (\<lambda>s b. s @ [BlockDisconnected b])\<rparr>"

section \<open>The ping\<close>

text \<open>
  The numbers sent to peers, the shared table of timeouts and the control channel. \<open>asked\<close> is the
  map of the numbers not answered yet.
\<close>

record Ping =
  asked :: "PeerId \<rightharpoonup> u64"
  ping_timeout :: "ExpectedReply Timeout"
  ping_p2p :: control_queue

text \<open>The module and the sending end of its channel; the thread is started by the caller of the model.\<close>

definition Ping_new :: "control_queue \<Rightarrow> ExpectedReply Timeout \<Rightarrow> Ping \<times> NetworkMessage message_sender" where
  "Ping_new p2p timeout = (\<lparr>asked = Map.empty, ping_timeout = timeout, ping_p2p = p2p\<rparr>, PeerMessageSender_new)"

definition ping_message ::
  "bool \<Rightarrow> u64 \<Rightarrow> Ping \<Rightarrow> NetworkMessage PeerMessage \<Rightarrow> Ping result" where
  "ping_message checks now p msg =
     (case msg of
        Disconnected pid _ \<Rightarrow>
          Ok (p\<lparr>ping_timeout := Timeout_forget (ping_timeout p) pid, asked := (asked p)(pid := None)\<rparr>)
      | Incoming pid (Pong n) \<Rightarrow>
          let answer = asked p pid;
              p = p\<lparr>asked := (asked p)(pid := None)\<rparr>
          in if answer = Some n
             then obind (Timeout_received checks now (ping_timeout p) pid 1 ExpectPong) (\<lambda>t.
                    Ok (p\<lparr>ping_timeout := t\<rparr>))
             else Ok p
      | _ \<Rightarrow> Ok p)"

text \<open>The round over the peers; \<open>rnd\<close> gives the random number drawn for each.\<close>

fun ping_peers :: "bool \<Rightarrow> u64 \<Rightarrow> (PeerId \<Rightarrow> u64) \<Rightarrow> PeerId list \<Rightarrow> Ping \<Rightarrow> Ping result" where
  "ping_peers checks now rnd [] p = Ok p"
| "ping_peers checks now rnd (pid # pids) p =
     (if \<not> Timeout_is_busy (ping_timeout p) pid
      then obind (Timeout_expect checks now (ping_timeout p) pid 1 ExpectPong) (\<lambda>t.
             ping_peers checks now rnd pids
               (p\<lparr>asked := (asked p)(pid \<mapsto> rnd pid), ping_timeout := t,
                  ping_p2p := P2PControlSender_send_network (ping_p2p p) pid (NetworkMessage.Ping (rnd pid))\<rparr>))
      else ping_peers checks now rnd pids p)"

definition ping_round :: "bool \<Rightarrow> u64 \<Rightarrow> (PeerId \<Rightarrow> u64) \<Rightarrow> P2P \<Rightarrow> Ping \<Rightarrow> Ping result" where
  "ping_round checks now rnd n p =
     (let (t, q) = Timeout_check now (ping_timeout p) (ping_p2p p) [ExpectPong]
      in ping_peers checks now rnd (P2PControlSender_peers n) (p\<lparr>ping_timeout := t, ping_p2p := q\<rparr>))"

text \<open>
  The thread: it handles a message, or, when none came for \<open>SECS\<close> seconds (\<open>Inl\<close>, with the
  state of the network layer and the random numbers), makes a round.
\<close>

fun Ping_run ::
  "bool \<Rightarrow> (u64 \<times> ((P2P \<times> (PeerId \<Rightarrow> u64)) + NetworkMessage PeerMessage)) list \<Rightarrow> Ping \<Rightarrow> Ping result" where
  "Ping_run checks [] p = Ok p"
| "Ping_run checks ((now, Inr msg) # xs) p = obind (ping_message checks now p msg) (Ping_run checks xs)"
| "Ping_run checks ((now, Inl (n, rnd)) # xs) p = obind (ping_round checks now rnd n p) (Ping_run checks xs)"

end
