(* ===== verification/Header_Download.thy ===== *)
theory Header_Download
  imports Chain_DB Node_Modules
begin

text \<open>
  The download of headers (\<open>src/src/headerdownload.rs\<close>): asking peers that serve blocks for the
  headers after this node's, adding what they answer to the chain database, telling the
  application, and banning peers that send headers without proof of work. The database, the
  table of timeouts and the control channel are shared with other modules and part of the state.
\<close>

section \<open>State\<close>

record ('d, 's) HeaderDownload =
  hd_p2p :: control_queue
  hd_chaindb :: "'d ChainDB"
  hd_timeout :: "ExpectedReply Timeout"
  hd_downstream :: 's

text \<open>The module and the sending end of its channel.\<close>

definition HeaderDownload_new ::
  "'d ChainDB \<Rightarrow> control_queue \<Rightarrow> ExpectedReply Timeout \<Rightarrow> 's \<Rightarrow> ('d, 's) HeaderDownload \<times> NetworkMessage message_sender" where
  "HeaderDownload_new chaindb p2p timeout downstream =
     (\<lparr>hd_p2p = p2p, hd_chaindb = chaindb, hd_timeout = timeout, hd_downstream = downstream\<rparr>, PeerMessageSender_new)"

section \<open>Asking for headers\<close>

definition HeaderDownload_is_serving_blocks :: "P2P \<Rightarrow> PeerId \<Rightarrow> bool" where
  "HeaderDownload_is_serving_blocks n pid =
     (case P2PControlSender_peer_version n pid of
        Some peer_version \<Rightarrow> vc_services peer_version AND SERVICE_BLOCKS \<noteq> 0
      | None \<Rightarrow> False)"

definition HeaderDownload_get_headers ::
  "bool \<Rightarrow> u64 \<Rightarrow> ('d, 's) HeaderDownload \<Rightarrow> PeerId \<Rightarrow> ('d, 's) HeaderDownload \<times> unit result" where
  "HeaderDownload_get_headers checks now d pid =
     (if Timeout_is_busy_with (hd_timeout d) pid ExpectHeaders then (d, Ok ())
      else
        let locator = ChainDB_header_locators (hd_chaindb d) in
        if 0 < length locator then
          (case Timeout_expect checks now (hd_timeout d) pid 1 ExpectHeaders of
             Ok t \<Rightarrow>
               (d\<lparr>hd_p2p := P2PControlSender_send_network (hd_p2p d) pid (GetHeaders locator (hd locator)),
                  hd_timeout := t\<rparr>, Ok ())
           | _ \<Rightarrow> (d, Panicked))
        else (d, Ok ()))"

text \<open>An announcement of blocks asks for headers if one of them is not known.\<close>

definition HeaderDownload_inv ::
  "bool \<Rightarrow> u64 \<Rightarrow> ('d, 's) HeaderDownload \<Rightarrow> Inventory list \<Rightarrow> PeerId \<Rightarrow> ('d, 's) HeaderDownload \<times> unit result" where
  "HeaderDownload_inv checks now d v pid =
     (if list_ex (\<lambda>i. inv_type i = InvBlock \<and> ChainDB_get_header (hd_chaindb d) (inv_hash i) = None) v
      then HeaderDownload_get_headers checks now d pid
      else (d, Ok ()))"

section \<open>Adding headers\<close>

text \<open>What the handler has collected: lines 137 to 140, 154 and 155.\<close>

record progress =
  pr_height :: u32
  pr_some_new :: bool
  pr_moved_tip :: "hash option"
  pr_disconnected :: "BlockHeader list"
  pr_connected :: "(BlockHeader \<times> u32) list"

text \<open>
  How the inner loop ends: with the headers left in the queue, which are none unless the trunk was
  unwound; by returning from the handler, with a ban or without; or by a panic.
\<close>

datatype loop_exit = Batch "BlockHeader list" | ReturnBanning | ReturnQuietly | Panicking

text \<open>\<open>unwinds.iter().map(|h| chaindb.get_header(h).unwrap().stored.header)\<close>\<close>

fun headers_of :: "'d ChainDB \<Rightarrow> hash list \<Rightarrow> BlockHeader list option" where
  "headers_of cd [] = Some []"
| "headers_of cd (h # hs) =
     (case ChainDB_get_header cd h of
        Some c \<Rightarrow> map_option ((#) (ch_header c)) (headers_of cd hs)
      | None \<Rightarrow> None)"

fun add_loop ::
  "'d db_api \<Rightarrow> ext \<Rightarrow> 'd ChainDB \<Rightarrow> progress \<Rightarrow> BlockHeader list \<Rightarrow> ('d ChainDB \<times> progress \<times> loop_exit) option" where
  "add_loop A X cd p [] = Some (cd, p, Batch [])"
| "add_loop A X cd p (header # queue) =
     (case ChainDB_add_header A X cd header of
        None \<Rightarrow> None
      | Some (cd, Ok (Some (stored, unwinds, forwards))) \<Rightarrow>
          let p = p\<lparr>pr_connected := pr_connected p @ [(sh_header stored, sh_height stored)], pr_some_new := True\<rparr> in
          if forwards = Some [] then Some (cd, p, Panicking)
          else
            let p = (case forwards of Some f \<Rightarrow> p\<lparr>pr_moved_tip := Some (last f)\<rparr> | None \<Rightarrow> p);
                p = p\<lparr>pr_height := sh_height stored\<rparr>
            in (case unwinds of
                  Some u \<Rightarrow>
                    (case headers_of cd u of
                       Some hs \<Rightarrow> Some (cd, p\<lparr>pr_disconnected := pr_disconnected p @ hs\<rparr>, Batch queue)
                     | None \<Rightarrow> Some (cd, p, Panicking))
                | None \<Rightarrow> add_loop A X cd p queue)
      | Some (cd, Ok None) \<Rightarrow> add_loop A X cd p queue
      | Some (cd, Err SpvBadProofOfWork) \<Rightarrow> Some (cd, p, ReturnBanning)
      | Some (cd, Err _) \<Rightarrow> Some (cd, p, ReturnQuietly)
      | Some (cd, Panicked) \<Rightarrow> Some (cd, p, Panicking))"

lemma add_loop_shorter: "add_loop A X cd p queue = Some (cd', p', Batch rest) \<Longrightarrow> length rest \<le> length queue - 1"
proof (induction queue arbitrary: cd p)
  case (Cons header queue)
  have "length rest \<le> length queue" if "add_loop A X cd1 p1 queue = Some (cd', p', Batch rest)" for cd1 p1
    using Cons.IH [OF that] by simp
  then show ?case
    using Cons.prems
    by (auto simp: Let_def split: option.splits outcome.splits error.splits if_splits)
qed simp

text \<open>The notices to the application after each batch: lines 191 to 198.\<close>

definition notify :: "'s Downstream \<Rightarrow> progress \<Rightarrow> 's \<Rightarrow> 's" where
  "notify D p s =
     fold (\<lambda>(header, height) s. header_connected D s header height) (pr_connected p)
       (fold (\<lambda>header s. block_disconnected D s header) (pr_disconnected p) s)"

text \<open>
  The outer loop: \<open>Ok True\<close> when the queue is empty, \<open>Ok False\<close> when the handler returned early.
\<close>

function headers_loop ::
  "'d db_api \<Rightarrow> ext \<Rightarrow> 's Downstream \<Rightarrow> PeerId \<Rightarrow> ('d, 's) HeaderDownload \<Rightarrow> progress \<Rightarrow> BlockHeader list \<Rightarrow>
   (('d, 's) HeaderDownload \<times> progress \<times> bool result) option" where
  "headers_loop A X D pid d p queue =
     (if queue = [] then Some (d, p, Ok True)
      else
        (case add_loop A X (hd_chaindb d) (p\<lparr>pr_disconnected := [], pr_connected := []\<rparr>) queue of
           None \<Rightarrow> None
         | Some (cd, p, Batch rest) \<Rightarrow>
             (case ChainDB_batch A cd of
                (cd, Ok _) \<Rightarrow>
                  headers_loop A X D pid
                    (d\<lparr>hd_chaindb := cd, hd_downstream := notify D p (hd_downstream d)\<rparr>) p rest
              | (cd, Err e) \<Rightarrow> Some (d\<lparr>hd_chaindb := cd\<rparr>, p, Err e)
              | (cd, Panicked) \<Rightarrow> Some (d\<lparr>hd_chaindb := cd\<rparr>, p, Panicked))
         | Some (cd, p, ReturnBanning) \<Rightarrow>
             Some (d\<lparr>hd_p2p := P2PControlSender_ban (hd_p2p d) pid 100, hd_chaindb := cd\<rparr>, p, Ok False)
         | Some (cd, p, ReturnQuietly) \<Rightarrow> Some (d\<lparr>hd_chaindb := cd\<rparr>, p, Ok False)
         | Some (cd, p, Panicking) \<Rightarrow> Some (d\<lparr>hd_chaindb := cd\<rparr>, p, Panicked)))"
  by pat_completeness auto

termination
proof (relation "measure (\<lambda>(A, X, D, pid, d, p, queue). length queue)", goal_cases)
  case 1
  then show ?case by simp
next
  case (2 A X D pid d p queue)
  then show ?case by (cases queue) (auto simp del: add_loop.simps dest!: add_loop_shorter)
qed

declare headers_loop.simps [simp del]

definition HeaderDownload_headers ::
  "bool \<Rightarrow> u64 \<Rightarrow> 'd db_api \<Rightarrow> ext \<Rightarrow> 's Downstream \<Rightarrow> ('d, 's) HeaderDownload \<Rightarrow> BlockHeader list \<Rightarrow> PeerId \<Rightarrow>
   (('d, 's) HeaderDownload \<times> unit result) option" where
  "HeaderDownload_headers checks now A X D d headers pid =
     (case Timeout_received checks now (hd_timeout d) pid 1 ExpectHeaders of
        Ok t \<Rightarrow>
          let d = d\<lparr>hd_timeout := t\<rparr> in
          if 0 < length headers then
            (case ChainDB_header_tip (hd_chaindb d) of
               Some tip \<Rightarrow>
                 let p = \<lparr>pr_height = ch_height tip, pr_some_new = False, pr_moved_tip = None,
                          pr_disconnected = [], pr_connected = []\<rparr> in
                 (case headers_loop A X D pid d p headers of
                    None \<Rightarrow> None
                  | Some (d, p, Ok finished) \<Rightarrow>
                      if \<not> finished then Some (d, Ok ())
                      else
                        (case (if pr_some_new p then HeaderDownload_get_headers checks now d pid else (d, Ok ())) of
                           (d, Ok _) \<Rightarrow>
                             (case pr_moved_tip p of
                                Some new_tip \<Rightarrow>
                                  Some (d\<lparr>hd_p2p := P2PControlSender_send (hd_p2p d) (Height (pr_height p))\<rparr>, Ok ())
                              | None \<Rightarrow> Some (d, Ok ()))
                         | (d, r) \<Rightarrow> Some (d, r))
                  | Some (d, p, Err e) \<Rightarrow> Some (d, Err e)
                  | Some (d, p, Panicked) \<Rightarrow> Some (d, Panicked))
             | None \<Rightarrow> Some (d, Err NoTip))
          else Some (d, Ok ())
      | _ \<Rightarrow> Some (d, Panicked))"

section \<open>The thread\<close>

definition HeaderDownload_message ::
  "bool \<Rightarrow> u64 \<Rightarrow> 'd db_api \<Rightarrow> ext \<Rightarrow> 's Downstream \<Rightarrow> P2P \<Rightarrow> ('d, 's) HeaderDownload \<Rightarrow>
   NetworkMessage PeerMessage \<Rightarrow> (('d, 's) HeaderDownload \<times> unit result) option" where
  "HeaderDownload_message checks now A X D n d msg =
     (case msg of
        Connected pid _ \<Rightarrow>
          Some (if HeaderDownload_is_serving_blocks n pid then HeaderDownload_get_headers checks now d pid else (d, Ok ()))
      | Disconnected _ _ \<Rightarrow> Some (d, Ok ())
      | Incoming pid m \<Rightarrow>
          (case m of
             Headers headers \<Rightarrow>
               if HeaderDownload_is_serving_blocks n pid then HeaderDownload_headers checks now A X D d headers pid
               else Some (d, Ok ())
           | Inv v \<Rightarrow>
               Some (if HeaderDownload_is_serving_blocks n pid then HeaderDownload_inv checks now d v pid else (d, Ok ()))
           | _ \<Rightarrow> Some (d, Ok ()))
      | _ \<Rightarrow> Some (d, Ok ()))"

definition HeaderDownload_tick :: "u64 \<Rightarrow> ('d, 's) HeaderDownload \<Rightarrow> ('d, 's) HeaderDownload" where
  "HeaderDownload_tick now d =
     (let (t, q) = Timeout_check now (hd_timeout d) (hd_p2p d) [ExpectHeaders]
      in d\<lparr>hd_p2p := q, hd_timeout := t\<rparr>)"

text \<open>
  The loop: it handles a message, an error of which is only logged, or, when none came for a second
  (\<open>Inl\<close>), checks for peers that are late. A panic ends the thread.
\<close>

fun HeaderDownload_run ::
  "bool \<Rightarrow> 'd db_api \<Rightarrow> ext \<Rightarrow> 's Downstream \<Rightarrow> (u64 \<times> (unit + P2P \<times> NetworkMessage PeerMessage)) list \<Rightarrow>
   ('d, 's) HeaderDownload \<Rightarrow> (('d, 's) HeaderDownload \<times> unit result) option" where
  "HeaderDownload_run checks A X D [] d = Some (d, Ok ())"
| "HeaderDownload_run checks A X D ((now, Inl _) # xs) d = HeaderDownload_run checks A X D xs (HeaderDownload_tick now d)"
| "HeaderDownload_run checks A X D ((now, Inr (n, msg)) # xs) d =
     (case HeaderDownload_message checks now A X D n d msg of
        None \<Rightarrow> None
      | Some (d, Panicked) \<Rightarrow> Some (d, Panicked)
      | Some (d, _) \<Rightarrow> HeaderDownload_run checks A X D xs d)"

end
