(* ===== verification/Node_Stack.thy ===== *)
theory Node_Stack
  imports Header_Download
begin

text \<open>
  The assembly of the node: the constructor (\<open>src/src/constructor.rs\<close>) with the task that keeps it
  connected, the lookup of seed addresses (\<open>src/src/dns.rs\<close>), the connector to a lightning
  implementation (\<open>src/src/lightning.rs\<close>) and the command line of the client
  (\<open>src/src/bin/client.rs\<close>). The name service, random numbers and the parsers of addresses
  and numbers of the standard library are arguments.
\<close>

section \<open>Seeds\<close>

definition MAIN_SEEDER :: "string list" where
  "MAIN_SEEDER =
     [''seed.bitcoin.sipa.be'', ''dnsseed.bluematt.me'', ''dnsseed.bitcoin.dashjr.org'', ''seed.bitcoinstats.com'',
      ''seed.btc.petertodd.org'']"

definition TEST_SEEDER :: "string list" where
  "TEST_SEEDER =
     [''testnet-seed.bitcoin.jonasschnelli.ch'', ''seed.tbtc.petertodd.org'', ''seed.testnet.bitcoin.sprovoost.nl'',
      ''testnet-seed.bluematt.me'']"

type_synonym name_service = "string \<Rightarrow> 16 word \<Rightarrow> (io_error, SocketAddr list) outcome"

fun lookup_seeds :: "name_service \<Rightarrow> string list \<Rightarrow> 16 word \<Rightarrow> SocketAddr list \<Rightarrow> SocketAddr list" where
  "lookup_seeds dns [] port seeds = seeds"
| "lookup_seeds dns (seedhost # hosts) port seeds =
     lookup_seeds dns hosts port (case dns seedhost port of Ok found \<Rightarrow> seeds @ found | _ \<Rightarrow> seeds)"

definition dns_seed :: "name_service \<Rightarrow> Network \<Rightarrow> SocketAddr list" where
  "dns_seed dns network =
     (let seeds = [];
          seeds = (if network = Bitcoin then lookup_seeds dns MAIN_SEEDER 8333 seeds else seeds);
          seeds = (if network = Testnet then lookup_seeds dns TEST_SEEDER 18333 seeds else seeds)
      in seeds)"

lemma lookup_seeds_eq:
  "lookup_seeds dns hosts port seeds =
     seeds @ concat (map (\<lambda>h. case dns h port of Ok found \<Rightarrow> found | _ \<Rightarrow> []) hosts)"
  by (induction hosts arbitrary: seeds) (auto split: outcome.splits)

section \<open>The constructor\<close>

text \<open>\<open>path\<close> is \<open>None\<close> for a database in memory; a path may fail to be UTF-8.\<close>

definition Constructor_open_db ::
  "'d db_api \<Rightarrow> ext \<Rightarrow> (Network \<Rightarrow> BlockHeader) \<Rightarrow> string option option \<Rightarrow> Network \<Rightarrow> u64 \<Rightarrow> 'd ChainDB result option" where
  "Constructor_open_db A X G path network birth =
     (case (case path of Some p \<Rightarrow> ChainDB_new A p network | None \<Rightarrow> ChainDB_mem A network) of
        Ok chaindb \<Rightarrow>
          map_option (\<lambda>(chaindb, r). obind r (\<lambda>_. Ok chaindb)) (ChainDB_init A X G chaindb)
      | Err e \<Rightarrow> Some (Err e)
      | Panicked \<Rightarrow> Some Panicked)"

abbreviation (input) MAX_PROTOCOL_VERSION :: u32 where
  "MAX_PROTOCOL_VERSION \<equiv> 70001"

text \<open>The node: the network layer, its control channel, the modules and the table they share.\<close>

record ('d, 's) Constructor =
  co_p2p :: P2P
  co_tasks :: tasks
  co_control :: control_queue
  co_dispatcher :: "NetworkMessage Dispatcher"
  co_chaindb :: "'d ChainDB"
  co_timeout :: "ExpectedReply Timeout"
  co_asked :: "PeerId \<rightharpoonup> u64"
  co_downstream :: 's

text \<open>The network's magic number (bitcoin crate) and the nonce are arguments.\<close>

definition Constructor_new ::
  "(Network \<Rightarrow> u32) \<Rightarrow> u64 \<Rightarrow> 's \<Rightarrow> Network \<Rightarrow> SocketAddr list \<Rightarrow> 'd ChainDB \<Rightarrow> ('d, 's) Constructor result" where
  "Constructor_new magic nonce downstream network listen chaindb =
     (let p2pconfig =
            \<lparr>cfg_magic = magic network, cfg_nonce = nonce, cfg_height = 0, cfg_user_agent = ''murmel: 0.1.0'',
             cfg_max_protocol_version = MAX_PROTOCOL_VERSION, cfg_server = (listen \<noteq> [])\<rparr>;
          p2p_control = P2PControlSender_new;
          timeout = Timeout_new;
          (download, to_download) = HeaderDownload_new chaindb p2p_control timeout downstream;
          (ping, to_ping) = Ping_new p2p_control timeout;
          dispatcher = Dispatcher_add_listener (Dispatcher_add_listener Dispatcher_new to_download) to_ping
      in Ok \<lparr>co_p2p = P2P_new p2pconfig, co_tasks = [],
             co_control = fold (\<lambda>addr q. P2PControlSender_send q (Bind addr)) listen p2p_control,
             co_dispatcher = dispatcher, co_chaindb = hd_chaindb download, co_timeout = timeout, co_asked = asked ping,
             co_downstream = hd_downstream download\<rparr>)"

section \<open>Staying connected\<close>

record KeepConnected =
  kc_dns :: "SocketAddr list"
  kc_earlier :: "SocketAddr set"
  kc_min_connections :: nat

text \<open>\<open>rnd\<close> is the random number drawn; the task of the new peer is spawned.\<close>

definition KeepConnected_poll :: "os \<Rightarrow> u32 \<Rightarrow> KeepConnected \<Rightarrow> P2P \<times> tasks \<Rightarrow> KeepConnected \<times> P2P \<times> tasks" where
  "KeepConnected_poll E rnd kc n =
     (if P2P_n_connected_peers (fst n) < kc_min_connections kc then
        let eligible = filter (\<lambda>a. a \<notin> kc_earlier kc) (kc_dns kc) in
        if 0 < length eligible then
          let choice = eligible ! (unat rnd mod length eligible)
          in (kc\<lparr>kc_earlier := insert choice (kc_earlier kc)\<rparr>,
              spawn_peer E ''bitcoin'' (OutgoingTo choice) n)
        else (kc, n)
      else (kc, n))"

text \<open>
  The interval: every ten seconds a clone of the task is polled (\<open>keep_connected.clone()\<close>). Between
  two polls the network layer moves on as \<open>f\<close> says.
\<close>

fun keep_connected_ticks ::
  "os \<Rightarrow> KeepConnected \<Rightarrow> P2P \<times> tasks \<Rightarrow> (u32 \<times> (P2P \<times> tasks \<Rightarrow> P2P \<times> tasks)) list \<Rightarrow> P2P \<times> tasks" where
  "keep_connected_ticks E keep_connected n [] = n"
| "keep_connected_ticks E keep_connected n ((rnd, f) # ticks) =
     keep_connected_ticks E keep_connected (f (snd (KeepConnected_poll E rnd keep_connected n))) ticks"

text \<open>\<open>run\<close> up to the event loop: the peers given are called, and the task is set up.\<close>

definition Constructor_run ::
  "os \<Rightarrow> name_service \<Rightarrow> ('d, 's) Constructor \<Rightarrow> Network \<Rightarrow> SocketAddr list \<Rightarrow> nat \<Rightarrow> ('d, 's) Constructor \<times> KeepConnected" where
  "Constructor_run E dns c network peers min_connections =
     (let (n, ts) = fold (\<lambda>addr. spawn_peer E ''bitcoin'' (OutgoingTo addr)) peers (co_p2p c, co_tasks c)
      in c\<lparr>co_p2p := n, co_tasks := ts\<rparr>,
      \<lparr>kc_dns = dns_seed dns network, kc_earlier = {}, kc_min_connections = min_connections\<rparr>)"

section \<open>The lightning connector\<close>

text \<open>The functions of \<open>ChainWatchInterfaceUtil\<close> of the lightning crate, on its state.\<close>

record 'u watch_util =
  util_block_connected_with_filtering :: "'u \<Rightarrow> Block \<Rightarrow> u32 \<Rightarrow> 'u"
  util_block_disconnected :: "'u \<Rightarrow> BlockHeader \<Rightarrow> 'u"
  util_install_watch_outpoint :: "'u \<Rightarrow> hash \<times> u32 \<Rightarrow> u8 list \<Rightarrow> 'u"
  util_watch_all_txn :: "'u \<Rightarrow> 'u"
  util_register_listener :: "'u \<Rightarrow> nat \<Rightarrow> 'u"

text \<open>
  The logger given to the utility. A level of the lightning crate is its number, larger for more detail;
  its name is an argument, as is \<open>Level::Info\<close>. The result is what is written to the log at level debug.
\<close>

record Record =
  rec_level :: nat
  rec_args :: string
  rec_module_path :: string
  rec_file :: string
  rec_line :: u32

definition LightningLogger_log :: "(nat \<Rightarrow> string) \<Rightarrow> nat \<Rightarrow> Record \<Rightarrow> string list" where
  "LightningLogger_log level_name level r =
     (if rec_level r \<le> level
      then [level_name (rec_level r) @ replicate (5 - length (level_name (rec_level r))) CHR '' '' @ '' ['' @
            rec_module_path r @ '' : '' @ rec_file r @ '', '' @ decimal (unat (rec_line r)) @ ''] '' @ rec_args r]
      else [])"

text \<open>The utility is made by the lightning crate, for a network and a logger.\<close>

definition LightningConnector_new ::
  "(Network \<Rightarrow> (Record \<Rightarrow> string list) \<Rightarrow> 'u) \<Rightarrow> (nat \<Rightarrow> string) \<Rightarrow> nat \<Rightarrow> Network \<Rightarrow> control_queue \<Rightarrow> 'u \<times> control_queue" where
  "LightningConnector_new util_new level_name info network p2p =
     (util_new network (LightningLogger_log level_name info), p2p)"

definition LightningConnector :: "'u watch_util \<Rightarrow> 'u Downstream" where
  "LightningConnector U =
     \<lparr>block_connected = util_block_connected_with_filtering U,
      header_connected = (\<lambda>u block height. u),
      block_disconnected = util_block_disconnected U\<rparr>"

text \<open>A transaction is its serialisation.\<close>

definition LightningConnector_broadcast :: "control_queue \<Rightarrow> u8 list \<Rightarrow> control_queue" where
  "LightningConnector_broadcast p2p tx = P2PControlSender_broadcast p2p (OtherMessage ''tx'' tx)"

text \<open>The one error of the lightning crate that the connector returns.\<close>

datatype ChainError = NotSupported

definition LightningConnector_install_watch_tx :: "'u \<Rightarrow> hash \<Rightarrow> u8 list \<Rightarrow> 'u result" where
  "LightningConnector_install_watch_tx u txid script_pub_key = Panicked"

definition LightningConnector_install_watch_outpoint :: "'u watch_util \<Rightarrow> 'u \<Rightarrow> hash \<times> u32 \<Rightarrow> u8 list \<Rightarrow> 'u" where
  "LightningConnector_install_watch_outpoint U u outpoint out_script = util_install_watch_outpoint U u outpoint out_script"

definition LightningConnector_watch_all_txn :: "'u watch_util \<Rightarrow> 'u \<Rightarrow> 'u" where
  "LightningConnector_watch_all_txn U u = util_watch_all_txn U u"

definition LightningConnector_register_listener :: "'u watch_util \<Rightarrow> 'u \<Rightarrow> nat \<Rightarrow> 'u" where
  "LightningConnector_register_listener U u listener = util_register_listener U u listener"

definition LightningConnector_get_chain_utxo :: "hash \<Rightarrow> u64 \<Rightarrow> (ChainError, u8 list \<times> u64) outcome" where
  "LightningConnector_get_chain_utxo genesis_hash unspent_tx_output_identifier = Err NotSupported"

section \<open>The command line\<close>

definition starts_with :: "string \<Rightarrow> bool" where
  "starts_with arg = (take 2 arg = ''--'')"

definition key_args :: "string list \<Rightarrow> string list" where
  "key_args args = map (drop 2) (filter starts_with args)"

definition zipped_args :: "string list \<Rightarrow> (string \<times> string) list" where
  "zipped_args args = zip (key_args args) (filter (\<lambda>arg. \<not> starts_with arg) (drop 1 args))"

definition find_opt :: "string list \<Rightarrow> string \<Rightarrow> bool" where
  "find_opt args key = (List.find (\<lambda>k. k = key) (key_args args) \<noteq> None)"

definition find_arg :: "string list \<Rightarrow> string \<Rightarrow> string option" where
  "find_arg args key = map_option snd (List.find (\<lambda>(k, _). k = key) (zipped_args args))"

definition find_args :: "string list \<Rightarrow> string \<Rightarrow> string list" where
  "find_args args key = map snd (filter (\<lambda>(k, _). k = key) (zipped_args args))"

text \<open>\<open>unwrap\<close> on each element: a list of which one does not parse is a panic.\<close>

fun parse_all :: "(string \<Rightarrow> SocketAddr option) \<Rightarrow> string list \<Rightarrow> SocketAddr list result" where
  "parse_all from_str [] = Ok []"
| "parse_all from_str (s # ss) =
     obind (unwrap (from_str s)) (\<lambda>a. obind (parse_all from_str ss) (\<lambda>as. Ok (a # as)))"

definition get_peers :: "(string \<Rightarrow> SocketAddr option) \<Rightarrow> string list \<Rightarrow> SocketAddr list result" where
  "get_peers from_str args = parse_all from_str (find_args args ''peer'')"

definition get_listeners :: "(string \<Rightarrow> SocketAddr option) \<Rightarrow> string list \<Rightarrow> SocketAddr list result" where
  "get_listeners from_str args = parse_all from_str (find_args args ''listen'')"

datatype Level = Error | Warn | Info | Debug | Trace

text \<open>What \<open>main\<close> takes from the arguments before it opens the database and runs the node.\<close>

record client =
  cl_level :: Level
  cl_network :: Network
  cl_peers :: "SocketAddr list"
  cl_connections :: nat
  cl_listen :: "SocketAddr list"
  cl_birth :: u64
  cl_db :: string

definition client_level :: "string list \<Rightarrow> Level" where
  "client_level args =
     (case find_arg args ''log'' of
        Some l \<Rightarrow>
          if l = ''error'' then Error else if l = ''warn'' then Warn else if l = ''info'' then Info
          else if l = ''debug'' then Debug else if l = ''trace'' then Trace else Info
      | None \<Rightarrow> Debug)"

definition client_network :: "string list \<Rightarrow> Network" where
  "client_network args =
     (case find_arg args ''network'' of
        Some net \<Rightarrow> if net = ''main'' then Bitcoin else if net = ''test'' then Testnet else Bitcoin
      | None \<Rightarrow> Bitcoin)"

text \<open>The first part of \<open>main\<close>. The result is \<open>None\<close> if the help is printed.\<close>

definition client_settings ::
  "(string \<Rightarrow> SocketAddr option) \<Rightarrow> (string \<Rightarrow> nat option) \<Rightarrow> (string \<Rightarrow> u64 option) \<Rightarrow> u64 \<Rightarrow> string list \<Rightarrow> client option result" where
  "client_settings from_str parse_usize parse_u64 now args =
     (if find_opt args ''help'' then Ok None
      else
        let level = client_level args; network = client_network args in
        obind (get_peers from_str args) (\<lambda>peers.
        let peers = (if peers = [] then [\<lparr>sa_ip = V4 0x7F000001, sa_port = 8333\<rparr>] else peers) in
        obind (case find_arg args ''connections'' of Some s \<Rightarrow> unwrap (parse_usize s) | None \<Rightarrow> Ok 1) (\<lambda>connections.
        obind (get_listeners from_str args) (\<lambda>listen.
        obind (case find_arg args ''birth'' of Some s \<Rightarrow> unwrap (parse_u64 s) | None \<Rightarrow> Ok now) (\<lambda>birth.
        let db = (case find_arg args ''db'' of Some path \<Rightarrow> path | None \<Rightarrow> ''client.db'')
        in Ok (Some \<lparr>cl_level = level, cl_network = network, cl_peers = peers, cl_connections = connections,
                    cl_listen = listen, cl_birth = birth, cl_db = db\<rparr>))))))"

text \<open>
  All of \<open>main\<close> up to the event loop. An error of the database or of the constructor is a panic. The
  result is the node with the task that keeps it connected.
\<close>

definition client_main ::
  "'d db_api \<Rightarrow> ext \<Rightarrow> (Network \<Rightarrow> BlockHeader) \<Rightarrow> os \<Rightarrow> name_service \<Rightarrow> (Network \<Rightarrow> u32) \<Rightarrow> u64 \<Rightarrow> 's \<Rightarrow>
   (string \<Rightarrow> SocketAddr option) \<Rightarrow> (string \<Rightarrow> nat option) \<Rightarrow> (string \<Rightarrow> u64 option) \<Rightarrow> u64 \<Rightarrow> string list \<Rightarrow>
   (('d, 's) Constructor \<times> KeepConnected) option result option" where
  "client_main A X G E dns magic nonce downstream from_str parse_usize parse_u64 now args =
     (case client_settings from_str parse_usize parse_u64 now args of
        Ok (Some cl) \<Rightarrow>
          map_option (\<lambda>r.
            (case r of
               Ok chaindb \<Rightarrow>
                 (case Constructor_new magic nonce downstream (cl_network cl) (cl_listen cl) chaindb of
                    Ok spv \<Rightarrow> Ok (Some (Constructor_run E dns spv (cl_network cl) (cl_peers cl) (cl_connections cl)))
                  | _ \<Rightarrow> Panicked)
             | _ \<Rightarrow> Panicked))
            (Constructor_open_db A X G (Some (Some (cl_db cl))) (cl_network cl) (cl_birth cl))
      | Ok None \<Rightarrow> Some (Ok None)
      | Err e \<Rightarrow> Some (Err e)
      | Panicked \<Rightarrow> Some Panicked)"

section \<open>Properties\<close>

text \<open>
  Opening the database of a node on a new store, in memory or on disk, gives a consistent database
  with the network's genesis header as its trunk.
\<close>
lemma genesis_opened:
  assumes "db_ok A" "never_fails A"
    "case path of None \<Rightarrow> db_transient A 2 = Ok db | Some p \<Rightarrow> (\<exists>s. p = Some s \<and> db_persistent A s 100 2 = Ok db)"
    "keyed_at A db HEADER_TIP_KEY = None" "prev_blockhash (G network) = 0" "unat (x_work X (G network)) < 2 ^ 128"
  shows "\<exists>cd. Constructor_open_db A X G path network birth = Some (Ok cd) \<and> cd_inv A X cd \<and>
    trunk_linked (cd_headercache cd) \<and> hc_trunk (cd_headercache cd) = [x_hash X (G network)]"
proof -
  let ?cd = "\<lparr>cd_db = db, cd_headercache = HeaderCache_new network, cd_network = network\<rparr>"
  have "(case path of Some p \<Rightarrow> ChainDB_new A p network | None \<Rightarrow> ChainDB_mem A network) = Ok ?cd"
    using assms(3) by (auto simp: ChainDB_new_def ChainDB_mem_def split: option.splits)
  then show ?thesis
    using genesis_start_spec [OF assms(1,2,4), of G network X] assms(5,6) by (auto simp: Constructor_open_db_def)
qed

text \<open>The command line as it is meant to be: every option with its value.\<close>

definition command_line :: "string \<Rightarrow> (string \<times> string) list \<Rightarrow> string list" where
  "command_line prog kvs = prog # concat (map (\<lambda>(k, v). [''--'' @ k, v]) kvs)"

lemma starts_with_key [simp]: "starts_with (''--'' @ k)" "starts_with (CHR ''-'' # CHR ''-'' # k)"
  by (simp_all add: starts_with_def)

lemma zipped_command_line:
  assumes "\<not> starts_with prog" "\<forall>(k, v)\<in>set kvs. \<not> starts_with v"
  shows "zipped_args (command_line prog kvs) = kvs"
proof -
  have "filter starts_with (concat (map (\<lambda>(k, v). [''--'' @ k, v]) kvs)) = map (\<lambda>(k, v). ''--'' @ k) kvs"
    "filter (\<lambda>a. \<not> starts_with a) (concat (map (\<lambda>(k, v). [''--'' @ k, v]) kvs)) = map snd kvs"
    using assms(2) by (induction kvs) auto
  then have "zipped_args (command_line prog kvs) = zip (map fst kvs) (map snd kvs)"
    using assms(1) by (simp add: zipped_args_def key_args_def command_line_def comp_def case_prod_beta)
  then show ?thesis by (simp add: zip_map_fst_snd)
qed

text \<open>
  The command line is read back as it was written: if every option has a value, an option that is given
  has its first value, all of its values are listed in order, and one that is not given has none.
\<close>
theorem command_line_roundtrip:
  assumes "\<not> starts_with prog" "\<forall>(k, v)\<in>set kvs. \<not> starts_with v"
  shows "find_arg (command_line prog kvs) key = map_of kvs key \<and>
    find_args (command_line prog kvs) key = map snd (filter (\<lambda>kv. fst kv = key) kvs)"
proof -
  have "map_option snd (List.find (\<lambda>(k, _). k = key) kvs) = map_of kvs key" by (induction kvs) auto
  moreover have "filter (\<lambda>(k, _). k = key) kvs = filter (\<lambda>kv. fst kv = key) kvs" by (intro filter_cong) auto
  ultimately show ?thesis using zipped_command_line [OF assms] by (simp add: find_arg_def find_args_def)
qed

theorem command_line_roundtrip_witness:
  "find_arg (command_line ''client'' [(''peer'', ''a''), (''db'', ''x''), (''peer'', ''b'')]) ''db'' = Some ''x'' \<and>
   find_args (command_line ''client'' [(''peer'', ''a''), (''db'', ''x''), (''peer'', ''b'')]) ''peer'' = [''a'', ''b'']"
  using command_line_roundtrip [of "''client''" "[(''peer'', ''a''), (''db'', ''x''), (''peer'', ''b'')]" "''db''"]
    command_line_roundtrip [of "''client''" "[(''peer'', ''a''), (''db'', ''x''), (''peer'', ''b'')]" "''peer''"]
  by (simp add: starts_with_def)

text \<open>
  An option without a value, such as \<open>--nodns\<close>, takes the value of the option after it, which then
  has none.
\<close>
theorem valueless_option_shifts:
  assumes "\<not> starts_with prog" "\<not> starts_with v" "flag \<noteq> k"
  shows "find_arg [prog, ''--'' @ flag, ''--'' @ k, v] flag = Some v \<and> find_arg [prog, ''--'' @ flag, ''--'' @ k, v] k = None"
  using assms by (simp add: find_arg_def zipped_args_def key_args_def)

text \<open>
  The interval polls a clone of the task, so the addresses tried earlier are forgotten from tick to tick:
  with equal random numbers two ticks call the same address.
\<close>
theorem earlier_forgotten:
  assumes "kc_earlier kc = {}" "kc_dns kc \<noteq> []" "P2P_n_connected_peers (fst n) < kc_min_connections kc"
    and "choice = kc_dns kc ! (unat rnd mod length (kc_dns kc))"
    and "n1 = f (spawn_peer E ''bitcoin'' (OutgoingTo choice) n)" "P2P_n_connected_peers (fst n1) < kc_min_connections kc"
  shows "keep_connected_ticks E kc n [(rnd, f), (rnd, g)] = g (spawn_peer E ''bitcoin'' (OutgoingTo choice) n1) \<and>
    choice \<in> kc_earlier (fst (KeepConnected_poll E rnd kc n))"
  using assms by (simp add: KeepConnected_poll_def Let_def)

end
