(* ===== verification/Node_Threads.thy ===== *)
theory Node_Threads
  imports Node_Stack
begin

text \<open>
  The running node: the threads and tasks that the constructor starts (\<open>src/src/constructor.rs\<close>), each
  as a step on the state they share. The channels between them are lists: the control channel to
  the network layer, the channel to the dispatcher, and those of the two modules. A thread that
  finds its channel empty waits; its step then changes nothing. The handling of one message is one step.
\<close>

section \<open>State\<close>

text \<open>
  What the constructor made, with the task that keeps the node connected. \<open>nd_taken\<close> says how many of the
  messages of the network layer the dispatcher has received; the other two fields record what the
  modules have handled.
\<close>

record ('d, 's) Node = "('d, 's) Constructor" +
  nd_keep :: KeepConnected
  nd_taken :: nat
  nd_download_seen :: "NetworkMessage PeerMessage list"
  nd_ping_seen :: "NetworkMessage PeerMessage list"

definition node_start :: "('d, 's) Constructor \<times> KeepConnected \<Rightarrow> ('d, 's) Node" where
  "node_start ck =
     Constructor.extend (fst ck) \<lparr>nd_keep = snd ck, nd_taken = 0, nd_download_seen = [], nd_ping_seen = []\<rparr>"

text \<open>What waits in the channel of the \<open>i\<close>-th listener.\<close>

definition channel_recv :: "nat \<Rightarrow> 'm Dispatcher \<Rightarrow> ('m PeerMessage \<times> 'm Dispatcher) option" where
  "channel_recv i d =
     (if i < length (listeners d) then
        (case listeners d ! i of
           Some (m # ch) \<Rightarrow> Some (m, d\<lparr>listeners := (listeners d)[i := Some ch]\<rparr>)
         | _ \<Rightarrow> None)
      else None)"

text \<open>The modules as parts of the node.\<close>

definition download_of :: "('d, 's) Node \<Rightarrow> ('d, 's) HeaderDownload" where
  "download_of nd =
     \<lparr>hd_p2p = co_control nd, hd_chaindb = co_chaindb nd, hd_timeout = co_timeout nd, hd_downstream = co_downstream nd\<rparr>"

definition set_download :: "('d, 's) Node \<Rightarrow> ('d, 's) HeaderDownload \<Rightarrow> ('d, 's) Node" where
  "set_download nd d =
     nd\<lparr>co_control := hd_p2p d, co_chaindb := hd_chaindb d, co_timeout := hd_timeout d, co_downstream := hd_downstream d\<rparr>"

definition ping_of :: "('d, 's) Node \<Rightarrow> Ping" where
  "ping_of nd = \<lparr>asked = co_asked nd, ping_timeout = co_timeout nd, ping_p2p = co_control nd\<rparr>"

definition set_ping :: "('d, 's) Node \<Rightarrow> Ping \<Rightarrow> ('d, 's) Node" where
  "set_ping nd p = nd\<lparr>co_asked := asked p, co_timeout := ping_timeout p, co_control := ping_p2p p\<rparr>"

section \<open>The threads\<close>

definition set_tasks :: "('d, 's) Node \<Rightarrow> P2P \<times> tasks \<Rightarrow> ('d, 's) Node" where
  "set_tasks nd s = nd\<lparr>co_p2p := fst s, co_tasks := snd s\<rparr>"

text \<open>The event loop takes an event: a connection request spawns the task of the new peer.\<close>

definition event_step ::
  "bool \<Rightarrow> codec \<Rightarrow> os \<Rightarrow> nat \<Rightarrow> event \<Rightarrow> ('d, 's) Node \<Rightarrow> (('d, 's) Node \<times> unit result) option" where
  "event_step checks C E token ev nd =
     (case P2P_is_listener (co_p2p nd) token of
        Some _ \<Rightarrow>
          Some (set_tasks nd (spawn_peer E ''bitcoin'' (IncomingFrom token) (co_p2p nd, co_tasks nd)), Ok ())
      | None \<Rightarrow>
          map_option (\<lambda>(n, r). (nd\<lparr>co_p2p := n\<rparr>, r)) (poll_event checks E C (co_p2p nd) ''bitcoin'' 0 token ev))"

text \<open>The control loop takes a message.\<close>

definition control_thread :: "bool \<Rightarrow> os \<Rightarrow> ('d, 's) Node \<Rightarrow> ('d, 's) Node \<times> unit result" where
  "control_thread checks E nd =
     (case co_control nd of
        [] \<Rightarrow> (nd, Ok ())
      | c # cs \<Rightarrow> (case control_step checks E (co_p2p nd) c of (n, r) \<Rightarrow> (nd\<lparr>co_p2p := n, co_control := cs\<rparr>, r)))"

text \<open>The dispatcher takes a message of the network layer and copies it to the modules.\<close>

definition dispatcher_thread :: "('d, 's) Node \<Rightarrow> ('d, 's) Node" where
  "dispatcher_thread nd =
     (case drop (nd_taken nd) (n_dispatched (co_p2p nd)) of
        [] \<Rightarrow> nd
      | pm # _ \<Rightarrow> nd\<lparr>co_dispatcher := Dispatcher_forward (co_dispatcher nd) pm, nd_taken := Suc (nd_taken nd)\<rparr>)"

text \<open>An error of the handler is only logged; a panic ends the thread.\<close>

definition download_thread ::
  "bool \<Rightarrow> 'd db_api \<Rightarrow> ext \<Rightarrow> 's Downstream \<Rightarrow> u64 \<Rightarrow> ('d, 's) Node \<Rightarrow> (('d, 's) Node \<times> unit result) option" where
  "download_thread checks A X D now nd =
     (case channel_recv 0 (co_dispatcher nd) of
        None \<Rightarrow> Some (nd, Ok ())
      | Some (msg, disp) \<Rightarrow>
          map_option (\<lambda>(d, r).
            ((set_download nd d)\<lparr>co_dispatcher := disp, nd_download_seen := nd_download_seen nd @ [msg]\<rparr>,
             if r = Panicked then Panicked else Ok ()))
            (HeaderDownload_message checks now A X D (co_p2p nd) (download_of nd) msg))"

definition ping_thread :: "bool \<Rightarrow> u64 \<Rightarrow> ('d, 's) Node \<Rightarrow> ('d, 's) Node \<times> unit result" where
  "ping_thread checks now nd =
     (case channel_recv 1 (co_dispatcher nd) of
        None \<Rightarrow> (nd, Ok ())
      | Some (msg, disp) \<Rightarrow>
          let nd = nd\<lparr>co_dispatcher := disp, nd_ping_seen := nd_ping_seen nd @ [msg]\<rparr>
          in (case ping_message checks now (ping_of nd) msg of
                Ok p \<Rightarrow> (set_ping nd p, Ok ())
              | Err e \<Rightarrow> (nd, Err e)
              | Panicked \<Rightarrow> (nd, Panicked)))"

text \<open>No message came in time: the download looks for peers that are late, the ping makes a round.\<close>

definition download_idle :: "u64 \<Rightarrow> ('d, 's) Node \<Rightarrow> ('d, 's) Node" where
  "download_idle now nd = set_download nd (HeaderDownload_tick now (download_of nd))"

definition ping_idle :: "bool \<Rightarrow> u64 \<Rightarrow> (PeerId \<Rightarrow> u64) \<Rightarrow> ('d, 's) Node \<Rightarrow> ('d, 's) Node \<times> unit result" where
  "ping_idle checks now rnd nd =
     (case ping_round checks now rnd (co_p2p nd) (ping_of nd) of
        Ok p \<Rightarrow> (set_ping nd p, Ok ())
      | Err e \<Rightarrow> (nd, Err e)
      | Panicked \<Rightarrow> (nd, Panicked))"

text \<open>Every ten seconds: a clone of the task that keeps the node connected is polled.\<close>

definition keep_thread :: "os \<Rightarrow> u32 \<Rightarrow> ('d, 's) Node \<Rightarrow> ('d, 's) Node" where
  "keep_thread E rnd nd = set_tasks nd (snd (KeepConnected_poll E rnd (nd_keep nd) (co_p2p nd, co_tasks nd)))"

section \<open>The node\<close>

datatype action =
    Event os nat event
  | Control os
  | Dispatch
  | Download u64
  | DownloadIdle u64
  | PingTake u64
  | PingIdle u64 "PeerId \<Rightarrow> u64"
  | KeepConnecting os u32
  | PollTask PeerId
  | ExpireTask PeerId

fun node_step ::
  "bool \<Rightarrow> codec \<Rightarrow> 'd db_api \<Rightarrow> ext \<Rightarrow> 's Downstream \<Rightarrow> action \<Rightarrow> ('d, 's) Node \<Rightarrow> (('d, 's) Node \<times> unit result) option" where
  "node_step checks C A X D (Event E token ev) nd = event_step checks C E token ev nd"
| "node_step checks C A X D (Control E) nd = Some (control_thread checks E nd)"
| "node_step checks C A X D Dispatch nd = Some (dispatcher_thread nd, Ok ())"
| "node_step checks C A X D (Download now) nd = download_thread checks A X D now nd"
| "node_step checks C A X D (DownloadIdle now) nd = Some (download_idle now nd, Ok ())"
| "node_step checks C A X D (PingTake now) nd = Some (ping_thread checks now nd)"
| "node_step checks C A X D (PingIdle now rnd) nd = Some (ping_idle checks now rnd nd)"
| "node_step checks C A X D (KeepConnecting E rnd) nd = Some (keep_thread E rnd nd, Ok ())"
| "node_step checks C A X D (PollTask pid) nd = Some (set_tasks nd (poll_task pid (co_p2p nd, co_tasks nd)), Ok ())"
| "node_step checks C A X D (ExpireTask pid) nd = Some (set_tasks nd (expire_task pid (co_p2p nd, co_tasks nd)), Ok ())"

text \<open>A schedule: the actions in turn, as long as none panics.\<close>

fun node_run ::
  "bool \<Rightarrow> codec \<Rightarrow> 'd db_api \<Rightarrow> ext \<Rightarrow> 's Downstream \<Rightarrow> action list \<Rightarrow> ('d, 's) Node \<Rightarrow> (('d, 's) Node \<times> unit result) option" where
  "node_run checks C A X D [] nd = Some (nd, Ok ())"
| "node_run checks C A X D (a # as) nd =
     (case node_step checks C A X D a nd of
        Some (nd, Ok _) \<Rightarrow> node_run checks C A X D as nd
      | r \<Rightarrow> r)"

end
