(* ===== verification/Peer_Ping.thy ===== *)
theory Peer_Ping
  imports Node_Modules
begin

text \<open>
  Correctness of the ping (\<open>src/src/ping.rs\<close>): a round asks exactly the idle peers, a peer that
  stays silent is banned, and an answer to something that was not asked spoils the right one.
\<close>

section \<open>A round\<close>

lemma idle_owes_nothing: "to_inv t \<Longrightarrow> \<not> Timeout_is_busy t pid \<Longrightarrow> owed t pid w = 0"
  by (auto simp: to_inv_def is_busy_deadline)

text \<open>Exactly the peers that satisfy \<open>who\<close> have been asked for a pong, in time.\<close>

definition pinged :: "u64 \<Rightarrow> (PeerId \<Rightarrow> u64) \<Rightarrow> (PeerId \<Rightarrow> bool) \<Rightarrow> Ping \<Rightarrow> Ping \<Rightarrow> bool" where
  "pinged now rnd who p p' \<longleftrightarrow>
     (\<forall>pid. if who pid
        then owed (ping_timeout p') pid = (\<lambda>_. 0)(ExpectPong := 1) \<and>
          deadline (ping_timeout p') pid = Some (unat now + 60) \<and> asked p' pid = Some (rnd pid)
        else owed (ping_timeout p') pid = owed (ping_timeout p) pid \<and>
          deadline (ping_timeout p') pid = deadline (ping_timeout p) pid \<and> asked p' pid = asked p pid)"

text \<open>A ping of one more peer, before the others.\<close>

lemma pinged_first:
  assumes "pinged now rnd (\<lambda>q. q \<in> set pids \<and> \<not> Timeout_is_busy (ping_timeout p1) q) p1 p'" "pid \<notin> set pids"
    "\<not> Timeout_is_busy (ping_timeout p) pid" "asked p1 = (asked p)(pid \<mapsto> rnd pid)"
    "owed (ping_timeout p1) = (owed (ping_timeout p))(pid := (\<lambda>_. 0)(ExpectPong := 1))"
    "deadline (ping_timeout p1) = (deadline (ping_timeout p))(pid \<mapsto> unat now + 60)"
  shows "pinged now rnd (\<lambda>q. q \<in> set (pid # pids) \<and> \<not> Timeout_is_busy (ping_timeout p) q) p p'"
  unfolding pinged_def
proof (rule allI, goal_cases)
  case (1 q)
  note P = assms(1) [unfolded pinged_def, rule_format, of q]
  show ?case
  proof (cases "q = pid")
    case True
    then show ?thesis using P assms(2-6) by simp
  next
    case False
    then have "Timeout_is_busy (ping_timeout p1) q = Timeout_is_busy (ping_timeout p) q"
      using assms(6) by (simp add: is_busy_deadline)
    then show ?thesis using P False assms(4-6) by (cases "q \<in> set pids") (simp_all split: if_splits)
  qed
qed

lemma ping_peers_spec:
  assumes "to_inv (ping_timeout p)" "unat now + 60 < 2 ^ 64" "distinct pids"
  shows "\<exists>p'. ping_peers checks now rnd pids p = Ok p' \<and> to_inv (ping_timeout p') \<and>
    ping_p2p p' = ping_p2p p @ map (\<lambda>pid. Send pid (NetworkMessage.Ping (rnd pid)))
      (filter (\<lambda>pid. \<not> Timeout_is_busy (ping_timeout p) pid) pids) \<and>
    pinged now rnd (\<lambda>pid. pid \<in> set pids \<and> \<not> Timeout_is_busy (ping_timeout p) pid) p p'"
  using assms
proof (induction pids arbitrary: p)
  case (Cons pid pids)
  let ?t = "ping_timeout p"
  show ?case
  proof (cases "Timeout_is_busy ?t pid")
    case True
    then have "(\<lambda>q. q \<in> set (pid # pids) \<and> \<not> Timeout_is_busy ?t q) = (\<lambda>q. q \<in> set pids \<and> \<not> Timeout_is_busy ?t q)"
      by auto
    then show ?thesis using Cons True by simp
  next
    case False
    have z: "owed ?t pid w = 0" for w using idle_owes_nothing [OF Cons.prems(1) False] .
    obtain t' where t': "Timeout_expect checks now ?t pid 1 ExpectPong = Ok t'" "to_inv t'"
      "owed t' = (owed ?t)(pid := (owed ?t pid)(ExpectPong := 1))"
      "deadline t' = (deadline ?t)(pid \<mapsto> unat now + 60)"
      using expect_spec [OF Cons.prems(1,2), of pid ExpectPong 1 checks] z by auto
    have o: "owed t' pid = (\<lambda>_. 0)(ExpectPong := 1)" unfolding t'(3) using z by (simp add: fun_eq_iff)
    define p1 where "p1 = p\<lparr>asked := (asked p)(pid \<mapsto> rnd pid), ping_timeout := t',
      ping_p2p := P2PControlSender_send_network (ping_p2p p) pid (NetworkMessage.Ping (rnd pid))\<rparr>"
    have same: "Timeout_is_busy t' q = Timeout_is_busy ?t q" if "q \<in> set pids" for q
      using that Cons.prems(3) t'(4) by (auto simp: is_busy_deadline)
    have f: "filter (\<lambda>q. \<not> Timeout_is_busy t' q) pids = filter (\<lambda>q. \<not> Timeout_is_busy ?t q) pids"
      using same by (intro filter_cong) auto
    obtain p' where p': "ping_peers checks now rnd pids p1 = Ok p'" "to_inv (ping_timeout p')"
      "ping_p2p p' = ping_p2p p1 @ map (\<lambda>pid. Send pid (NetworkMessage.Ping (rnd pid)))
        (filter (\<lambda>pid. \<not> Timeout_is_busy t' pid) pids)"
      "pinged now rnd (\<lambda>q. q \<in> set pids \<and> \<not> Timeout_is_busy t' q) p1 p'"
      using Cons.IH [of p1] t'(2) Cons.prems(2,3) by (auto simp: p1_def)
    have run: "ping_peers checks now rnd (pid # pids) p = Ok p'" using False t'(1) p'(1) by (simp add: p1_def)
    have q: "ping_p2p p' = ping_p2p p @ map (\<lambda>pid. Send pid (NetworkMessage.Ping (rnd pid)))
        (filter (\<lambda>pid. \<not> Timeout_is_busy ?t pid) (pid # pids))"
      using p'(3) f False by (simp add: p1_def P2PControlSender_send_network_def P2PControlSender_send_def)
    have "pinged now rnd (\<lambda>q. q \<in> set (pid # pids) \<and> \<not> Timeout_is_busy ?t q) p p'"
      using pinged_first [of now rnd pids p1 p' pid p] p'(4) Cons.prems(3) False o t'(3,4) by (simp add: p1_def)
    then show ?thesis using run p'(2) q by blast
  qed
qed (simp add: pinged_def)

lemma ping_round_spec:
  assumes "to_inv (ping_timeout p)" "unat now + 60 < 2 ^ 64" "distinct (map fst (n_peers n))"
  defines "banned \<equiv> late_peers now (ping_timeout p) [ExpectPong]"
  defines "t \<equiv> fold (\<lambda>pid t. Timeout_forget t pid) banned (ping_timeout p)"
  shows "\<exists>p'. ping_round checks now rnd n p = Ok p' \<and> to_inv (ping_timeout p') \<and>
    ping_p2p p' = ping_p2p p @ map (\<lambda>pid. Ban pid 100) banned @
      map (\<lambda>pid. Send pid (NetworkMessage.Ping (rnd pid)))
        (filter (\<lambda>pid. \<not> Timeout_is_busy t pid) (map fst (n_peers n))) \<and>
    pinged now rnd (\<lambda>pid. pid \<in> set (map fst (n_peers n)) \<and> \<not> Timeout_is_busy t pid) (p\<lparr>ping_timeout := t\<rparr>) p'"
proof -
  let ?p = "p\<lparr>ping_timeout := t, ping_p2p := ping_p2p p @ map (\<lambda>pid. Ban pid 100) banned\<rparr>"
  have "ping_round checks now rnd n p = ping_peers checks now rnd (map fst (n_peers n)) ?p"
    by (simp add: ping_round_def Timeout_check_def Let_def send_bans P2PControlSender_peers_def t_def banned_def)
  moreover have "to_inv t" unfolding t_def by (rule forget_all_inv [OF assms(1)])
  moreover have "pinged now rnd w ?p p' = pinged now rnd w (p\<lparr>ping_timeout := t\<rparr>) p'" for w p'
    by (simp add: pinged_def)
  ultimately show ?thesis
    using ping_peers_spec [of ?p now "map fst (n_peers n)" checks rnd] assms(2,3) by simp
qed

lemma ping_round_bans:
  assumes "to_inv (ping_timeout p)" "unat now + 60 < 2 ^ 64" "distinct (map fst (n_peers n))"
    "deadline (ping_timeout p) pid = Some d" "d < unat now" "0 < owed (ping_timeout p) pid ExpectPong"
  shows "\<exists>p'. ping_round checks now rnd n p = Ok p' \<and> Ban pid 100 \<in> set (ping_p2p p')"
proof -
  have "pid \<in> set (late_peers now (ping_timeout p) [ExpectPong])"
    using late_peers_set [OF assms(1)] assms(4-6) by (simp add: late_def)
  then show ?thesis using ping_round_spec [OF assms(1-3), of checks rnd] by auto
qed

text \<open>A round asks an idle peer of the map.\<close>

lemma ping_round_asks:
  assumes "to_inv (ping_timeout p)" "unat now + 60 < 2 ^ 64" "distinct (map fst (n_peers n))"
    "pid \<in> set (map fst (n_peers n))" "\<not> Timeout_is_busy (ping_timeout p) pid"
  shows "\<exists>p'. ping_round checks now rnd n p = Ok p' \<and> to_inv (ping_timeout p') \<and>
    Send pid (NetworkMessage.Ping (rnd pid)) \<in> set (ping_p2p p') \<and> owed (ping_timeout p') pid ExpectPong = 1 \<and>
    deadline (ping_timeout p') pid = Some (unat now + 60)"
proof -
  let ?banned = "late_peers now (ping_timeout p) [ExpectPong]"
  let ?t = "fold (\<lambda>pid t. Timeout_forget t pid) ?banned (ping_timeout p)"
  from ping_round_spec [OF assms(1-3), of checks rnd] obtain p1 where p1:
    "ping_round checks now rnd n p = Ok p1" "to_inv (ping_timeout p1)"
    "ping_p2p p1 = ping_p2p p @ map (\<lambda>pid. Ban pid 100) ?banned @
      map (\<lambda>pid. Send pid (NetworkMessage.Ping (rnd pid))) (filter (\<lambda>pid. \<not> Timeout_is_busy ?t pid) (map fst (n_peers n)))"
    "pinged now rnd (\<lambda>pid. pid \<in> set (map fst (n_peers n)) \<and> \<not> Timeout_is_busy ?t pid) (p\<lparr>ping_timeout := ?t\<rparr>) p1"
    by blast
  have idle: "\<not> Timeout_is_busy ?t pid" using assms(5) by (simp add: is_busy_deadline forget_all_view)
  then have "Send pid (NetworkMessage.Ping (rnd pid)) \<in> set (ping_p2p p1)" using assms(4) p1(3) by auto
  moreover have "owed (ping_timeout p1) pid ExpectPong = 1" "deadline (ping_timeout p1) pid = Some (unat now + 60)"
    using p1(4) assms(4) idle unfolding pinged_def by (auto dest!: spec [of _ pid])
  ultimately show ?thesis using p1(1,2) by blast
qed

section \<open>Properties\<close>

definition idle_ping :: Ping where
  "idle_ping = \<lparr>asked = Map.empty, ping_timeout = Timeout_new, ping_p2p = []\<rparr>"

text \<open>
  Silence is noticed: a peer that is idle when a round finds it is sent a ping, and if it is still
  to answer at a round more than sixty seconds later, it is banned with the full score.
\<close>
theorem silent_peer_banned:
  assumes inv: "to_inv (ping_timeout p)" and pid: "pid \<in> set (map fst (n_peers n))" "\<not> Timeout_is_busy (ping_timeout p) pid"
    and n: "distinct (map fst (n_peers n))" "distinct (map fst (n_peers n'))"
    and now: "unat now + 60 < unat now'" "unat now' + 60 < 2 ^ 64"
  shows "\<exists>p1 p2. ping_round checks now rnd n p = Ok p1 \<and> Send pid (NetworkMessage.Ping (rnd pid)) \<in> set (ping_p2p p1) \<and>
    ping_round checks now' rnd' n' p1 = Ok p2 \<and> Ban pid 100 \<in> set (ping_p2p p2)"
proof -
  have room: "unat now + 60 < 2 ^ 64" using now by simp
  obtain p1 where p1: "ping_round checks now rnd n p = Ok p1" "to_inv (ping_timeout p1)"
    "Send pid (NetworkMessage.Ping (rnd pid)) \<in> set (ping_p2p p1)" "owed (ping_timeout p1) pid ExpectPong = 1"
    "deadline (ping_timeout p1) pid = Some (unat now + 60)"
    using ping_round_asks [OF inv room n(1) pid, of checks rnd] by blast
  then show ?thesis using ping_round_bans [OF p1(2) now(2) n(2)] now(1) by fastforce
qed

theorem silent_peer_banned_witness:
  "\<exists>p1 p2. ping_round True 1000 (\<lambda>_. 7) one_peer idle_ping = Ok p1 \<and>
     Send (sample_pid 1) (NetworkMessage.Ping 7) \<in> set (ping_p2p p1) \<and>
     ping_round True 1061 (\<lambda>_. 8) one_peer p1 = Ok p2 \<and> Ban (sample_pid 1) 100 \<in> set (ping_p2p p2)"
  using silent_peer_banned [of idle_ping "sample_pid 1" one_peer one_peer 1000 1061 True "\<lambda>_. 7" "\<lambda>_. 8"]
  by (simp add: idle_ping_def one_peer_def is_busy_deadline)

text \<open>
  A pong with a number that was not asked for forgets the number that was: the right pong after it
  is not counted any more, the peer keeps owing its answer, and the round after the deadline
  bans it.
\<close>
theorem stray_pong_spoils:
  assumes inv: "to_inv (ping_timeout p)" and asked: "asked p pid = Some n" "m \<noteq> n"
    and due: "0 < owed (ping_timeout p) pid ExpectPong" "deadline (ping_timeout p) pid = Some d"
    and later: "d < unat now'" "unat now' + 60 < 2 ^ 64" "distinct (map fst (n_peers net))"
  shows "\<exists>p1 p2 p3. ping_message checks now p (Incoming pid (Pong m)) = Ok p1 \<and>
    ping_message checks now p1 (Incoming pid (Pong n)) = Ok p2 \<and> ping_timeout p2 = ping_timeout p \<and>
    ping_round checks now' rnd net p2 = Ok p3 \<and> Ban pid 100 \<in> set (ping_p2p p3)"
proof -
  define p1 where "p1 = p\<lparr>asked := (asked p)(pid := None)\<rparr>"
  have 1: "ping_message checks now p (Incoming pid (Pong m)) = Ok p1"
    using asked by (simp add: ping_message_def p1_def)
  moreover have 2: "ping_message checks now p1 (Incoming pid (Pong n)) = Ok p1"
    by (simp add: ping_message_def p1_def)
  moreover have "\<exists>p3. ping_round checks now' rnd net p1 = Ok p3 \<and> Ban pid 100 \<in> set (ping_p2p p3)"
    using inv due later by (intro ping_round_bans) (simp_all add: p1_def)
  ultimately show ?thesis by (auto simp: p1_def)
qed

definition waiting_ping :: Ping where
  "waiting_ping =
     \<lparr>asked = [sample_pid 1 \<mapsto> 7],
      ping_timeout = \<lparr>timeouts = [(sample_pid 1, 1060)], expected = [(sample_pid 1, [(ExpectPong, 1)])]\<rparr>,
      ping_p2p = []\<rparr>"

lemma waiting_ping_inv:
  "to_inv (ping_timeout waiting_ping)" "owed (ping_timeout waiting_ping) (sample_pid 1) ExpectPong = 1"
  "deadline (ping_timeout waiting_ping) (sample_pid 1) = Some 1060"
proof -
  show o: "owed (ping_timeout waiting_ping) (sample_pid 1) ExpectPong = 1"
    by (simp add: waiting_ping_def owed_def or_insert_def)
  have z: "owed (ping_timeout waiting_ping) pid w = 0" if "pid \<noteq> sample_pid 1" for pid w
    using that by (simp add: waiting_ping_def owed_def or_insert_def)
  have d: "deadline (ping_timeout waiting_ping) pid \<noteq> None \<longleftrightarrow> pid = sample_pid 1" for pid
    by (simp add: waiting_ping_def deadline_def)
  have "(\<exists>w. 0 < owed (ping_timeout waiting_ping) pid w) \<longleftrightarrow> pid = sample_pid 1" for pid
    using o z [of pid] by (metis less_numeral_extra(1,3))
  moreover have "distinct (map fst e)" if "map_of (expected (ping_timeout waiting_ping)) pid = Some e" for pid e
    using that by (auto simp: waiting_ping_def split: if_splits)
  moreover have "distinct (map fst (timeouts (ping_timeout waiting_ping)))" by (simp add: waiting_ping_def)
  ultimately show "to_inv (ping_timeout waiting_ping)" unfolding to_inv_def d by blast
qed (simp add: waiting_ping_def deadline_def)

theorem stray_pong_spoils_witness:
  "\<exists>p1 p2 p3. ping_message True 1010 waiting_ping (Incoming (sample_pid 1) (Pong 6)) = Ok p1 \<and>
     ping_message True 1010 p1 (Incoming (sample_pid 1) (Pong 7)) = Ok p2 \<and>
     ping_round True 1100 (\<lambda>_. 8) one_peer p2 = Ok p3 \<and> Ban (sample_pid 1) 100 \<in> set (ping_p2p p3)"
  using stray_pong_spoils [OF waiting_ping_inv(1), of "sample_pid 1" 7 6 1060 1100 one_peer True 1010 "\<lambda>_. 8"]
    waiting_ping_inv(2,3)
  by (auto simp: waiting_ping_def one_peer_def)

end
