(* ===== verification/Chain_Restart.thy ===== *)
theory Chain_Restart
  imports Chain_DB
begin

text \<open>
  Restarts of the block chain database (\<open>src/src/chaindb.rs\<close>): what is on disk when the store is opened again. The
  operation of the store that finishes a batch makes the updates before it permanent; what was written after it
  is undone. A node may stop at any moment and recovers the chain it had at its last batch.
\<close>

section \<open>What survives\<close>

text \<open>
  \<open>reopen d\<close> is the store that is found when the files of the store \<open>d\<close> are opened again. It belongs to the
  hammersbald crate and is an argument; what is documented of it is the hypothesis \<open>durable\<close>.
\<close>

definition same_reads :: "'d db_api \<Rightarrow> 'd \<Rightarrow> 'd \<Rightarrow> bool" where
  "same_reads A d d' \<longleftrightarrow> stored_at A d = stored_at A d' \<and> keyed_at A d = keyed_at A d'"

definition durable :: "'d db_api \<Rightarrow> ('d \<Rightarrow> 'd) \<Rightarrow> bool" where
  "durable A reopen \<longleftrightarrow>
     (\<forall>d k s d' r. db_put_hash_keyed A d k s = (d', r) \<longrightarrow> same_reads A (reopen d') (reopen d)) \<and>
     (\<forall>d k h d' r. db_put_keyed_encodable A d k h = (d', r) \<longrightarrow> same_reads A (reopen d') (reopen d)) \<and>
     (\<forall>d d'. db_batch A d = (d', Ok ()) \<longrightarrow> same_reads A (reopen d') d') \<and>
     (\<forall>d. same_reads A (reopen (reopen d)) (reopen d))"

text \<open>The database that a restart finds, before \<open>init\<close>.\<close>

definition reopened :: "('d \<Rightarrow> 'd) \<Rightarrow> 'd ChainDB \<Rightarrow> 'd ChainDB" where
  "reopened reopen cd = opened (reopen (cd_db cd)) (cd_network cd)"

text \<open>A store in memory with a copy of what is on disk, which a batch brings up to date.\<close>

type_synonym journal_db = "mem_db \<times> mem_db"

definition journal_api :: "journal_db db_api" where
  "journal_api =
     \<lparr>db_transient = (\<lambda>_. Ok ((Map.empty, Map.empty), (Map.empty, Map.empty))),
      db_persistent = (\<lambda>_ _ _. Ok ((Map.empty, Map.empty), (Map.empty, Map.empty))),
      db_put_hash_keyed = (\<lambda>d k s. ((((fst (fst d))(k \<mapsto> s), snd (fst d)), snd d), Ok 0)),
      db_get_hash_keyed = (\<lambda>d k. Ok (map_option (\<lambda>s. (0, s)) (fst (fst d) k))),
      db_put_keyed_encodable = (\<lambda>d k h. (((fst (fst d), (snd (fst d))(k \<mapsto> h)), snd d), Ok 0)),
      db_get_keyed_decodable = (\<lambda>d k. Ok (map_option (\<lambda>h. (0, h)) (snd (fst d) k))),
      db_batch = (\<lambda>d. ((fst d, fst d), Ok ()))\<rparr>"

definition journal_reopen :: "journal_db \<Rightarrow> journal_db" where
  "journal_reopen d = (snd d, snd d)"

lemma journal_reads [simp]:
  "stored_at journal_api d = fst (fst d)" "keyed_at journal_api d = snd (fst d)"
  by (auto simp: journal_api_def stored_at_def keyed_at_def split: option.splits)

lemma journal_ok: "db_ok journal_api" "never_fails journal_api" "durable journal_api journal_reopen"
proof -
  show "db_ok journal_api" unfolding db_ok_def journal_reads by (auto simp: journal_api_def)
  show "never_fails journal_api" by (auto simp: never_fails_def journal_api_def)
  show "durable journal_api journal_reopen"
    unfolding durable_def same_reads_def journal_reads by (auto simp: journal_api_def journal_reopen_def)
qed

section \<open>Updates that are not permanent\<close>

lemma same_reads_trans: "same_reads A d d' \<Longrightarrow> same_reads A d' d'' \<Longrightarrow> same_reads A d d''"
  by (simp add: same_reads_def)

lemma cd_inv_same_reads:
  "cd_inv A X cd \<Longrightarrow> same_reads A d (cd_db cd) \<Longrightarrow> cd_inv A X (cd\<lparr>cd_db := d\<rparr>)"
  by (simp add: cd_inv_def same_reads_def)

lemma durableD:
  assumes "durable A reopen"
  shows "db_put_hash_keyed A d k s = (d', r) \<Longrightarrow> same_reads A (reopen d') (reopen d)"
    "db_put_keyed_encodable A d key h = (d', r') \<Longrightarrow> same_reads A (reopen d') (reopen d)"
    "db_batch A d = (d', Ok ()) \<Longrightarrow> same_reads A (reopen d') d'" "same_reads A (reopen (reopen d)) (reopen d)"
  using assms unfolding durable_def by blast+

lemma add_not_permanent:
  assumes "durable A reopen" "ChainDB_add_header A X cd h = Some (cd', r)"
  shows "same_reads A (reopen (cd_db cd')) (reopen (cd_db cd)) \<and> cd_network cd' = cd_network cd"
proof -
  have p: "same_reads A (reopen (cd_db c')) (reopen (cd_db c)) \<and> cd_network c' = cd_network c"
    if "put_stored A X c st = (c', q)" for c c' st q
    using that durableD(1) [OF assms(1)] by (auto simp: put_stored_def split: prod.splits)
  have t: "same_reads A (reopen (cd_db c')) (reopen (cd_db c)) \<and> cd_network c' = cd_network c"
    if "ChainDB_store_header_tip A c k = (c', q)" for c c' k q
    using that durableD(2) [OF assms(1)] by (auto simp: ChainDB_store_header_tip_def split: prod.splits)
  obtain hc q where q: "HeaderCache_add_header X (cd_headercache cd) h = Some (hc, q)"
    using assms(2) by (auto simp: ChainDB_add_header_def)
  show ?thesis
  proof (cases "\<exists>a. q = Ok (Some a)")
    case False
    have "Some (cd', r) = map_option (\<lambda>(hc, r). (cd\<lparr>cd_headercache := hc\<rparr>, obind r (\<lambda>_. Ok None))) (Some (hc, q))"
      using assms(2) [symmetric] q False
      by (cases q) (auto simp: ChainDB_add_header_def Let_def split: option.splits)
    then show ?thesis by (simp add: same_reads_def)
  next
    case True
    then obtain c u f where c: "q = Ok (Some (c, u, f))" by auto
    obtain cd1 r1 where 1: "put_stored A X (cd\<lparr>cd_headercache := hc\<rparr>) (ch_stored c) = (cd1, r1)" by (rule prod.exhaust)
    obtain cd2 r2 where 2: "(case f of Some f \<Rightarrow> if f \<noteq> [] then ChainDB_store_header_tip A cd1 (last f) else (cd1, Ok ())
       | None \<Rightarrow> (cd1, Ok ())) = (cd2, r2)" by (rule prod.exhaust)
    have "cd' = cd1 \<or> cd' = cd2"
      using assms(2) q c 1 2 by (cases r1; cases r2) (auto simp: ChainDB_add_header_def Let_def)
    moreover have 3: "same_reads A (reopen (cd_db cd1)) (reopen (cd_db cd)) \<and> cd_network cd1 = cd_network cd" using p [OF 1] by simp
    moreover have "same_reads A (reopen (cd_db cd2)) (reopen (cd_db cd1)) \<and> cd_network cd2 = cd_network cd1"
      using 2 t by (auto simp: same_reads_def split: option.splits if_splits)
    ultimately show ?thesis using same_reads_trans by metis
  qed
qed

text \<open>Headers are added, and the batch is not finished.\<close>

inductive unfinished :: "'d db_api \<Rightarrow> ext \<Rightarrow> 'd ChainDB \<Rightarrow> 'd ChainDB \<Rightarrow> bool" for A X cd where
  none_added: "unfinished A X cd cd"
| one_added: "unfinished A X cd cd1 \<Longrightarrow> ChainDB_add_header A X cd1 h = Some (cd2, r) \<Longrightarrow> unfinished A X cd cd2"

lemma unfinished_reads:
  assumes "durable A reopen" "unfinished A X cd cd'"
  shows "same_reads A (reopen (cd_db cd')) (reopen (cd_db cd)) \<and> cd_network cd' = cd_network cd"
  using assms(2)
proof induction
  case (one_added cd1 h cd2 r)
  then show ?case using add_not_permanent [OF assms(1)] same_reads_trans by metis
qed (simp add: same_reads_def)

text \<open>A restart, if what is on disk is consistent with some cache.\<close>

lemma reopened_spec:
  assumes "cd_inv A X cd" "same_reads A (reopen (cd_db cd2)) (cd_db cd)"
  shows "\<exists>cd'. ChainDB_init A X G (reopened reopen cd2) = Some (cd', Ok ()) \<and> cd_inv A X cd' \<and>
    cd_db cd' = reopen (cd_db cd2) \<and> cd_network cd' = cd_network cd2 \<and>
    trunk_linked (cd_headercache cd') \<and> ChainDB_header_tip cd' = ChainDB_header_tip cd \<and>
    hc_headers (cd_headercache cd') \<subseteq>\<^sub>m hc_headers (cd_headercache cd)"
  using restart_spec [OF cd_inv_same_reads [OF assms], of G "cd_network cd2"]
  by (auto simp: reopened_def ChainDB_header_tip_def)

lemma batch_permanent:
  assumes "db_ok A" "durable A reopen" "ChainDB_batch A cd = (cd', Ok ())"
  shows "same_reads A (reopen (cd_db cd')) (cd_db cd') \<and> same_reads A (cd_db cd') (cd_db cd) \<and>
    cd_headercache cd' = cd_headercache cd \<and> cd_network cd' = cd_network cd"
proof -
  have "db_batch A (cd_db cd) = (cd_db cd', Ok ())"
    using assms(3) by (auto simp: ChainDB_batch_def obind_conv split: prod.splits)
  then show ?thesis using durableD(3) [OF assms(2)] batch_Ok [OF assms(1,3)] by (simp add: same_reads_def)
qed

section \<open>Runs\<close>

text \<open>
  The states of a node's chain database: after the first start on an empty store, after adding a
  header, after finishing a batch and after a restart, which may come at any moment.
\<close>

inductive reachable_db ::
  "'d db_api \<Rightarrow> ('d \<Rightarrow> 'd) \<Rightarrow> ext \<Rightarrow> (Network \<Rightarrow> BlockHeader) \<Rightarrow> Network \<Rightarrow> 'd ChainDB \<Rightarrow> bool"
  for A reopen X G net where
  first_start: "keyed_at A d HEADER_TIP_KEY = None \<Longrightarrow> ChainDB_init A X G (opened d net) = Some (cd, Ok ()) \<Longrightarrow>
    reachable_db A reopen X G net cd"
| added: "reachable_db A reopen X G net cd \<Longrightarrow> prev_blockhash h \<noteq> 0 \<Longrightarrow>
    ChainDB_add_header A X cd h = Some (cd', r) \<Longrightarrow> reachable_db A reopen X G net cd'"
| batched: "reachable_db A reopen X G net cd \<Longrightarrow> ChainDB_batch A cd = (cd', r) \<Longrightarrow> reachable_db A reopen X G net cd'"
| restarted: "reachable_db A reopen X G net cd \<Longrightarrow> ChainDB_init A X G (reopened reopen cd) = Some (cd', r) \<Longrightarrow>
    reachable_db A reopen X G net cd'"

text \<open>What is on disk is what was there with some valid cache.\<close>

lemma reachable_db_inv:
  assumes "reachable_db A reopen X G net cd" "db_ok A" "never_fails A" "durable A reopen"
    "prev_blockhash (G net) = 0" "unat (x_work X (G net)) < 2 ^ 128"
  shows "cd_inv A X cd \<and> (\<exists>old. cd_inv A X old \<and> same_reads A (reopen (cd_db cd)) (cd_db old))"
  using assms(1)
proof induction
  case (first_start d cd)
  from genesis_start_spec [where G = G and net = net, OF assms(2,3) first_start(1) assms(5,6)] obtain cd1 where
    "cd_inv A X cd" "ChainDB_batch A cd1 = (cd, Ok ())" using first_start(2) unfolding opened_def by auto
  then show ?case using batch_permanent [OF assms(2,4)] by blast
next
  case (added cd h cd' r)
  obtain old where old: "cd_inv A X old" "same_reads A (reopen (cd_db cd)) (cd_db old)" using added.IH by blast
  have "same_reads A (reopen (cd_db cd')) (cd_db old)"
    using add_not_permanent [OF assms(4) added.hyps(3)] old(2) same_reads_trans [of A _ "reopen (cd_db cd)"] by simp
  moreover have "cd_inv A X cd'" using chain_add_reliable [OF assms(2,3) _ added.hyps(2,3)] added.IH by blast
  ultimately show ?case using old(1) by blast
next
  case (batched cd cd' r)
  obtain cd2 where "ChainDB_batch A cd = (cd2, Ok ())" using never_failsD(3) [OF assms(3)] by blast
  then have b: "ChainDB_batch A cd = (cd', Ok ())" using batched by simp
  then have "cd_inv A X cd'" using batch_Ok [OF assms(2) b] batched.IH by (auto simp: cd_inv_def)
  then show ?case using batch_permanent [OF assms(2,4) b] by blast
next
  case (restarted cd cd' r)
  then obtain old where "cd_inv A X old" "same_reads A (reopen (cd_db cd)) (cd_db old)" by blast
  from reopened_spec [where reopen = reopen, OF this, of G] restarted.hyps(2) have "cd_inv A X cd'" "cd_db cd' = reopen (cd_db cd)" by auto
  then show ?case using durableD(4) [OF assms(4), of "cd_db cd"] by metis
qed

section \<open>Properties\<close>

text \<open>
  C5. On a store whose operations do not fail, in every state that a node's chain database reaches from the first
  start on an empty store, by adding headers that have a parent, finishing batches and restarting at any moment, the
  cache is valid, every cached header is read from the store with its height and work, the stored tip is the tip of the
  cache, and a restart would succeed.
\<close>
theorem reachable_db_consistent:
  assumes "reachable_db A reopen X G net cd" "db_ok A" "never_fails A" "durable A reopen"
    "prev_blockhash (G net) = 0" "unat (x_work X (G net)) < 2 ^ 128"
  shows "hc_inv X (cd_headercache cd) \<and>
    (\<forall>k c. ChainDB_get_header cd k = Some c \<longrightarrow> ChainDB_fetch_header A cd k = Ok (Some (ch_stored c))) \<and>
    (\<exists>tip. ChainDB_header_tip cd = Some tip \<and> ChainDB_fetch_header_tip A cd = Ok (Some (ch_id tip))) \<and>
    (\<exists>cd'. ChainDB_init A X G (reopened reopen cd) = Some (cd', Ok ()) \<and> trunk_linked (cd_headercache cd'))"
proof -
  note I = reachable_db_inv [OF assms]
  then have inv: "cd_inv A X cd" by blast
  then have t: "tree_inv X (cd_headercache cd)" by (simp add: cd_inv_def hc_inv_def)
  note ne = tree_inv_trunk(1) [OF t]
  obtain tip where tip: "hc_headers (cd_headercache cd) (last (hc_trunk (cd_headercache cd))) = Some tip"
    using tree_inv_trunk(2) [OF t last_in_set [OF ne]] by blast
  then have "ch_id tip = last (hc_trunk (cd_headercache cd))" by (rule tree_invD(1) [OF t])
  moreover have "\<exists>cd'. ChainDB_init A X G (reopened reopen cd) = Some (cd', Ok ()) \<and> trunk_linked (cd_headercache cd')"
    using I reopened_spec [of A X _ reopen cd G] by blast
  ultimately show ?thesis
    using inv tip ne
    by (auto simp: cd_inv_def fetch_header_Some fetch_header_tip_Some ChainDB_get_header_def
        HeaderCache_get_header_def ChainDB_header_tip_def tip_eq HeaderCache_tip_hash_def)
qed

theorem reachable_db_consistent_witness:
  "\<exists>cd tip. reachable_db journal_api journal_reopen sample_ext sample_G Bitcoin cd \<and> ChainDB_header_tip cd = Some tip \<and>
     ChainDB_fetch_header_tip journal_api cd = Ok (Some (ch_id tip))"
proof -
  have g: "prev_blockhash (sample_G Bitcoin) = 0" "unat (x_work sample_ext (sample_G Bitcoin)) < 2 ^ 128"
    by (simp_all add: sample_G_def)
  let ?d = "((Map.empty, Map.empty), (Map.empty, Map.empty)) :: journal_db"
  have k: "keyed_at journal_api ?d HEADER_TIP_KEY = None" by simp
  obtain cd where "ChainDB_init journal_api sample_ext sample_G (opened ?d Bitcoin) = Some (cd, Ok ())"
    using genesis_start_spec [OF journal_ok(1,2) k, of sample_G Bitcoin sample_ext] g by (auto simp: opened_def)
  then have "reachable_db journal_api journal_reopen sample_ext sample_G Bitcoin cd" by (rule first_start [OF k])
  then show ?thesis
    using reachable_db_consistent [of journal_api journal_reopen sample_ext sample_G Bitcoin cd] journal_ok g by blast
qed



end
