(* ===== verification/Download_Correct.thy ===== *)
theory Download_Correct
  imports Header_Download Peer_Ping Chain_Restart
begin

text \<open>
  Correctness of the download of headers (\<open>src/src/headerdownload.rs\<close>): what the handler of headers
  does to the chain, to the application and to the peer, in good and in bad cases.
\<close>

section \<open>The database under the handler\<close>

text \<open>The cache under the database goes its own way, whatever the store answers.\<close>

lemma put_stored_cache [simp]: "cd_headercache (fst (put_stored A X cd st)) = cd_headercache cd"
  by (simp add: put_stored_def split: prod.splits)

lemma store_tip_cache [simp]: "cd_headercache (fst (ChainDB_store_header_tip A cd t)) = cd_headercache cd"
  by (simp add: ChainDB_store_header_tip_def split: prod.splits)

lemma batch_cache [simp]: "cd_headercache (fst (ChainDB_batch A cd)) = cd_headercache cd"
  by (simp add: ChainDB_batch_def split: prod.splits)

text \<open>On a store that does not fail the database answers as its cache does.\<close>

lemma chain_add_as_cache:
  assumes nf: "never_fails A" and q: "HeaderCache_add_header X (cd_headercache cd) h = Some (hc, q)"
  shows "\<exists>cd'. ChainDB_add_header A X cd h =
      Some (cd', obind q (\<lambda>a. Ok (map_option (\<lambda>(c, u, f). (ch_stored c, u, f)) a))) \<and> cd_headercache cd' = hc"
proof (cases "\<exists>a. q = Ok (Some a)")
  case False
  then show ?thesis using q
    by (auto simp: ChainDB_add_header_def Let_def split: outcome.splits option.splits)
next
  case True
  then obtain c u f where c: "q = Ok (Some (c, u, f))" by auto
  obtain cd1 where 1: "put_stored A X (cd\<lparr>cd_headercache := hc\<rparr>) (ch_stored c) = (cd1, Ok ())"
    using never_failsD(1) [OF nf] by blast
  have h1: "cd_headercache cd1 = hc" using put_stored_cache [of A X "cd\<lparr>cd_headercache := hc\<rparr>" "ch_stored c"] 1 by simp
  have "\<exists>cd2. (case f of Some f \<Rightarrow> if f \<noteq> [] then ChainDB_store_header_tip A cd1 (last f) else (cd1, Ok ())
       | None \<Rightarrow> (cd1, Ok ())) = (cd2, Ok ()) \<and> cd_headercache cd2 = hc"
  proof (cases "\<exists>p. f = Some p \<and> p \<noteq> []")
    case True
    then obtain p where p: "f = Some p" "p \<noteq> []" by blast
    obtain cd2 where 2: "ChainDB_store_header_tip A cd1 (last p) = (cd2, Ok ())"
      using never_failsD(2) [OF nf] by blast
    then have "cd_headercache cd2 = hc" using store_tip_cache [of A cd1 "last p"] h1 by simp
    then show ?thesis using p 2 by simp
  next
    case False
    then show ?thesis using h1 by (auto split: option.splits)
  qed
  then obtain cd2 where 2: "(case f of Some f \<Rightarrow> if f \<noteq> [] then ChainDB_store_header_tip A cd1 (last f) else (cd1, Ok ())
       | None \<Rightarrow> (cd1, Ok ())) = (cd2, Ok ())" "cd_headercache cd2 = hc" by blast
  then show ?thesis using q 1 c by (simp add: ChainDB_add_header_def Let_def)
qed

text \<open>What is unwound is cached, so that the handler finds the headers.\<close>

lemma unwound_cached:
  assumes "hc_inv X hc" "prev_blockhash h \<noteq> 0" "HeaderCache_add_header X hc h = Some (hc', Ok (Some (c, Some u, f)))"
    "k \<in> set u"
  shows "\<exists>d. hc_headers hc' k = Some d"
proof -
  obtain prev required tip where A: "tree_inv X (insert_header hc c)" "hc_headers (insert_header hc c) (prev_blockhash h) = Some prev"
    "\<not> f64_less (ch_log2work tip) (ch_log2work c) \<Longrightarrow> hc' = insert_header hc c \<and> Some u = None \<and> f = None"
    "f64_less (ch_log2work tip) (ch_log2work c) \<Longrightarrow> move_trunk (insert_header hc c) h c = Some (hc', Ok (c, Some u, f))"
    using add_header_stored [OF assms(1-3)] by metis
  have m: "move_trunk (insert_header hc c) h c = Some (hc', Ok (c, Some u, f))" using A(3,4) by blast
  obtain pos where "u = rev (drop pos (hc_trunk (insert_header hc c)))" "hc_headers hc' = hc_headers (insert_header hc c)"
  proof (rule move_trunk_spec [OF A(1,2), where c = c], goal_cases)
    case (1 side f')
    then show ?thesis using m by (cases "side = []") auto
  qed
  then show ?thesis using assms(4) tree_inv_trunk(2) [OF A(1)] in_set_dropD by fastforce
qed

lemma headers_of_Some:
  "\<forall>k\<in>set u. ChainDB_get_header cd k \<noteq> None \<Longrightarrow> \<exists>hs. headers_of cd u = Some hs"
  by (induction u) auto

section \<open>Reference\<close>

text \<open>The headers a list adds to a cache, with their heights; and whether none is refused.\<close>

fun new_headers :: "ext \<Rightarrow> HeaderCache \<Rightarrow> BlockHeader list \<Rightarrow> (BlockHeader \<times> u32) list" where
  "new_headers X hc [] = []"
| "new_headers X hc (h # hs) =
     (case HeaderCache_add_header X hc h of
        Some (hc', Ok (Some (c, _, _))) \<Rightarrow> (ch_header c, ch_height c) # new_headers X hc' hs
      | Some (hc', _) \<Rightarrow> new_headers X hc' hs
      | None \<Rightarrow> [])"

fun accepts :: "ext \<Rightarrow> HeaderCache \<Rightarrow> BlockHeader list \<Rightarrow> bool" where
  "accepts X hc [] = True"
| "accepts X hc (h # hs) =
     (case HeaderCache_add_header X hc h of Some (hc', Ok _) \<Rightarrow> accepts X hc' hs | _ \<Rightarrow> False)"

definition connected_of :: "notice list \<Rightarrow> (BlockHeader \<times> u32) list" where
  "connected_of ns = List.map_filter (\<lambda>x. case x of HeaderConnected h k \<Rightarrow> Some (h, k) | _ \<Rightarrow> None) ns"

lemma connected_of_simps [simp]:
  "connected_of (xs @ ys) = connected_of xs @ connected_of ys" "connected_of [] = []"
  "connected_of [HeaderConnected h k] = [(h, k)]" "connected_of [BlockDisconnected h] = []"
  by (simp_all add: connected_of_def List.map_filter_def)

lemma notify_connected:
  "connected_of (notify recorder p ns) = connected_of ns @ pr_connected p"
proof -
  have "connected_of (fold (\<lambda>(h, k) s. header_connected recorder s h k) xs ns) = connected_of ns @ xs" for xs ns
    by (induction xs arbitrary: ns) (auto simp: recorder_def)
  moreover have "connected_of (fold (\<lambda>h s. block_disconnected recorder s h) xs ns) = connected_of ns" for xs ns
    by (induction xs arbitrary: ns) (auto simp: recorder_def)
  ultimately show ?thesis by (simp add: notify_def)
qed

section \<open>The inner loop\<close>

text \<open>A run of the loop that took a part of the queue: what it added, and what it reports.\<close>

definition good_batch ::
  "'d db_api \<Rightarrow> ext \<Rightarrow> HeaderCache \<Rightarrow> progress \<Rightarrow> BlockHeader list \<Rightarrow> ('d ChainDB \<times> progress \<times> loop_exit) option \<Rightarrow> bool" where
  "good_batch A X hc p queue z \<longleftrightarrow>
     (\<exists>cd' p' now rest. z = Some (cd', p', Batch rest) \<and> queue = now @ rest \<and>
        add_all (HeaderCache_add_header X) hc now = Some (cd_headercache cd') \<and> cd_inv A X cd' \<and>
        accepts X (cd_headercache cd') rest \<and>
        new_headers X hc queue = new_headers X hc now @ new_headers X (cd_headercache cd') rest \<and>
        pr_connected p' = pr_connected p @ new_headers X hc now \<and>
        pr_some_new p' = (pr_some_new p \<or> new_headers X hc now \<noteq> []))"

lemma good_batch_known:
  assumes "HeaderCache_add_header X hc h = Some (hc', Ok None)" "good_batch A X hc' p queue z"
  shows "good_batch A X hc p (h # queue) z"
proof -
  obtain cd' p' now rest where G: "z = Some (cd', p', Batch rest)" "queue = now @ rest"
    "add_all (HeaderCache_add_header X) hc' now = Some (cd_headercache cd')" "cd_inv A X cd'" "accepts X (cd_headercache cd') rest"
    "new_headers X hc' queue = new_headers X hc' now @ new_headers X (cd_headercache cd') rest"
    "pr_connected p' = pr_connected p @ new_headers X hc' now"
    "pr_some_new p' = (pr_some_new p \<or> new_headers X hc' now \<noteq> [])" using assms(2) unfolding good_batch_def by blast
  then show ?thesis
    using assms(1) unfolding good_batch_def
    by (intro exI [of _ cd'] exI [of _ p'] exI [of _ "h # now"] exI [of _ rest]) simp
qed

lemma good_batch_new:
  assumes "HeaderCache_add_header X hc h = Some (hc', Ok (Some (c, u, f)))" "good_batch A X hc' p1 queue z"
    "pr_connected p1 = pr_connected p @ [(ch_header c, ch_height c)]" "pr_some_new p1"
  shows "good_batch A X hc p (h # queue) z"
proof -
  obtain cd' p' now rest where G: "z = Some (cd', p', Batch rest)" "queue = now @ rest"
    "add_all (HeaderCache_add_header X) hc' now = Some (cd_headercache cd')" "cd_inv A X cd'" "accepts X (cd_headercache cd') rest"
    "new_headers X hc' queue = new_headers X hc' now @ new_headers X (cd_headercache cd') rest"
    "pr_connected p' = pr_connected p1 @ new_headers X hc' now"
    "pr_some_new p' = (pr_some_new p1 \<or> new_headers X hc' now \<noteq> [])" using assms(2) unfolding good_batch_def by blast
  then show ?thesis
    using assms(1,3,4) unfolding good_batch_def
    by (intro exI [of _ cd'] exI [of _ p'] exI [of _ "h # now"] exI [of _ rest]) simp
qed

lemma good_batch_stop:
  "cd_inv A X cd \<Longrightarrow> accepts X (cd_headercache cd) queue \<Longrightarrow> pr_connected p' = pr_connected p \<Longrightarrow> pr_some_new p' = pr_some_new p \<Longrightarrow>
   good_batch A X (cd_headercache cd) p queue (Some (cd, p', Batch queue))"
  unfolding good_batch_def by (intro exI [of _ cd] exI [of _ p'] exI [of _ "[]"] exI [of _ queue]) simp

lemma add_loop_good:
  assumes "db_ok A" "never_fails A" "cd_inv A X cd" "\<forall>h\<in>set queue. prev_blockhash h \<noteq> 0"
    "accepts X (cd_headercache cd) queue"
  shows "good_batch A X (cd_headercache cd) p queue (add_loop A X cd p queue)"
  using assms(3-5)
proof (induction queue arbitrary: cd p)
  case Nil
  then show ?case by (simp add: good_batch_stop)
next
  case (Cons h queue)
  let ?hc = "cd_headercache cd"
  have hc: "hc_inv X ?hc" using Cons.prems(1) by (simp add: cd_inv_def)
  have nz: "prev_blockhash h \<noteq> 0" using Cons.prems(2) by simp
  obtain hc' a where q: "HeaderCache_add_header X ?hc h = Some (hc', Ok a)" and acc: "accepts X hc' queue"
    using Cons.prems(3) by (auto split: option.splits outcome.splits)
  obtain cd1 where cd1: "ChainDB_add_header A X cd h = Some (cd1, Ok (map_option (\<lambda>(c, u, f). (ch_stored c, u, f)) a))"
    "cd_headercache cd1 = hc'"
    using chain_add_as_cache [OF assms(2) q] by auto
  have inv1: "cd_inv A X cd1" using chain_add_reliable [OF assms(1,2) Cons.prems(1) nz cd1(1)] by blast
  have go: "good_batch A X hc' p' queue (add_loop A X cd1 p' queue)" for p'
    using Cons.IH [OF inv1, of p'] Cons.prems(2) acc cd1(2) by simp
  show ?case
  proof (cases a)
    case None
    then show ?thesis using good_batch_known [OF q [unfolded None] go] cd1(1) by simp
  next
    case (Some x)
    obtain c u f where x: "x = (c, u, f)" by (cases x)
    have F: "f \<noteq> Some []" using add_header_forward [OF hc nz] q Some x by blast
    define p1 where "p1 = (case f of Some f \<Rightarrow> p\<lparr>pr_connected := pr_connected p @ [(ch_header c, ch_height c)],
        pr_some_new := True, pr_moved_tip := Some (last f)\<rparr>
      | None \<Rightarrow> p\<lparr>pr_connected := pr_connected p @ [(ch_header c, ch_height c)], pr_some_new := True\<rparr>)
      \<lparr>pr_height := ch_height c\<rparr>"
    have p1: "pr_connected p1 = pr_connected p @ [(ch_header c, ch_height c)]" "pr_some_new p1"
      by (simp_all add: p1_def split: option.splits)
    have "good_batch A X hc' p1 queue (add_loop A X cd p (h # queue))"
    proof (cases u)
      case None
      then have "add_loop A X cd p (h # queue) = add_loop A X cd1 p1 queue"
        using cd1(1) Some x F by (simp add: p1_def Let_def split: option.splits)
      then show ?thesis using go by simp
    next
      case u: (Some us)
      have "\<forall>k\<in>set us. ChainDB_get_header cd1 k \<noteq> None"
        using unwound_cached [OF hc nz, of hc' c us f] q Some x u cd1(2)
        by (auto simp: ChainDB_get_header_def HeaderCache_get_header_def)
      then obtain hs where hs: "headers_of cd1 us = Some hs" using headers_of_Some by blast
      have "add_loop A X cd p (h # queue) = Some (cd1, p1\<lparr>pr_disconnected := pr_disconnected p1 @ hs\<rparr>, Batch queue)"
        using cd1(1) Some x F u hs by (simp add: p1_def Let_def split: option.splits)
      then show ?thesis using good_batch_stop [OF inv1] acc cd1(2) by simp
    qed
    from good_batch_new [OF q [unfolded Some x] this p1] show ?thesis .
  qed
qed

text \<open>A cache that has the headers of \<open>m\<close>, and on which adding \<open>h\<close> panics.\<close>

definition adding_panics :: "ext \<Rightarrow> (hash \<rightharpoonup> CachedHeader) \<Rightarrow> BlockHeader \<Rightarrow> bool" where
  "adding_panics X m h \<longleftrightarrow>
     (\<exists>hc hc'. hc_inv X hc \<and> m \<subseteq>\<^sub>m hc_headers hc \<and> HeaderCache_add_header X hc h = Some (hc', Panicked))"

lemma adding_panics_mono: "adding_panics X m' h \<Longrightarrow> m \<subseteq>\<^sub>m m' \<Longrightarrow> adding_panics X m h"
  unfolding adding_panics_def using map_le_trans by blast

text \<open>What a run of the loop keeps, whatever its queue is; it panics only where the cache does.\<close>

definition safe_batch ::
  "'d db_api \<Rightarrow> ext \<Rightarrow> 'd ChainDB \<Rightarrow> BlockHeader list \<Rightarrow> 'd ChainDB \<times> progress \<times> loop_exit \<Rightarrow> bool" where
  "safe_batch A X cd queue z \<longleftrightarrow>
     (case z of (cd', p', e) \<Rightarrow>
        cd_inv A X cd' \<and> hc_headers (cd_headercache cd) \<subseteq>\<^sub>m hc_headers (cd_headercache cd') \<and>
        (\<forall>rest. e = Batch rest \<longrightarrow> set rest \<subseteq> set queue) \<and>
        (e = Panicking \<longrightarrow> (\<exists>h\<in>set queue. adding_panics X (hc_headers (cd_headercache cd)) h)))"

lemma safe_batch_first:
  assumes "safe_batch A X cd1 queue z" "hc_headers (cd_headercache cd) \<subseteq>\<^sub>m hc_headers (cd_headercache cd1)"
  shows "safe_batch A X cd (h # queue) z"
  using assms adding_panics_mono [OF _ assms(2)] map_le_trans [OF assms(2)] unfolding safe_batch_def by fastforce

lemma add_loop_safe:
  assumes "db_ok A" "never_fails A" "cd_inv A X cd" "\<forall>h\<in>set queue. prev_blockhash h \<noteq> 0"
  shows "\<exists>z. add_loop A X cd p queue = Some z \<and> safe_batch A X cd queue z"
  using assms(3,4)
proof (induction queue arbitrary: cd p)
  case Nil
  then show ?case by (simp add: safe_batch_def)
next
  case (Cons h queue)
  let ?m = "hc_headers (cd_headercache cd)"
  have hc: "hc_inv X (cd_headercache cd)" and nz: "prev_blockhash h \<noteq> 0" using Cons.prems by (simp_all add: cd_inv_def)
  obtain hc' q where q: "HeaderCache_add_header X (cd_headercache cd) h = Some (hc', q)"
    using add_header_spec [OF hc nz] by metis
  obtain cd1 where r: "ChainDB_add_header A X cd h = Some (cd1, obind q (\<lambda>a. Ok (map_option (\<lambda>(c, u, f). (ch_stored c, u, f)) a)))"
    "cd_headercache cd1 = hc'" using chain_add_as_cache [OF assms(2) q] by blast
  have i: "cd_inv A X cd1" "?m \<subseteq>\<^sub>m hc_headers (cd_headercache cd1)"
    using chain_add_reliable [OF assms(1,2) Cons.prems(1) nz r(1)] by auto
  have go: "\<exists>z. add_loop A X cd1 p' queue = Some z \<and> safe_batch A X cd (h # queue) z" for p'
    using Cons.IH [OF i(1), of p'] Cons.prems(2) safe_batch_first [OF _ i(2), of A X queue _ h] by auto
  have stop: "safe_batch A X cd (h # queue) (cd1, p', e)" if "e \<noteq> Panicking" "\<And>rest. e = Batch rest \<Longrightarrow> rest = queue" for p' e
    using i that by (auto simp: safe_batch_def)
  show ?case
  proof (cases q)
    case (Ok a)
    show ?thesis
    proof (cases a)
      case None
      then show ?thesis using Ok r(1) go by simp
    next
      case (Some x)
      obtain c u f where x: "x = (c, u, f)" by (cases x)
      have F: "f \<noteq> Some []" using add_header_forward [OF hc nz] q Ok Some x by blast
      have U: "\<exists>hs. headers_of cd1 us = Some hs" if "u = Some us" for us
        using headers_of_Some [of us cd1] unwound_cached [OF hc nz, of hc' c us f] q Ok Some x that r(2)
        by (auto simp: ChainDB_get_header_def HeaderCache_get_header_def)
      then show ?thesis using Ok Some x r(1) F go by (cases u) (auto simp: Let_def intro!: stop)
    qed
  next
    case (Err e)
    then show ?thesis using r(1) stop by (cases e) auto
  next
    case Panicked
    then have "adding_panics X ?m h" using hc q by (auto simp: adding_panics_def)
    then show ?thesis using Panicked r(1) i by (auto simp: safe_batch_def)
  qed
qed

section \<open>The handler\<close>

text \<open>The store finishes the batch, which changes nothing that is read.\<close>

lemma batch_reliable:
  assumes "db_ok A" "never_fails A" "cd_inv A X cd"
  shows "\<exists>cd'. ChainDB_batch A cd = (cd', Ok ()) \<and> cd_inv A X cd' \<and> cd_headercache cd' = cd_headercache cd"
proof -
  obtain cd' where b: "ChainDB_batch A cd = (cd', Ok ())" using never_failsD(3) [OF assms(2)] by blast
  then show ?thesis using batch_Ok [OF assms(1) b] batch_cache [of A cd] assms(3) by (auto simp: cd_inv_def)
qed

lemma headers_loop_good:
  assumes ok: "db_ok A" "never_fails A" and d: "cd_inv A X (hd_chaindb d)" "\<forall>h\<in>set queue. prev_blockhash h \<noteq> 0"
    "accepts X (cd_headercache (hd_chaindb d)) queue"
  shows "\<exists>d' p'. headers_loop A X recorder pid d p queue = Some (d', p', Ok True) \<and> cd_inv A X (hd_chaindb d') \<and>
    add_all (HeaderCache_add_header X) (cd_headercache (hd_chaindb d)) queue = Some (cd_headercache (hd_chaindb d')) \<and>
    connected_of (hd_downstream d') =
      connected_of (hd_downstream d) @ new_headers X (cd_headercache (hd_chaindb d)) queue \<and>
    pr_some_new p' = (pr_some_new p \<or> new_headers X (cd_headercache (hd_chaindb d)) queue \<noteq> []) \<and>
    hd_p2p d' = hd_p2p d \<and> hd_timeout d' = hd_timeout d \<and>
    (queue \<noteq> [] \<longrightarrow> (\<exists>cd0. ChainDB_batch A cd0 = (hd_chaindb d', Ok ())))"
  using d
proof (induction "length queue" arbitrary: d p queue rule: less_induct)
  case less
  show ?case
  proof (cases "queue = []")
    case True
    then show ?thesis using less.prems by (simp add: headers_loop.simps)
  next
    case False
    let ?hc = "cd_headercache (hd_chaindb d)"
    define p0 where "p0 = p\<lparr>pr_disconnected := [], pr_connected := []\<rparr>"
    obtain cd' p' now rest where L: "add_loop A X (hd_chaindb d) p0 queue = Some (cd', p', Batch rest)" "queue = now @ rest"
      "add_all (HeaderCache_add_header X) ?hc now = Some (cd_headercache cd')" "cd_inv A X cd'"
      "accepts X (cd_headercache cd') rest"
      "new_headers X ?hc queue = new_headers X ?hc now @ new_headers X (cd_headercache cd') rest"
      "pr_connected p' = new_headers X ?hc now" "pr_some_new p' = (pr_some_new p \<or> new_headers X ?hc now \<noteq> [])"
      using add_loop_good [OF ok less.prems, of p0] by (auto simp: good_batch_def p0_def)
    obtain cd2 where b: "ChainDB_batch A cd' = (cd2, Ok ())" "cd_inv A X cd2" "cd_headercache cd2 = cd_headercache cd'"
      using batch_reliable [OF ok L(4)] by blast
    define d2 where "d2 = d\<lparr>hd_chaindb := cd2, hd_downstream := notify recorder p' (hd_downstream d)\<rparr>"
    have run: "headers_loop A X recorder pid d p queue = headers_loop A X recorder pid d2 p' rest"
      using False L(1) b(1) by (simp add: headers_loop.simps [of _ _ _ _ d] p0_def d2_def)
    have "length rest < length queue" using add_loop_shorter [OF L(1)] False by (cases queue) auto
    from less.hyps [OF this, of d2 p'] obtain d' p'' where H: "headers_loop A X recorder pid d2 p' rest = Some (d', p'', Ok True)"
      "cd_inv A X (hd_chaindb d')"
      "add_all (HeaderCache_add_header X) (cd_headercache cd') rest = Some (cd_headercache (hd_chaindb d'))"
      "connected_of (hd_downstream d') = connected_of (hd_downstream d2) @ new_headers X (cd_headercache cd') rest"
      "pr_some_new p'' = (pr_some_new p' \<or> new_headers X (cd_headercache cd') rest \<noteq> [])"
      "hd_p2p d' = hd_p2p d2" "hd_timeout d' = hd_timeout d2" "rest \<noteq> [] \<longrightarrow> (\<exists>cd0. ChainDB_batch A cd0 = (hd_chaindb d', Ok ()))"
      using b less.prems(2) L(2,5) by (auto simp: d2_def)
    have "\<exists>cd0. ChainDB_batch A cd0 = (hd_chaindb d', Ok ())"
    proof (cases "rest = []")
      case True
      then have "d' = d2" using H(1) by (simp add: headers_loop.simps)
      then show ?thesis using b(1) by (auto simp: d2_def)
    qed (use H(8) in simp)
    then show ?thesis
      using run H L b(3) by (intro exI [of _ d'] exI [of _ p'']) (simp add: d2_def notify_connected add_all_append)
  qed
qed

lemma headers_loop_safe:
  assumes ok: "db_ok A" "never_fails A" and d: "cd_inv A X (hd_chaindb d)" "\<forall>h\<in>set queue. prev_blockhash h \<noteq> 0"
  shows "\<exists>d' p' r. headers_loop A X D pid d p queue = Some (d', p', r) \<and> cd_inv A X (hd_chaindb d') \<and>
    hc_headers (cd_headercache (hd_chaindb d)) \<subseteq>\<^sub>m hc_headers (cd_headercache (hd_chaindb d')) \<and> hd_timeout d' = hd_timeout d \<and>
    (r = Panicked \<longrightarrow> (\<exists>h\<in>set queue. adding_panics X (hc_headers (cd_headercache (hd_chaindb d))) h))"
  using d
proof (induction "length queue" arbitrary: d p queue rule: less_induct)
  case less
  show ?case
  proof (cases "queue = []")
    case True
    then show ?thesis using less.prems by (simp add: headers_loop.simps)
  next
    case False
    let ?m = "hc_headers (cd_headercache (hd_chaindb d))"
    define p0 where "p0 = p\<lparr>pr_disconnected := [], pr_connected := []\<rparr>"
    obtain cd' p' e where L: "add_loop A X (hd_chaindb d) p0 queue = Some (cd', p', e)" "cd_inv A X cd'"
      "?m \<subseteq>\<^sub>m hc_headers (cd_headercache cd')" "\<forall>rest. e = Batch rest \<longrightarrow> set rest \<subseteq> set queue"
      "e = Panicking \<longrightarrow> (\<exists>h\<in>set queue. adding_panics X ?m h)"
      using add_loop_safe [OF ok less.prems, of p0] by (fastforce simp: safe_batch_def)
    obtain cd2 where b: "ChainDB_batch A cd' = (cd2, Ok ())" "cd_inv A X cd2" "cd_headercache cd2 = cd_headercache cd'"
      using batch_reliable [OF ok L(2)] by blast
    show ?thesis
    proof (cases "\<exists>rest. e = Batch rest")
      case True
      then obtain rest where e: "e = Batch rest" by blast
      define d2 where "d2 = d\<lparr>hd_chaindb := cd2, hd_downstream := notify D p' (hd_downstream d)\<rparr>"
      have run: "headers_loop A X D pid d p queue = headers_loop A X D pid d2 p' rest"
        using False L(1) b(1) e by (simp add: headers_loop.simps [of _ _ _ _ d] p0_def d2_def)
      have "length rest < length queue" using add_loop_shorter [OF L(1) [unfolded e]] False by (cases queue) auto
      moreover have "\<forall>h\<in>set rest. prev_blockhash h \<noteq> 0" using L(4) e less.prems(2) by blast
      ultimately obtain d' p'' r where H:
        "headers_loop A X D pid d2 p' rest = Some (d', p'', r)" "cd_inv A X (hd_chaindb d')"
        "hc_headers (cd_headercache cd') \<subseteq>\<^sub>m hc_headers (cd_headercache (hd_chaindb d'))" "hd_timeout d' = hd_timeout d"
        "r = Panicked \<longrightarrow> (\<exists>h\<in>set rest. adding_panics X (hc_headers (cd_headercache cd')) h)"
        using less.hyps [of rest d2 p'] b(2,3) by (simp add: d2_def) blast
      moreover have "r = Panicked \<longrightarrow> (\<exists>h\<in>set queue. adding_panics X ?m h)"
        using H(5) L(4) e adding_panics_mono [OF _ L(3)] by (metis subsetD)
      ultimately show ?thesis using run map_le_trans [OF L(3) H(3)] by auto
    next
      case other: False
      then show ?thesis using False L b
        by (cases e) (auto simp: headers_loop.simps [of _ _ _ _ d] p0_def)
    qed
  qed
qed

lemma locator_loop_extends: "\<exists>r. locator_loop xs loc skip count s = loc @ r"
proof (induction xs arbitrary: loc skip count s)
  case (Cons x xs)
  show ?case
    using Cons.IH [of "loc @ [x]" "if word_sless 10 (count + 1) then skip * 2 else skip" "count + 1" "skip - 1"]
      Cons.IH [of loc skip count "s - 1"]
    by (auto simp: Let_def)
qed simp

lemma locators_start:
  assumes "hc_inv X (cd_headercache cd)"
  shows "ChainDB_header_locators cd \<noteq> []" "hd (ChainDB_header_locators cd) = last (hc_trunk (cd_headercache cd))"
proof -
  have "hc_trunk (cd_headercache cd) \<noteq> []" using assms tree_inv_trunk(1) by (auto simp: hc_inv_def)
  then obtain t ts where t: "hc_trunk (cd_headercache cd) = ts @ [t]" by (metis rev_exhaust)
  have "locator_loop (rev ts) [t] sk 1 0 \<noteq> [] \<and> hd (locator_loop (rev ts) [t] sk 1 0) = t" for sk
    using locator_loop_extends [of "rev ts" "[t]" sk 1 0] by auto
  then show "ChainDB_header_locators cd \<noteq> []" "hd (ChainDB_header_locators cd) = last (hc_trunk (cd_headercache cd))"
    using t by (simp_all add: ChainDB_header_locators_def HeaderCache_locator_hashes_def Let_def)
qed

lemma ask_idle:
  assumes "to_inv (hd_timeout d)" "unat now + 60 < 2 ^ 64" "owed (hd_timeout d) pid ExpectHeaders = 0"
    "hc_inv X (cd_headercache (hd_chaindb d))"
  defines "loc \<equiv> ChainDB_header_locators (hd_chaindb d)"
  shows "\<exists>t. HeaderDownload_get_headers checks now d pid =
      (d\<lparr>hd_p2p := hd_p2p d @ [Send pid (GetHeaders loc (hd loc))], hd_timeout := t\<rparr>, Ok ()) \<and>
    owed t pid ExpectHeaders = 1 \<and> to_inv t"
proof -
  have "\<not> Timeout_is_busy_with (hd_timeout d) pid ExpectHeaders" using busy_with_owed [OF assms(1)] assms(3) by simp
  moreover have "0 < length loc" using locators_start [OF assms(4)] by (simp add: loc_def)
  moreover obtain t where "Timeout_expect checks now (hd_timeout d) pid 1 ExpectHeaders = Ok t" "to_inv t"
    "owed t = (owed (hd_timeout d))(pid := (owed (hd_timeout d) pid)(ExpectHeaders := 1))"
    using replies.expect_law [OF assms(1,2,3), of checks] by blast
  ultimately show ?thesis
    by (auto simp: HeaderDownload_get_headers_def Let_def loc_def [symmetric]
        P2PControlSender_send_network_def P2PControlSender_send_def)
qed

text \<open>The whole handler on headers none of which is refused.\<close>

lemma headers_good:
  assumes ok: "db_ok A" "never_fails A" and d: "cd_inv A X (hd_chaindb d)" "to_inv (hd_timeout d)"
      "owed (hd_timeout d) pid ExpectHeaders \<le> 1" and now: "unat now + 60 < 2 ^ 64"
    and hs: "hs \<noteq> []" "\<forall>h\<in>set hs. prev_blockhash h \<noteq> 0" "accepts X (cd_headercache (hd_chaindb d)) hs"
  shows "\<exists>d'. HeaderDownload_headers checks now A X recorder d hs pid = Some (d', Ok ()) \<and> cd_inv A X (hd_chaindb d') \<and>
    add_all (HeaderCache_add_header X) (cd_headercache (hd_chaindb d)) hs = Some (cd_headercache (hd_chaindb d')) \<and>
    connected_of (hd_downstream d') =
      connected_of (hd_downstream d) @ new_headers X (cd_headercache (hd_chaindb d)) hs \<and>
    (new_headers X (cd_headercache (hd_chaindb d)) hs \<noteq> [] \<longrightarrow>
       (let loc = ChainDB_header_locators (hd_chaindb d')
        in (\<exists>hts. hd_p2p d' = hd_p2p d @ Send pid (GetHeaders loc (hd loc)) # hts \<and> set hts \<subseteq> range Height) \<and>
           owed (hd_timeout d') pid ExpectHeaders = 1 \<and> to_inv (hd_timeout d'))) \<and>
    (\<exists>cd0. ChainDB_batch A cd0 = (hd_chaindb d', Ok ()))"
proof -
  obtain t where t: "Timeout_received checks now (hd_timeout d) pid 1 ExpectHeaders = Ok t" "to_inv t"
    "owed t = (owed (hd_timeout d))(pid := (owed (hd_timeout d) pid)(ExpectHeaders := owed (hd_timeout d) pid ExpectHeaders - 1))"
    using replies.received_law [OF d(2) now, of checks] by blast
  then have t0: "owed t pid ExpectHeaders = 0" using d(3) by simp
  define d1 where "d1 = d\<lparr>hd_timeout := t\<rparr>"
  have "tree_inv X (cd_headercache (hd_chaindb d))" using d(1) by (simp add: cd_inv_def hc_inv_def)
  then obtain tip where tip: "ChainDB_header_tip (hd_chaindb d) = Some tip"
    using tree_inv_trunk tip_eq by (metis ChainDB_header_tip_def last_in_set)
  define p where "p = \<lparr>pr_height = ch_height tip, pr_some_new = False, pr_moved_tip = None,
    pr_disconnected = [], pr_connected = []\<rparr>"
  obtain d2 p' where L: "headers_loop A X recorder pid d1 p hs = Some (d2, p', Ok True)" "cd_inv A X (hd_chaindb d2)"
    "add_all (HeaderCache_add_header X) (cd_headercache (hd_chaindb d)) hs = Some (cd_headercache (hd_chaindb d2))"
    "connected_of (hd_downstream d2) =
      connected_of (hd_downstream d) @ new_headers X (cd_headercache (hd_chaindb d)) hs"
    "pr_some_new p' = (new_headers X (cd_headercache (hd_chaindb d)) hs \<noteq> [])"
    "hd_timeout d2 = t" "hd_p2p d2 = hd_p2p d" "\<exists>cd0. ChainDB_batch A cd0 = (hd_chaindb d2, Ok ())"
    using headers_loop_good [OF ok, of X d1 hs pid p] d(1) hs by (auto simp: d1_def p_def)
  have hc: "hc_inv X (cd_headercache (hd_chaindb d2))" using L(2) by (simp add: cd_inv_def)
  obtain t' where ask: "HeaderDownload_get_headers checks now d2 pid =
      (d2\<lparr>hd_p2p := hd_p2p d2 @ [Send pid (GetHeaders (ChainDB_header_locators (hd_chaindb d2)) (hd (ChainDB_header_locators (hd_chaindb d2))))],
          hd_timeout := t'\<rparr>, Ok ())" "owed t' pid ExpectHeaders = 1" "to_inv t'"
    using ask_idle [of d2 now pid X checks] t(2) now t0 L(6) hc by auto
  show ?thesis
    using t(1) tip L ask hs(1)
    by (cases "new_headers X (cd_headercache (hd_chaindb d)) hs = []"; cases "pr_moved_tip p'")
      (auto simp: HeaderDownload_headers_def Let_def d1_def p_def P2PControlSender_send_def)
qed

text \<open>The whole handler on any headers.\<close>

lemma ask_returns:
  assumes "to_inv (hd_timeout d)" "unat now + 60 < 2 ^ 64"
  shows "\<exists>d'. HeaderDownload_get_headers checks now d pid = (d', Ok ()) \<and> hd_chaindb d' = hd_chaindb d"
proof (cases "Timeout_is_busy_with (hd_timeout d) pid ExpectHeaders")
  case False
  then have "owed (hd_timeout d) pid ExpectHeaders = 0" using busy_with_owed [OF assms(1)] by simp
  then obtain t where "Timeout_expect checks now (hd_timeout d) pid 1 ExpectHeaders = Ok t"
    using replies.expect_law [OF assms, of pid ExpectHeaders checks] by blast
  then show ?thesis using False by (simp add: HeaderDownload_get_headers_def Let_def)
qed (simp add: HeaderDownload_get_headers_def)

lemma headers_return:
  assumes ok: "db_ok A" "never_fails A" and d: "cd_inv A X (hd_chaindb d)" "to_inv (hd_timeout d)"
    and now: "unat now + 60 < 2 ^ 64" and hs: "\<forall>h\<in>set hs. prev_blockhash h \<noteq> 0"
  shows "\<exists>d' r. HeaderDownload_headers checks now A X D d hs pid = Some (d', r) \<and> cd_inv A X (hd_chaindb d') \<and>
    hc_headers (cd_headercache (hd_chaindb d)) \<subseteq>\<^sub>m hc_headers (cd_headercache (hd_chaindb d')) \<and>
    (r = Panicked \<longrightarrow> (\<exists>h\<in>set hs. adding_panics X (hc_headers (cd_headercache (hd_chaindb d))) h))"
proof -
  obtain t where t: "Timeout_received checks now (hd_timeout d) pid 1 ExpectHeaders = Ok t" "to_inv t"
    using replies.received_law [OF d(2) now, of checks] by blast
  show ?thesis
  proof (cases "hs = [] \<or> ChainDB_header_tip (hd_chaindb d) = None")
    case True
    then show ?thesis using t d by (auto simp: HeaderDownload_headers_def Let_def)
  next
    case False
    then obtain tip where tip: "ChainDB_header_tip (hd_chaindb d) = Some tip" by blast
    define p where "p = \<lparr>pr_height = ch_height tip, pr_some_new = False, pr_moved_tip = None,
      pr_disconnected = [], pr_connected = []\<rparr>"
    obtain d' p' r where L: "headers_loop A X D pid (d\<lparr>hd_timeout := t\<rparr>) p hs = Some (d', p', r)" "cd_inv A X (hd_chaindb d')"
      "hc_headers (cd_headercache (hd_chaindb d)) \<subseteq>\<^sub>m hc_headers (cd_headercache (hd_chaindb d'))" "hd_timeout d' = t"
      "r = Panicked \<longrightarrow> (\<exists>h\<in>set hs. adding_panics X (hc_headers (cd_headercache (hd_chaindb d))) h)"
      using headers_loop_safe [OF ok, of X "d\<lparr>hd_timeout := t\<rparr>" hs D pid p] d(1) hs by auto
    obtain d'' where g: "HeaderDownload_get_headers checks now d' pid = (d'', Ok ())" "hd_chaindb d'' = hd_chaindb d'"
      using ask_returns [of d' now checks pid] t(2) L(4) now by auto
    have "\<exists>e s. HeaderDownload_headers checks now A X D d hs pid = Some (e, s) \<and> hd_chaindb e = hd_chaindb d' \<and>
        (s = Panicked \<longrightarrow> r = Panicked)"
      using t(1) tip False L(1) g
      by (auto simp: HeaderDownload_headers_def Let_def p_def split: outcome.splits option.splits)
    then show ?thesis using L by auto
  qed
qed

text \<open>Headers that are accepted and unwind nothing pass the inner loop; the cache they leave.\<close>

fun quiet_adds :: "ext \<Rightarrow> HeaderCache \<Rightarrow> BlockHeader list \<Rightarrow> HeaderCache option" where
  "quiet_adds X hc [] = Some hc"
| "quiet_adds X hc (h # hs) =
     (case HeaderCache_add_header X hc h of
        Some (hc', Ok None) \<Rightarrow> quiet_adds X hc' hs
      | Some (hc', Ok (Some (_, None, _))) \<Rightarrow> quiet_adds X hc' hs
      | _ \<Rightarrow> None)"

lemma add_loop_quiet:
  assumes "db_ok A" "never_fails A" "cd_inv A X cd" "\<forall>h\<in>set pre. prev_blockhash h \<noteq> 0"
    "quiet_adds X (cd_headercache cd) pre = Some hc"
  shows "\<exists>cd' p'. add_loop A X cd p (pre @ rest) = add_loop A X cd' p' rest \<and> cd_headercache cd' = hc \<and> cd_inv A X cd' \<and>
    pr_connected p' = pr_connected p @ new_headers X (cd_headercache cd) pre \<and> pr_disconnected p' = pr_disconnected p"
  using assms(3-5)
proof (induction pre arbitrary: cd p)
  case Nil
  then show ?case by (intro exI [of _ cd] exI [of _ p]) simp
next
  case (Cons h pre)
  let ?hc = "cd_headercache cd"
  have hc: "hc_inv X ?hc" using Cons.prems(1) by (simp add: cd_inv_def)
  have nz: "prev_blockhash h \<noteq> 0" using Cons.prems(2) by simp
  obtain hc' a where q: "HeaderCache_add_header X ?hc h = Some (hc', Ok a)" "quiet_adds X hc' pre = Some hc"
    "\<And>c u f. a = Some (c, u, f) \<Longrightarrow> u = None"
    using Cons.prems(3) by (auto split: option.splits outcome.splits)
  obtain cd1 where cd1: "ChainDB_add_header A X cd h = Some (cd1, Ok (map_option (\<lambda>(c, u, f). (ch_stored c, u, f)) a))"
    "cd_headercache cd1 = hc'"
    using chain_add_as_cache [OF assms(2) q(1)] by auto
  have inv1: "cd_inv A X cd1" using chain_add_reliable [OF assms(1,2) Cons.prems(1) nz cd1(1)] by blast
  define p1 where "p1 = (case a of None \<Rightarrow> p | Some (c, u, f) \<Rightarrow>
      (case f of Some f \<Rightarrow> p\<lparr>pr_connected := pr_connected p @ [(ch_header c, ch_height c)],
          pr_some_new := True, pr_moved_tip := Some (last f)\<rparr>
        | None \<Rightarrow> p\<lparr>pr_connected := pr_connected p @ [(ch_header c, ch_height c)], pr_some_new := True\<rparr>)
      \<lparr>pr_height := ch_height c\<rparr>)"
  have "f \<noteq> Some []" if "a = Some (c, u, f)" for c u f using add_header_forward [OF hc nz] q(1) that by blast
  then have "add_loop A X cd p ((h # pre) @ rest) = add_loop A X cd1 p1 (pre @ rest)"
    using cd1(1) q(3) by (auto simp: p1_def Let_def split: option.splits)
  moreover have "pr_connected p1 @ new_headers X hc' pre = pr_connected p @ new_headers X ?hc (h # pre)"
    "pr_disconnected p1 = pr_disconnected p"
    using q(1) by (auto simp: p1_def split: option.splits)
  ultimately show ?case using Cons.IH [OF inv1, of p1] Cons.prems(2) q(2) cd1(2) by fastforce
qed

section \<open>Properties\<close>

definition idle_download :: "HeaderCache \<Rightarrow> (mem_db, notice list) HeaderDownload" where
  "idle_download hc =
     \<lparr>hd_p2p = [], hd_chaindb = sample_chain hc, hd_timeout = Timeout_new, hd_downstream = []\<rparr>"

lemma idle_download_inv:
  "hc_inv sample_ext hc \<Longrightarrow> cd_inv mem_api sample_ext (hd_chaindb (idle_download hc))"
  "hd_timeout (idle_download hc) = Timeout_new" "cd_headercache (hd_chaindb (idle_download hc)) = hc"
  "hd_downstream (idle_download hc) = []"
  using sample_chain_inv by (simp_all add: idle_download_def sample_chain_def)

text \<open>The three headers 2, 3 and 4 that a peer sends: 2 and 3 on 1, and 4 on 3.\<close>

definition sample_headers :: "BlockHeader list" where
  "sample_headers = [mk_header easy 2 1, mk_header easy 3 1, mk_header easy 4 3]"

lemma sample_headers_ok:
  "\<forall>h\<in>set sample_headers. prev_blockhash h \<noteq> 0" "accepts sample_ext (sample_1 Bitcoin) sample_headers"
  "new_headers sample_ext (sample_1 Bitcoin) sample_headers =
    [(mk_header easy 2 1, 1), (mk_header easy 3 1, 1), (mk_header easy 4 3, 2)]" "sample_headers \<noteq> []"
  by (simp_all add: sample_headers_def sample_add_2 sample_add_3 sample_add_4)

text \<open>
  C6. The handler of headers, with its queue, its batches and its breaks, does what adding the headers one
  by one does: on a store that does not fail, when no header is refused, it completes, the chain
  is the one that results from adding them in order, all of it on disk, and the application is
  told of exactly the headers that were new, in order, once each, with their heights: those of side chains too, though
  the interface announces only headers added to the trunk.
\<close>
theorem headers_as_added:
  assumes "db_ok A" "never_fails A" "cd_inv A X (hd_chaindb d)" "to_inv (hd_timeout d)"
    "owed (hd_timeout d) pid ExpectHeaders \<le> 1" "unat now + 60 < 2 ^ 64"
    "hs \<noteq> []" "\<forall>h\<in>set hs. prev_blockhash h \<noteq> 0" "accepts X (cd_headercache (hd_chaindb d)) hs"
  shows "\<exists>d'. HeaderDownload_headers checks now A X recorder d hs pid = Some (d', Ok ()) \<and> cd_inv A X (hd_chaindb d') \<and>
    add_all (HeaderCache_add_header X) (cd_headercache (hd_chaindb d)) hs = Some (cd_headercache (hd_chaindb d')) \<and>
    connected_of (hd_downstream d') =
      connected_of (hd_downstream d) @ new_headers X (cd_headercache (hd_chaindb d)) hs"
  using headers_good [OF assms, of checks] by blast

theorem headers_as_added_witness:
  "\<exists>d'. HeaderDownload_headers True 1000 mem_api sample_ext recorder (idle_download (sample_1 Bitcoin)) sample_headers (sample_pid 1) =
     Some (d', Ok ()) \<and> cd_headercache (hd_chaindb d') = sample_4 Bitcoin \<and>
     connected_of (hd_downstream d') = [(mk_header easy 2 1, 1), (mk_header easy 3 1, 1), (mk_header easy 4 3, 2)]"
proof -
  have "add_all (HeaderCache_add_header sample_ext) (sample_1 Bitcoin) sample_headers = Some (sample_4 Bitcoin)"
    by (simp add: sample_headers_def sample_add_2 sample_add_3 sample_add_4)
  then show ?thesis
    using headers_as_added [OF mem_api_ok idle_download_inv(1) [OF sample_1_inv(1) [of Bitcoin]],
        of "sample_pid 1" 1000 sample_headers True] sample_headers_ok
    by (auto simp: idle_download_inv)
qed

text \<open>
  C25. What was downloaded survives a restart: when the handler has added an answer none of whose headers is refused, on a store that does not
  fail, and the node stops then, opening the store again recovers the tip that the chain has.
\<close>
theorem downloaded_survive:
  assumes "db_ok A" "never_fails A" "durable A reopen" "cd_inv A X (hd_chaindb d)" "to_inv (hd_timeout d)"
    "owed (hd_timeout d) pid ExpectHeaders \<le> 1" "unat now + 60 < 2 ^ 64"
    "hs \<noteq> []" "\<forall>h\<in>set hs. prev_blockhash h \<noteq> 0" "accepts X (cd_headercache (hd_chaindb d)) hs"
  shows "\<exists>d' cd'. HeaderDownload_headers checks now A X recorder d hs pid = Some (d', Ok ()) \<and>
    add_all (HeaderCache_add_header X) (cd_headercache (hd_chaindb d)) hs = Some (cd_headercache (hd_chaindb d')) \<and>
    ChainDB_init A X G (reopened reopen (hd_chaindb d')) = Some (cd', Ok ()) \<and>
    ChainDB_header_tip cd' = ChainDB_header_tip (hd_chaindb d') \<and> trunk_linked (cd_headercache cd')"
proof -
  obtain d' cd0 where d': "HeaderDownload_headers checks now A X recorder d hs pid = Some (d', Ok ())" "cd_inv A X (hd_chaindb d')"
    "add_all (HeaderCache_add_header X) (cd_headercache (hd_chaindb d)) hs = Some (cd_headercache (hd_chaindb d'))"
    "ChainDB_batch A cd0 = (hd_chaindb d', Ok ())"
    using headers_good [OF assms(1,2,4-), of checks] by blast
  have "same_reads A (reopen (cd_db (hd_chaindb d'))) (cd_db (hd_chaindb d'))"
    using batch_permanent [OF assms(1,3) d'(4)] by blast
  from reopened_spec [where reopen = reopen, OF d'(2) this, of G] d'(1,3) show ?thesis by blast
qed

theorem downloaded_survive_witness:
  "\<exists>d d' cd'. HeaderDownload_headers True 1000 journal_api sample_ext recorder d [mk_header easy 2 1] (sample_pid 1) = Some (d', Ok ()) \<and>
     ChainDB_init journal_api sample_ext sample_G (reopened journal_reopen (hd_chaindb d')) = Some (cd', Ok ()) \<and>
     ChainDB_header_tip cd' = Some (mk_cached 2 1 1 4)"
proof -
  let ?mem = "cd_db (sample_chain (sample_1 Bitcoin))"
  define d :: "(journal_db, notice list) HeaderDownload" where "d = \<lparr>hd_p2p = [],
    hd_chaindb = \<lparr>cd_db = (?mem, ?mem), cd_headercache = sample_1 Bitcoin, cd_network = Bitcoin\<rparr>,
    hd_timeout = Timeout_new, hd_downstream = []\<rparr>"
  have i: "cd_inv journal_api sample_ext (hd_chaindb d)"
    using sample_chain_inv [OF sample_1_inv(1)] by (simp add: d_def cd_inv_def sample_chain_def)
  have a: "add_all (HeaderCache_add_header sample_ext) (sample_1 Bitcoin) [mk_header easy 2 1] = Some (sample_2 Bitcoin)"
    "accepts sample_ext (cd_headercache (hd_chaindb d)) [mk_header easy 2 1]"
    by (simp_all add: d_def sample_add_2)
  obtain d' cd' where r: "HeaderDownload_headers True 1000 journal_api sample_ext recorder d [mk_header easy 2 1] (sample_pid 1) = Some (d', Ok ())"
    "add_all (HeaderCache_add_header sample_ext) (cd_headercache (hd_chaindb d)) [mk_header easy 2 1] = Some (cd_headercache (hd_chaindb d'))"
    "ChainDB_init journal_api sample_ext sample_G (reopened journal_reopen (hd_chaindb d')) = Some (cd', Ok ())"
    "ChainDB_header_tip cd' = ChainDB_header_tip (hd_chaindb d')"
    using downloaded_survive [OF journal_ok i, of "sample_pid 1" 1000 "[mk_header easy 2 1]" True sample_G] a(2) by (auto simp: d_def)
  have "cd_headercache (hd_chaindb d') = sample_2 Bitcoin" using r(2) a(1) by (simp add: d_def)
  then have "ChainDB_header_tip (hd_chaindb d') = Some (mk_cached 2 1 1 4)" by (simp add: ChainDB_header_tip_def sample_2_def tip_eq)
  then show ?thesis using r by metis
qed

text \<open>
  The download goes on: when a peer's answer brought something new, the peer is asked for the headers
  after the tip the chain then has, and the answer is expected of it.
\<close>
theorem download_continues:
  assumes "db_ok A" "never_fails A" "cd_inv A X (hd_chaindb d)" "to_inv (hd_timeout d)"
    "owed (hd_timeout d) pid ExpectHeaders \<le> 1" "unat now + 60 < 2 ^ 64"
    "\<forall>h\<in>set hs. prev_blockhash h \<noteq> 0" "accepts X (cd_headercache (hd_chaindb d)) hs"
    "new_headers X (cd_headercache (hd_chaindb d)) hs \<noteq> []"
  shows "\<exists>d' loc. HeaderDownload_headers checks now A X recorder d hs pid = Some (d', Ok ()) \<and>
    loc = ChainDB_header_locators (hd_chaindb d') \<and> Send pid (GetHeaders loc (hd loc)) \<in> set (hd_p2p d') \<and>
    owed (hd_timeout d') pid ExpectHeaders = 1"
proof -
  have "hs \<noteq> []" using assms(9) by auto
  then show ?thesis using headers_good [OF assms(1-6) _ assms(7,8), of checks] assms(9) by (auto simp: Let_def)
qed

theorem download_continues_witness:
  "\<exists>d' loc. HeaderDownload_headers True 1000 mem_api sample_ext recorder (idle_download (sample_1 Bitcoin)) sample_headers (sample_pid 1) =
     Some (d', Ok ()) \<and> Send (sample_pid 1) (GetHeaders loc (hd loc)) \<in> set (hd_p2p d')"
  using download_continues [OF mem_api_ok idle_download_inv(1) [OF sample_1_inv(1) [of Bitcoin]],
      of "sample_pid 1" 1000 sample_headers True] sample_headers_ok
  by (auto simp: idle_download_inv)

text \<open>
  C19. Whatever headers with a parent a peer sends, in any order, with or without proof of work, on a store that does not fail the
  handler ends, with a result or with a panic, the database stays consistent, and no header known before is lost. It panics
  only if one of these headers makes \<open>add_header\<close> panic on a valid cache that has the headers known before (as
  \<open>excessive_work_panics\<close> shows that it may).
\<close>
theorem headers_safe:
  assumes "db_ok A" "never_fails A" "cd_inv A X (hd_chaindb d)" "to_inv (hd_timeout d)"
    "unat now + 60 < 2 ^ 64" "\<forall>h\<in>set hs. prev_blockhash h \<noteq> 0"
  shows "\<exists>d' r. HeaderDownload_headers checks now A X D d hs pid = Some (d', r) \<and> cd_inv A X (hd_chaindb d') \<and>
    hc_headers (cd_headercache (hd_chaindb d)) \<subseteq>\<^sub>m hc_headers (cd_headercache (hd_chaindb d')) \<and>
    (r = Panicked \<longrightarrow> (\<exists>h\<in>set hs. adding_panics X (hc_headers (cd_headercache (hd_chaindb d))) h))"
  using assms by (rule headers_return)

theorem headers_safe_witness:
  "\<exists>d' r. HeaderDownload_headers True 1000 mem_api sample_ext recorder (idle_download (sample_1 Bitcoin))
      [mk_header easy 4 3, mk_header easy 2 1] (sample_pid 1) = Some (d', r) \<and>
    hc_headers (cd_headercache (hd_chaindb d')) 1 = Some (mk_cached 1 0 0 2)"
  using headers_safe [OF mem_api_ok idle_download_inv(1) [OF sample_1_inv(1) [of Bitcoin]], of 1000
      "[mk_header easy 4 3, mk_header easy 2 1]" True recorder "sample_pid 1"]
  by (fastforce simp: idle_download_inv map_le_def sample_1_def)

text \<open>
  A header that is not known, follows one that is, and does not have the proof of work that is required after that one: its target is
  another, or its hash exceeds it. Its height and its total work are in range, so that no step before the check panics.
\<close>

definition lacks_pow :: "ext \<Rightarrow> HeaderCache \<Rightarrow> BlockHeader \<Rightarrow> bool" where
  "lacks_pow X hc h \<longleftrightarrow>
     hc_headers hc (x_hash X h) = None \<and> prev_blockhash h \<noteq> 0 \<and>
     (\<exists>prev required c. hc_headers hc (prev_blockhash h) = Some prev \<and> required_work X hc prev h = Some (Ok required) \<and>
        cached_of X prev h = Ok c \<and> (header_target h \<noteq> required \<or> unat required < unat (x_hash X h)))"

lemma lacks_pow_refused:
  assumes "ext_ok X" "lacks_pow X hc h"
  shows "HeaderCache_add_header X hc h = Some (hc, Err SpvBadProofOfWork)"
proof -
  obtain prev required c where a: "hc_headers hc (x_hash X h) = None" "prev_blockhash h \<noteq> 0" "hc_headers hc (prev_blockhash h) = Some prev"
    "required_work X hc prev h = Some (Ok required)" "cached_of X prev h = Ok c" "header_target h \<noteq> required \<or> unat required < unat (x_hash X h)"
    using assms(2) unfolding lacks_pow_def by blast
  note C = cached_of_Ok [OF a(5)]
  have "\<exists>e. CachedHeader_spv_validate X c required = Err e"
    using a(6) C by (auto simp: spv_validate_eq [OF assms(1)] word_le_nat_alt)
  then show ?thesis using a by (auto simp: HeaderCache_add_header_def HeaderCache_add_header_to_tree_def)
qed

lemma bad_pow_handled:
  assumes ok: "db_ok A" "never_fails A" and d: "cd_inv A X (hd_chaindb d)" "to_inv (hd_timeout d)"
    and now: "unat now + 60 < 2 ^ 64" and pre: "\<forall>h\<in>set pre. prev_blockhash h \<noteq> 0"
      "quiet_adds X (cd_headercache (hd_chaindb d)) pre = Some hc"
    and bad: "HeaderCache_add_header X hc h = Some (hc, Err SpvBadProofOfWork)"
  shows "\<exists>d'. HeaderDownload_headers checks now A X D d (pre @ h # rest) pid = Some (d', Ok ()) \<and>
    hd_p2p d' = hd_p2p d @ [Ban pid 100] \<and> cd_headercache (hd_chaindb d') = hc \<and> hd_downstream d' = hd_downstream d"
proof -
  obtain t where t: "Timeout_received checks now (hd_timeout d) pid 1 ExpectHeaders = Ok t"
    using replies.received_law [OF d(2) now, of checks] by blast
  have "tree_inv X (cd_headercache (hd_chaindb d))" using d(1) by (simp add: cd_inv_def hc_inv_def)
  then obtain tip where tip: "ChainDB_header_tip (hd_chaindb d) = Some tip"
    using tree_inv_trunk tip_eq by (metis ChainDB_header_tip_def last_in_set)
  define p where "p = \<lparr>pr_height = ch_height tip, pr_some_new = False, pr_moved_tip = None,
    pr_disconnected = [], pr_connected = []\<rparr>"
  obtain cd' p' where q: "add_loop A X (hd_chaindb d) p (pre @ h # rest) = add_loop A X cd' p' (h # rest)"
    "cd_headercache cd' = hc" using add_loop_quiet [OF ok d(1) pre, of p "h # rest"] by blast
  obtain cd2 where "ChainDB_add_header A X cd' h = Some (cd2, Err SpvBadProofOfWork)" "cd_headercache cd2 = hc"
    using chain_add_as_cache [OF ok(2), of X cd' h hc "Err SpvBadProofOfWork"] q(2) bad by auto
  then have "add_loop A X (hd_chaindb d) p (pre @ h # rest) = Some (cd2, p', ReturnBanning)" "cd_headercache cd2 = hc"
    using q(1) by simp_all
  then show ?thesis
    using t tip
    by (simp add: HeaderDownload_headers_def Let_def p_def headers_loop.simps P2PControlSender_ban_def
        P2PControlSender_send_def)
qed

text \<open>
  A header without proof of work gets the peer that sent it banned with the full score, and nothing
  after it is looked at. The headers before it in the same answer stay in the chain; the
  application is not told of them, neither then nor, since they are known from then on, later.
\<close>
theorem bad_pow_bans:
  assumes ok: "db_ok A" "never_fails A" and d: "cd_inv A X (hd_chaindb d)" "to_inv (hd_timeout d)"
    and now: "unat now + 60 < 2 ^ 64" and pre: "\<forall>h\<in>set pre. prev_blockhash h \<noteq> 0"
      "quiet_adds X (cd_headercache (hd_chaindb d)) pre = Some hc"
    and bad: "HeaderCache_add_header X hc h = Some (hc, Err SpvBadProofOfWork)"
  shows "\<exists>d'. HeaderDownload_headers checks now A X D d (pre @ h # rest) pid = Some (d', Ok ()) \<and>
    hd_p2p d' = hd_p2p d @ [Ban pid 100] \<and> cd_headercache (hd_chaindb d') = hc \<and> hd_downstream d' = hd_downstream d"
  by (rule bad_pow_handled [OF assms])

text \<open>As \<open>sample_ext\<close>, but the header with nonce 9 has the largest hash.\<close>

definition pow_ext :: ext where
  "pow_ext = sample_ext\<lparr>x_hash := (\<lambda>h. if bh_nonce h = 9 then 2 ^ 255 else ucast (bh_nonce h))\<rparr>"

lemma pow_ext_ok: "ext_ok pow_ext"
  using sample_ext_ok by (simp add: ext_ok_def pow_ext_def)

lemma pow_ext_same [simp]:
  "HeaderCache_log2 pow_ext = HeaderCache_log2 sample_ext" "HeaderCache_exp2 pow_ext = HeaderCache_exp2 sample_ext"
  "x_work pow_ext = x_work sample_ext" "x_target pow_ext = x_target sample_ext" "x_add pow_ext = x_add sample_ext"
  "x_checks pow_ext = x_checks sample_ext"
  "x_hash pow_ext h = (if bh_nonce h = 9 then 2 ^ 255 else ucast (bh_nonce h))"
  by (simp_all add: pow_ext_def HeaderCache_log2_def HeaderCache_exp2_def fun_eq_iff)

lemma pow_add:
  "HeaderCache_add_header pow_ext (HeaderCache_new Bitcoin) (mk_header easy 1 0) =
     Some (sample_1 Bitcoin, Ok (Some (mk_cached 1 0 0 2, None, Some [1])))"
  "HeaderCache_add_header pow_ext (sample_1 Bitcoin) (mk_header easy 2 1) =
     Some (sample_2 Bitcoin, Ok (Some (mk_cached 2 1 1 4, None, Some [2])))"
  "HeaderCache_add_header pow_ext (sample_2 Bitcoin) (mk_header easy 9 2) =
     Some (sample_2 Bitcoin, Err SpvBadProofOfWork)"
  by (simp_all add: sample_defs add_header_defs fork_path.simps easy_target Let_def mk_cached_def
      CachedHeader_new_def spv_validate_eq [OF pow_ext_ok])

lemma pow_lacks: "lacks_pow pow_ext (sample_2 Bitcoin) (mk_header easy 9 2)"
  by (simp add: lacks_pow_def sample_defs add_header_defs easy_target Let_def mk_cached_def CachedHeader_new_def)

theorem bad_pow_bans_witness:
  "\<exists>d'. HeaderDownload_headers True 1000 mem_api pow_ext recorder (idle_download (sample_1 Bitcoin))
       [mk_header easy 2 1, mk_header easy 9 2] (sample_pid 1) = Some (d', Ok ()) \<and>
     hd_p2p d' = [Ban (sample_pid 1) 100] \<and> cd_headercache (hd_chaindb d') = sample_2 Bitcoin \<and> hd_downstream d' = []"
proof -
  have "hc_inv pow_ext (sample_1 Bitcoin)" using genesis_spec [of "mk_header easy 1 0" pow_ext Bitcoin] pow_add(1) by simp
  then have "cd_inv mem_api pow_ext (hd_chaindb (idle_download (sample_1 Bitcoin)))"
    using sample_chain_inv by (simp add: idle_download_def)
  from bad_pow_bans [OF mem_api_ok this, of 1000 "[mk_header easy 2 1]" "sample_2 Bitcoin" "mk_header easy 9 2" True recorder "[]" "sample_pid 1"]
  show ?thesis using pow_add by (simp add: idle_download_inv) (simp add: idle_download_def)
qed

lemma headers_of_eq:
  "\<forall>k\<in>set u. ChainDB_get_header cd k \<noteq> None \<Longrightarrow>
   headers_of cd u = Some (map (\<lambda>k. ch_header (the (hc_headers (cd_headercache cd) k))) u)"
  by (induction u) (auto simp: ChainDB_get_header_def HeaderCache_get_header_def)

lemma notify_recorder:
  "notify recorder p ns = ns @ map BlockDisconnected (pr_disconnected p) @ map (\<lambda>(h, k). HeaderConnected h k) (pr_connected p)"
proof -
  have "fold (\<lambda>(h, k) s. header_connected recorder s h k) xs ns = ns @ map (\<lambda>(h, k). HeaderConnected h k) xs" for xs ns
    by (induction xs arbitrary: ns) (auto simp: recorder_def)
  moreover have "fold (\<lambda>h s. block_disconnected recorder s h) xs ns = ns @ map BlockDisconnected xs" for xs ns
    by (induction xs arbitrary: ns) (auto simp: recorder_def)
  ultimately show ?thesis by (simp add: notify_def)
qed

lemma new_headers_append:
  "quiet_adds X hc pre = Some hc' \<Longrightarrow> new_headers X hc (pre @ rest) = new_headers X hc pre @ new_headers X hc' rest"
  by (induction pre arbitrary: hc) (auto split: option.splits outcome.splits)

lemma ask_downstream: "hd_downstream (fst (HeaderDownload_get_headers checks now d pid)) = hd_downstream d"
  by (simp add: HeaderDownload_get_headers_def Let_def split: outcome.splits)

text \<open>
  C40. Within a batch the application is told of the unwound blocks before the connected headers. When an
  answer both extends the trunk and then unwinds that extension, the application learns that a
  block was disconnected before it learns that its header was connected, and is left with it.
\<close>
theorem unwound_before_connected:
  assumes ok: "db_ok A" "never_fails A" and d: "cd_inv A X (hd_chaindb d)" "to_inv (hd_timeout d)"
    and now: "unat now + 60 < 2 ^ 64" and pre: "\<forall>h\<in>set (pre @ [h]). prev_blockhash h \<noteq> 0"
      "quiet_adds X (cd_headercache (hd_chaindb d)) pre = Some hc"
    and reorg: "HeaderCache_add_header X hc h = Some (hc', Ok (Some (c, Some u, f)))"
  shows "\<exists>d' r. HeaderDownload_headers checks now A X recorder d (pre @ [h]) pid = Some (d', r) \<and>
    hd_downstream d' = hd_downstream d @
      map (\<lambda>k. BlockDisconnected (ch_header (the (hc_headers hc' k)))) u @
      map (\<lambda>(h, k). HeaderConnected h k) (new_headers X (cd_headercache (hd_chaindb d)) (pre @ [h]))"
proof -
  obtain t where t: "Timeout_received checks now (hd_timeout d) pid 1 ExpectHeaders = Ok t"
    using replies.received_law [OF d(2) now, of checks] by blast
  have "tree_inv X (cd_headercache (hd_chaindb d))" using d(1) by (simp add: cd_inv_def hc_inv_def)
  then obtain tip where tip: "ChainDB_header_tip (hd_chaindb d) = Some tip"
    using tree_inv_trunk tip_eq by (metis ChainDB_header_tip_def last_in_set)
  define p where "p = \<lparr>pr_height = ch_height tip, pr_some_new = False, pr_moved_tip = None,
    pr_disconnected = [], pr_connected = []\<rparr>"
  let ?new = "new_headers X (cd_headercache (hd_chaindb d)) pre"
  let ?gone = "map (\<lambda>k. ch_header (the (hc_headers hc' k))) u"
  have nz: "prev_blockhash h \<noteq> 0" "\<forall>h\<in>set pre. prev_blockhash h \<noteq> 0" using pre(1) by auto
  obtain cd1 p1 where q: "add_loop A X (hd_chaindb d) p (pre @ [h]) = add_loop A X cd1 p1 [h]"
    "cd_headercache cd1 = hc" "cd_inv A X cd1" "pr_connected p1 = ?new" "pr_disconnected p1 = []"
    using add_loop_quiet [OF ok d(1) nz(2) pre(2), of p "[h]"] by (auto simp: p_def)
  have hc: "hc_inv X hc" using q(2,3) by (simp add: cd_inv_def)
  obtain cd2 where cd2: "ChainDB_add_header A X cd1 h = Some (cd2, Ok (Some (ch_stored c, Some u, f)))" "cd_headercache cd2 = hc'"
    using chain_add_as_cache [OF ok(2), of X cd1 h hc'] q(2) reorg by auto
  have inv2: "cd_inv A X cd2" using chain_add_reliable [OF ok q(3) nz(1) cd2(1)] by blast
  have "headers_of cd2 u = Some ?gone"
    using headers_of_eq [of u cd2] unwound_cached [OF hc nz(1) reorg] cd2(2)
    by (auto simp: ChainDB_get_header_def HeaderCache_get_header_def)
  moreover have "f \<noteq> Some []" using add_header_forward [OF hc nz(1) reorg] by blast
  ultimately obtain p2 where p2: "add_loop A X (hd_chaindb d) p (pre @ [h]) = Some (cd2, p2, Batch [])"
    "pr_connected p2 = ?new @ [(ch_header c, ch_height c)]" "pr_disconnected p2 = ?gone"
    using q(1,4,5) cd2(1) by (cases f) auto
  obtain cd3 where b: "ChainDB_batch A cd2 = (cd3, Ok ())" using batch_reliable [OF ok inv2] by blast
  define d2 where "d2 = d\<lparr>hd_timeout := t, hd_chaindb := cd3, hd_downstream := notify recorder p2 (hd_downstream d)\<rparr>"
  have L: "headers_loop A X recorder pid (d\<lparr>hd_timeout := t\<rparr>) p (pre @ [h]) = Some (d2, p2, Ok True)"
    using p2(1) b by (simp add: headers_loop.simps p_def d2_def)
  obtain d3 r3 where g: "(if pr_some_new p2 then HeaderDownload_get_headers checks now d2 pid else (d2, Ok ())) = (d3, r3)"
    by (metis surj_pair)
  then have d3: "hd_downstream d3 = hd_downstream d2" using ask_downstream [of checks now d2 pid] by (auto split: if_splits)
  have "\<exists>d' r. HeaderDownload_headers checks now A X recorder d (pre @ [h]) pid = Some (d', r) \<and> hd_downstream d' = hd_downstream d3"
    using t tip L g by (auto simp: HeaderDownload_headers_def Let_def p_def split: outcome.splits option.splits)
  moreover have "new_headers X (cd_headercache (hd_chaindb d)) (pre @ [h]) = ?new @ [(ch_header c, ch_height c)]"
    using new_headers_append [OF pre(2)] reorg by simp
  ultimately show ?thesis using d3 p2(2,3) by (simp add: d2_def notify_recorder comp_def)
qed

theorem unwound_before_connected_witness:
  "\<exists>d' r. HeaderDownload_headers True 1000 mem_api sample_ext recorder (idle_download (sample_1 Bitcoin)) sample_headers (sample_pid 1) =
     Some (d', r) \<and>
     hd_downstream d' = [BlockDisconnected (mk_header easy 2 1), HeaderConnected (mk_header easy 2 1) 1,
       HeaderConnected (mk_header easy 3 1) 1, HeaderConnected (mk_header easy 4 3) 2]"
  using unwound_before_connected [OF mem_api_ok idle_download_inv(1) [OF sample_1_inv(1) [of Bitcoin]], of 1000
      "[mk_header easy 2 1, mk_header easy 3 1]" "mk_header easy 4 3" "sample_3 Bitcoin" "sample_4 Bitcoin"
      "mk_cached 4 3 2 6" "[2]" "Some [1, 4]" True "sample_pid 1"] sample_headers_ok(3)
  by (simp add: idle_download_inv sample_headers_def sample_add_2 sample_add_3 sample_add_4) (simp add: sample_4_def)

end
