(* ===== verification/Shared_Timeout.thy ===== *)
theory Shared_Timeout
  imports Download_Correct
begin

text \<open>
  The ping and the header download on their shared table of timeouts
  (\<open>src/src/ping.rs\<close>, \<open>src/src/headerdownload.rs\<close>, \<open>src/src/timeout.rs\<close>): the two threads
  interleave in any order, the handling of one message or one round being a step.
\<close>

section \<open>What a module does to the table\<close>

definition one_each :: "ExpectedReply Timeout \<Rightarrow> bool" where
  "one_each t \<longleftrightarrow> to_inv t \<and> (\<forall>pid. owed t pid ExpectPong \<le> 1 \<and> owed t pid ExpectHeaders \<le> 1)"

lemma received_one_each:
  assumes "one_each t" "unat now + 60 < 2 ^ 64" "Timeout_received checks now t pid 1 w = Ok t'"
  shows "one_each t'"
proof -
  have "to_inv t'" "owed t' = (owed t)(pid := (owed t pid)(w := owed t pid w - 1))"
    using replies.received_law [of t now checks pid w] assms by (auto simp: one_each_def)
  then show ?thesis using assms(1) by (auto simp: one_each_def le_diff_conv intro: le_SucI)
qed

lemma expect_one_each:
  assumes "one_each t" "unat now + 60 < 2 ^ 64" "owed t pid w = 0" "Timeout_expect checks now t pid 1 w = Ok t'"
  shows "one_each t'"
proof -
  have "to_inv t'" "owed t' = (owed t)(pid := (owed t pid)(w := 1))"
    using replies.expect_law [of t now pid w checks] assms by (auto simp: one_each_def)
  then show ?thesis using assms(1) by (auto simp: one_each_def)
qed

lemma check_one_each: "one_each t \<Longrightarrow> one_each (fst (Timeout_check now t q replies))"
  using forget_all_inv by (auto simp: one_each_def Timeout_check_def Let_def forget_all_view)

lemma ping_message_one_each:
  assumes "one_each (ping_timeout p)" "unat now + 60 < 2 ^ 64" "ping_message checks now p msg = Ok p'"
  shows "one_each (ping_timeout p')"
proof -
  have f: "one_each (Timeout_forget (ping_timeout p) pid)" for pid
    using assms(1) forget_inv by (auto simp: one_each_def)
  show ?thesis
    using assms received_one_each [OF assms(1,2)] f
    by (auto simp: ping_message_def Let_def obind_eq_Ok split: PeerMessage.splits NetworkMessage.splits if_splits)
qed

lemma ping_round_one_each:
  assumes "one_each (ping_timeout p)" "unat now + 60 < 2 ^ 64" "distinct (map fst (n_peers n))"
    "ping_round checks now rnd n p = Ok p'"
  shows "one_each (ping_timeout p')"
proof -
  define t where "t = fold (\<lambda>pid t. Timeout_forget t pid) (late_peers now (ping_timeout p) [ExpectPong]) (ping_timeout p)"
  have i: "to_inv (ping_timeout p)" using assms(1) by (simp add: one_each_def)
  have R: "to_inv (ping_timeout p')"
    "pinged now rnd (\<lambda>pid. pid \<in> set (map fst (n_peers n)) \<and> \<not> Timeout_is_busy t pid) (p\<lparr>ping_timeout := t\<rparr>) p'"
    using ping_round_spec [OF i assms(2,3), of checks rnd] assms(4) by (auto simp: t_def)
  have "owed (ping_timeout p') pid w \<le> 1" if "w \<in> {ExpectPong, ExpectHeaders}" for pid w
  proof (cases "pid \<in> set (map fst (n_peers n)) \<and> \<not> Timeout_is_busy t pid")
    case True
    then show ?thesis using R(2) unfolding pinged_def by (auto dest!: spec [of _ pid])
  next
    case False
    then have "owed (ping_timeout p') pid w = owed t pid w" using R(2) unfolding pinged_def by (auto dest!: spec [of _ pid])
    also have "\<dots> \<le> 1" using assms(1) that by (auto simp: t_def forget_all_view one_each_def)
    finally show ?thesis .
  qed
  then show ?thesis using R(1) by (simp add: one_each_def)
qed

text \<open>The loop over the headers leaves the table alone.\<close>

lemma headers_loop_table:
  "headers_loop A X D pid d p queue = Some (d', p', r) \<Longrightarrow> hd_timeout d' = hd_timeout d"
proof (induction A X D pid d p queue rule: headers_loop.induct)
  case (1 A X D pid d p queue)
  show ?case
  proof (cases "queue = []")
    case True
    then show ?thesis using 1(2) by (simp add: headers_loop.simps)
  next
    case False
    obtain cd q e where L: "add_loop A X (hd_chaindb d) (p\<lparr>pr_disconnected := [], pr_connected := []\<rparr>) queue = Some (cd, q, e)"
      using 1(2) False by (auto simp: headers_loop.simps [of _ _ _ _ d] split: option.splits)
    obtain cd2 b where b: "ChainDB_batch A cd = (cd2, b)" by (cases "ChainDB_batch A cd")
    show ?thesis
      using 1(2) False L b 1(1) [OF False L refl refl _ b [symmetric]]
      by (auto simp: headers_loop.simps [of _ _ _ _ d] split: loop_exit.splits outcome.splits)
  qed
qed

lemma get_headers_one_each:
  assumes "one_each (hd_timeout d)" "unat now + 60 < 2 ^ 64" "HeaderDownload_get_headers checks now d pid = (d', r)"
  shows "one_each (hd_timeout d')"
  using assms expect_one_each [OF assms(1,2), of pid ExpectHeaders checks]
    busy_with_owed [of "hd_timeout d" pid ExpectHeaders]
  by (auto simp: HeaderDownload_get_headers_def Let_def one_each_def split: if_splits outcome.splits)

lemma headers_one_each:
  assumes "one_each (hd_timeout d)" "unat now + 60 < 2 ^ 64"
    "HeaderDownload_headers checks now A X D d hs pid = Some (d', r)"
  shows "one_each (hd_timeout d')"
proof -
  obtain t where t: "Timeout_received checks now (hd_timeout d) pid 1 ExpectHeaders = Ok t"
    using replies.received_law [of "hd_timeout d" now checks pid ExpectHeaders] assms(1,2) by (auto simp: one_each_def)
  have t1: "one_each t" by (rule received_one_each [OF assms(1,2) t])
  have L: "one_each (hd_timeout d2)" if "headers_loop A X D pid (d\<lparr>hd_timeout := t\<rparr>) p hs = Some (d2, p2, r2)" for p d2 p2 r2
    using headers_loop_table [OF that] t1 by simp
  have G: "one_each (hd_timeout d3)"
    if "headers_loop A X D pid (d\<lparr>hd_timeout := t\<rparr>) p hs = Some (d2, p2, r2)"
      "HeaderDownload_get_headers checks now d2 pid = (d3, r3)" for p d2 p2 r2 d3 r3
    by (rule get_headers_one_each [OF L [OF that(1)] assms(2) that(2)])
  show ?thesis
    using assms(3) t t1 L G
    by (auto simp: HeaderDownload_headers_def Let_def split: if_splits option.splits outcome.splits prod.splits)
qed

lemma message_one_each:
  assumes "one_each (hd_timeout d)" "unat now + 60 < 2 ^ 64"
    "HeaderDownload_message checks now A X D n d msg = Some (d', r)"
  shows "one_each (hd_timeout d')"
  using assms get_headers_one_each [OF assms(1,2)] headers_one_each [OF assms(1,2)]
  by (auto simp: HeaderDownload_message_def HeaderDownload_inv_def
      split: PeerMessage.splits NetworkMessage.splits if_splits)

section \<open>Interleaving\<close>

text \<open>The tables that the two threads reach, while the clock has room for a timeout.\<close>

inductive shared_table :: "bool \<Rightarrow> 'd db_api \<Rightarrow> ext \<Rightarrow> 's Downstream \<Rightarrow> ExpectedReply Timeout \<Rightarrow> bool"
  for checks A X D where
  start: "shared_table checks A X D Timeout_new"
| ping_msg: "shared_table checks A X D (ping_timeout p) \<Longrightarrow> unat now + 60 < 2 ^ 64 \<Longrightarrow>
    ping_message checks now p msg = Ok p' \<Longrightarrow> shared_table checks A X D (ping_timeout p')"
| ping_rnd: "shared_table checks A X D (ping_timeout p) \<Longrightarrow> unat now + 60 < 2 ^ 64 \<Longrightarrow> distinct (map fst (n_peers n)) \<Longrightarrow>
    ping_round checks now rnd n p = Ok p' \<Longrightarrow> shared_table checks A X D (ping_timeout p')"
| download_msg: "shared_table checks A X D (hd_timeout d) \<Longrightarrow> unat now + 60 < 2 ^ 64 \<Longrightarrow>
    HeaderDownload_message checks now A X D n d msg = Some (d', r) \<Longrightarrow> shared_table checks A X D (hd_timeout d')"
| download_tick: "shared_table checks A X D (hd_timeout (d :: ('d, 's) HeaderDownload)) \<Longrightarrow>
    shared_table checks A X D (hd_timeout (HeaderDownload_tick now d))"

lemma shared_one_each: "shared_table checks A X D t \<Longrightarrow> one_each t"
proof (induction rule: shared_table.induct)
  case start
  then show ?case by (simp add: one_each_def)
next
  case (ping_msg p now msg p')
  then show ?case using ping_message_one_each by blast
next
  case (ping_rnd p now n rnd p')
  then show ?case using ping_round_one_each by blast
next
  case (download_msg d now n msg d' r)
  then show ?case using message_one_each by blast
next
  case (download_tick d now)
  then show ?case using check_one_each [of "hd_timeout d" now "hd_p2p d" "[ExpectHeaders]"]
    by (auto simp: HeaderDownload_tick_def split: prod.splits)
qed

text \<open>
  C22. However ping and header download interleave on the table they share, a peer never owes more than one
  pong and one answer to a request for headers, and it is busy exactly while it owes something.
\<close>
theorem one_request_each:
  assumes "shared_table checks A X D t"
  shows "owed t pid ExpectPong \<le> 1 \<and> owed t pid ExpectHeaders \<le> 1 \<and>
    (Timeout_is_busy t pid \<longleftrightarrow> (\<exists>what. 0 < owed t pid what))"
  using shared_one_each [OF assms] by (simp add: one_each_def to_inv_def is_busy_deadline)

theorem one_request_each_witness:
  "\<exists>t. shared_table True mem_api sample_ext recorder t \<and> owed t (sample_pid 1) ExpectPong = 1 \<and>
     owed t (sample_pid 1) ExpectHeaders \<le> 1"
proof -
  have d: "distinct (map fst (n_peers one_peer))" by (simp add: one_peer_def)
  have i: "to_inv (ping_timeout idle_ping)" by (simp add: idle_ping_def)
  obtain p' where p': "ping_round True 1000 (\<lambda>_. 7) one_peer idle_ping = Ok p'"
    "pinged 1000 (\<lambda>_. 7) (\<lambda>pid. pid \<in> set (map fst (n_peers one_peer)) \<and> \<not> Timeout_is_busy
       (fold (\<lambda>pid t. Timeout_forget t pid) (late_peers 1000 (ping_timeout idle_ping) [ExpectPong]) (ping_timeout idle_ping)) pid)
       (idle_ping\<lparr>ping_timeout := fold (\<lambda>pid t. Timeout_forget t pid)
         (late_peers 1000 (ping_timeout idle_ping) [ExpectPong]) (ping_timeout idle_ping)\<rparr>) p'"
    using ping_round_spec [OF i _ d, of 1000 True "\<lambda>_. 7"] by auto
  have "shared_table True mem_api sample_ext recorder (ping_timeout idle_ping)"
    by (simp add: idle_ping_def shared_table.start)
  then have s: "shared_table True mem_api sample_ext recorder (ping_timeout p')"
    by (rule shared_table.ping_rnd [OF _ _ d p'(1)]) simp
  have "owed (ping_timeout p') (sample_pid 1) ExpectPong = 1"
    using p'(2) by (auto simp: pinged_def one_peer_def idle_ping_def late_peers_def Timeout_new_def
        is_busy_deadline deadline_def dest!: spec [of _ "sample_pid 1"])
  then show ?thesis using s one_request_each [OF s, of "sample_pid 1"] by blast
qed

end
