(* ===== verification/P2P_Correct.thy ===== *)
theory P2P_Correct
  imports P2P_Node
begin

text \<open>
  Correctness of the network layer (\<open>src/src/p2p.rs\<close>): the invariant of its peers and of what the
  dispatcher was told, which every operation keeps; what an event changes; and the reachable states.
\<close>

section \<open>Traces of the dispatcher\<close>

text \<open>The peers a trace reports as gone, and those it reports something else of.\<close>

definition gone :: "'m PeerMessage list \<Rightarrow> PeerId set" where
  "gone xs = {pid. \<exists>b. Disconnected pid b \<in> set xs}"

definition active :: "'m PeerMessage list \<Rightarrow> PeerId set" where
  "active xs = {pid. (\<exists>m. Incoming pid m \<in> set xs) \<or> (\<exists>a. Connected pid a \<in> set xs)}"

text \<open>Once a peer is reported gone, nothing else is reported of it.\<close>

fun quiet :: "'m PeerMessage list \<Rightarrow> bool" where
  "quiet [] = True"
| "quiet (x # xs) = (quiet xs \<and> gone [x] \<inter> active xs = {})"

lemma gone_simps [simp]:
  "gone [] = {}" "gone (xs @ ys) = gone xs \<union> gone ys"
  "gone [Incoming p m] = {}" "gone [Connected p a] = {}" "gone [Disconnected p b] = {p}"
  by (auto simp: gone_def)

lemma active_simps [simp]:
  "active [] = {}" "active (xs @ ys) = active xs \<union> active ys"
  "active [Incoming p m] = {p}" "active [Connected p a] = {p}" "active [Disconnected p b] = {}"
  by (auto simp: active_def)

lemma quiet_append: "quiet (xs @ ys) \<longleftrightarrow> quiet xs \<and> quiet ys \<and> gone xs \<inter> active ys = {}"
  by (induction xs) (auto simp: gone_def active_def)

lemma incoming_trace:
  "quiet (map (Incoming pid) ms)" "gone (map (Incoming pid) ms) = {}" "active (map (Incoming pid) ms) \<subseteq> {pid}"
proof -
  show "quiet (map (Incoming pid) ms)" by (induction ms) auto
qed (auto simp: gone_def active_def)

section \<open>The invariant\<close>

text \<open>
  One entry per id, ids below the next one, every peer valid; and what was reported gone is gone
  for good.
\<close>

definition node_inv :: "u64 \<Rightarrow> P2P \<Rightarrow> bool" where
  "node_inv needed n \<longleftrightarrow>
     distinct (map fst (n_peers n)) \<and>
     (\<forall>pid p. peer n pid = Some p \<longrightarrow>
        p_pid p = pid \<and> peer_ok (n_config n) needed p \<and> pid_token pid < n_next_peer_id n) \<and>
     quiet (n_dispatched n) \<and>
     (\<forall>pid\<in>gone (n_dispatched n). peer n pid = None \<and> pid_token pid < n_next_peer_id n)"

lemma peer_set_peer [simp]: "peer (set_peer n pid p) = (peer n)(pid \<mapsto> p)"
  by (simp add: set_peer_def update_conv' fun_upd_def)

lemma set_peer_simps [simp]:
  "n_config (set_peer n pid p) = n_config n" "n_next_peer_id (set_peer n pid p) = n_next_peer_id n"
  "n_dispatched (set_peer n pid p) = n_dispatched n" "n_waker (set_peer n pid p) = n_waker n"
  by (simp_all add: set_peer_def)

lemma distinct_set_peer [simp]:
  "distinct (map fst (n_peers n)) \<Longrightarrow> distinct (map fst (n_peers (set_peer n pid p)))"
  by (simp add: set_peer_def distinct_update)

lemma disconnect_simps [simp]:
  "n_config (P2P_disconnect n pid b) = n_config n" "n_next_peer_id (P2P_disconnect n pid b) = n_next_peer_id n"
  "n_dispatched (P2P_disconnect n pid b) = n_dispatched n @ [Disconnected pid b]"
  "peer (P2P_disconnect n pid b) = (peer n)(pid := None)"
  "distinct (map fst (n_peers n)) \<Longrightarrow> distinct (map fst (n_peers (P2P_disconnect n pid b)))"
  by (auto simp: P2P_disconnect_def wake_def remove_peer_def dispatch_def delete_conv' distinct_delete fun_upd_idem)

lemma wake_simps [simp]:
  "n_config (wake n pid) = n_config n" "n_next_peer_id (wake n pid) = n_next_peer_id n"
  "n_dispatched (wake n pid) = n_dispatched n" "n_peers (wake n pid) = n_peers n"
  by (simp_all add: wake_def)

lemma connected_simps [simp]:
  "n_config (P2P_connected n pid a) = n_config n" "n_next_peer_id (P2P_connected n pid a) = n_next_peer_id n"
  "n_dispatched (P2P_connected n pid a) = n_dispatched n @ [Connected pid a]" "n_peers (P2P_connected n pid a) = n_peers n"
  by (simp_all add: P2P_connected_def dispatch_def)

lemma remove_peer_simps [simp]:
  "n_config (remove_peer n pid) = n_config n" "n_next_peer_id (remove_peer n pid) = n_next_peer_id n"
  "n_dispatched (remove_peer n pid) = n_dispatched n" "peer (remove_peer n pid) = (peer n)(pid := None)"
  "distinct (map fst (n_peers n)) \<Longrightarrow> distinct (map fst (n_peers (remove_peer n pid)))"
  by (auto simp: remove_peer_def delete_conv' distinct_delete fun_upd_idem)

lemma deliver_simps [simp]:
  "n_config (deliver n pid ms) = n_config n" "n_next_peer_id (deliver n pid ms) = n_next_peer_id n"
  "n_dispatched (deliver n pid ms) = n_dispatched n @ map (\<lambda>m. Incoming pid (raw_payload m)) ms"
  "n_peers (deliver n pid ms) = n_peers n"
  by (induction ms arbitrary: n) (auto simp: BitcoinP2PConfig_unwrap_def dispatch_def)

lemma node_invD:
  assumes "node_inv needed n" "peer n pid = Some p"
  shows "p_pid p = pid" "peer_ok (n_config n) needed p" "pid_token pid < n_next_peer_id n"
    "pid \<notin> gone (n_dispatched n)"
  using assms unfolding node_inv_def by force+

lemma peer_ok_config:
  "cfg_nonce cfg' = cfg_nonce cfg \<Longrightarrow> cfg_max_protocol_version cfg' = cfg_max_protocol_version cfg \<Longrightarrow>
   peer_ok cfg' needed p = peer_ok cfg needed p"
  by (simp add: peer_ok_def version_ok_def)

text \<open>Replacing a peer by a valid one with the same id.\<close>

lemma node_inv_set_peer:
  assumes "node_inv needed n" "peer n pid = Some p" "p_pid q = pid" "peer_ok (n_config n) needed q"
  shows "node_inv needed (set_peer n pid q)"
  using assms node_invD [OF assms(1,2)] unfolding node_inv_def by auto

lemma node_inv_disconnect:
  assumes "node_inv needed n" "pid_token pid < n_next_peer_id n"
  shows "node_inv needed (P2P_disconnect n pid b)"
  using assms unfolding node_inv_def by (auto simp: quiet_append)

lemma node_inv_report:
  assumes "node_inv needed n" "peer n pid \<noteq> None" "n_config n' = n_config n" "n_peers n' = n_peers n"
    "n_next_peer_id n' = n_next_peer_id n" "n_dispatched n' = n_dispatched n @ ds" "gone ds = {}" "active ds \<subseteq> {pid}"
    "quiet ds"
  shows "node_inv needed n'"
proof -
  have "pid \<notin> gone (n_dispatched n)" using assms(1,2) node_invD(4) by blast
  then show ?thesis using assms unfolding node_inv_def by (auto simp: quiet_append)
qed

section \<open>Events\<close>

lemma peer_ok_output:
  "same_but_output p q \<Longrightarrow> buf_inv (p_write_buffer q) \<Longrightarrow> peer_ok cfg needed p \<Longrightarrow> peer_ok cfg needed q"
  by (simp add: peer_ok_def frame)

lemma on_writable_spec:
  assumes inv: "node_inv needed n" and run: "on_writable E C n pid ev = Some (n', r)"
  shows "node_inv needed n' \<and> n_dispatched n' = n_dispatched n \<and> n_config n' = n_config n \<and>
    n_next_peer_id n' = n_next_peer_id n \<and>
    (\<forall>q. map_option p_connected (peer n' q) = map_option p_connected (peer n q))"
proof (cases "peer n pid")
  case None
  then show ?thesis using run inv by (simp add: on_writable_def)
next
  case (Some p)
  then obtain p' sent where w: "write_loop (n_config n) (c_ser C) E (c_iobuf C) p (ev_attempts ev) [] = Some (p', sent, r)"
    and n': "n' = (set_peer n pid p')\<lparr>n_sent := n_sent n @ [(pid, sent)]\<rparr>"
    using run by (auto simp: on_writable_def split: option.splits prod.splits)
  note P = node_invD [OF inv Some]
  have "buf_inv (p_write_buffer p)" using P(2) by (simp add: peer_ok_def)
  note W = write_loop_conserves [OF w this]
  then have ok: "p_pid p' = pid" "peer_ok (n_config n) needed p'" "p_connected p' = p_connected p"
    using P peer_ok_output by (auto simp: frame)
  have "node_inv needed (set_peer n pid p')" by (rule node_inv_set_peer [OF inv Some ok(1,2)])
  then show ?thesis using ok(3) Some by (auto simp: n' node_inv_def)
qed

lemma on_readable_spec:
  assumes "peer_ok cfg needed p" "on_readable cfg dec E needed p data = Some (s, r)"
  shows "peer_ok cfg needed (r_peer s) \<and> p_pid (r_peer s) = p_pid p \<and>
    (p_connected p \<longrightarrow> p_connected (r_peer s)) \<and> (r_incoming s = [] \<or> p_connected (r_peer s)) \<and>
    (r_handshake s \<longleftrightarrow> \<not> p_connected p \<and> p_connected (r_peer s))"
proof (cases data)
  case (Ok bytes)
  let ?s = "\<lparr>r_peer = p\<lparr>p_read_buffer := Buffer_write_all (p_read_buffer p) bytes\<rparr>, r_incoming = [],
    r_disconnect = (length bytes = 0), r_ban = False, r_handshake = False, r_address = None\<rparr>"
  have run: "receive_loop cfg dec E needed ?s = Some (s, r)"
    using assms(2) Ok by (simp add: on_readable_def)
  have "buf_inv (Buffer_write_all (p_read_buffer p) bytes)"
    using net.write_law [of "p_read_buffer p" bytes] assms(1) by (simp add: peer_ok_def)
  then have "peer_ok cfg needed (r_peer ?s)" using assms(1) peer_ok_buffer by simp
  from receive_loop_spec [OF run this] show ?thesis by auto
qed (use assms in \<open>auto simp: on_readable_def\<close>)

text \<open>What an event of a peer tells the dispatcher.\<close>

definition report_ok :: "P2P \<Rightarrow> PeerId \<Rightarrow> P2P \<Rightarrow> NetworkMessage PeerMessage list \<Rightarrow> bool" where
  "report_ok n pid n' ds \<longleftrightarrow>
     ds = [] \<or>
     (\<exists>b. ds = [Disconnected pid b] \<and> peer n' pid = None) \<or>
     (\<exists>p'. peer n' pid = Some p' \<and> p_connected p' \<and>
        (\<exists>ms. ds = map (Incoming pid) ms \<and> map_option p_connected (peer n pid) = Some True \<or>
              (\<exists>a. ds = Connected pid a # map (Incoming pid) ms) \<and> map_option p_connected (peer n pid) = Some False))"

lemma after_read_spec:
  assumes inv: "node_inv needed n" and p: "peer n pid = Some p" "p_connected p \<longrightarrow> p_connected (r_peer s)"
    and s: "peer_ok (n_config n) needed (r_peer s)" "p_pid (r_peer s) = pid"
      "r_incoming s = [] \<or> p_connected (r_peer s)" "r_handshake s \<longleftrightarrow> \<not> p_connected p \<and> p_connected (r_peer s)"
  defines "n' \<equiv> after_read (set_peer n pid (r_peer s)) pid s"
  shows "node_inv needed n' \<and> n_config n' = n_config n \<and> n_next_peer_id n' = n_next_peer_id n \<and>
    (\<exists>ds. n_dispatched n' = n_dispatched n @ ds \<and> report_ok n pid n' ds)"
proof -
  let ?n = "set_peer n pid (r_peer s)"
  have i1: "node_inv needed ?n" by (rule node_inv_set_peer [OF inv p(1) s(2,1)])
  show ?thesis
  proof (cases "r_disconnect s")
    case True
    then show ?thesis
      using node_inv_disconnect [OF i1] node_invD(3) [OF inv p(1)]
      by (auto simp: n'_def after_read_def report_ok_def)
  next
    case False
    define ds where "ds = (if r_handshake s then [Connected pid (r_address s)] else []) @
      map (Incoming pid) (map raw_payload (r_incoming s))"
    have n': "n_dispatched n' = n_dispatched n @ ds" "n_peers n' = n_peers ?n" "n_config n' = n_config n"
      "n_next_peer_id n' = n_next_peer_id n"
      using False by (simp_all add: n'_def after_read_def Let_def ds_def)
    note q = incoming_trace [of pid "map raw_payload (r_incoming s)"]
    have "node_inv needed n'"
      by (rule node_inv_report [OF i1, of pid _ ds])
        (use n' q in \<open>auto simp: ds_def quiet_append\<close>)
    moreover have "report_ok n pid n' ds"
    proof (cases "p_connected (r_peer s)")
      case True
      define ms where "ms = map raw_payload (r_incoming s)"
      have "peer n' pid = Some (r_peer s)" unfolding n'(2) by simp
      moreover have "p_connected p \<Longrightarrow> ds = map (Incoming pid) ms"
        "\<not> p_connected p \<Longrightarrow> ds = Connected pid (r_address s) # map (Incoming pid) ms"
        using s(4) True by (simp_all add: ds_def ms_def)
      ultimately show ?thesis using p(1) True unfolding report_ok_def by (cases "p_connected p") auto
    next
      case False
      then show ?thesis using s(3,4) by (simp add: report_ok_def ds_def)
    qed
    ultimately show ?thesis using n' by blast
  qed
qed

lemma P2P_readable_spec:
  assumes inv: "node_inv needed n" and run: "P2P_readable E C n pid needed ev = Some (n', r)"
  shows "node_inv needed n' \<and> n_config n' = n_config n \<and> n_next_peer_id n' = n_next_peer_id n \<and>
    (\<exists>ds. n_dispatched n' = n_dispatched n @ ds \<and> report_ok n pid n' ds)"
proof (cases "peer n pid")
  case None
  then show ?thesis using run inv by (simp add: P2P_readable_def report_ok_def)
next
  case (Some p)
  then obtain s q where q: "on_readable (n_config n) (c_dec C) E needed p (ev_data ev) = Some (s, q)"
    and n': "(n', r) = (case q of Ok _ \<Rightarrow> (after_read (set_peer n pid (r_peer s)) pid s, Ok ())
       | _ \<Rightarrow> (set_peer n pid (r_peer s), q))"
    using run by (auto simp: P2P_readable_def Let_def split: option.splits prod.splits)
  note P = node_invD [OF inv Some]
  note S = on_readable_spec [OF P(2) q]
  show ?thesis
  proof (cases "q = Ok ()")
    case True
    then show ?thesis using n' after_read_spec [OF inv Some] S P(1) by auto
  next
    case False
    then have "n' = set_peer n pid (r_peer s)" using n' by (cases q) auto
    then show ?thesis
      using node_inv_set_peer [OF inv Some, of "r_peer s"] S P(1) by (auto simp: report_ok_def)
  qed
qed

lemma event_processor_spec:
  assumes inv: "node_inv needed n" "pid_token pid < n_next_peer_id n"
    and run: "P2P_event_processor E C n ev pid needed = Some (n', r)"
  shows "node_inv needed n' \<and> n_config n' = n_config n \<and> n_next_peer_id n' = n_next_peer_id n \<and>
    (\<exists>ds. n_dispatched n' = n_dispatched n @ ds \<and> report_ok n pid n' ds)"
proof (cases "ev_hup ev")
  case True
  then have "n' = P2P_disconnect n pid False" using run by (simp add: P2P_event_processor_def)
  then show ?thesis using node_inv_disconnect [OF inv] by (auto simp: report_ok_def)
next
  case False
  obtain n1 r1 where w: "(if ev_writable ev then on_writable E C n pid ev else Some (n, Ok ())) = Some (n1, r1)"
    and rest: "(n1, r1) = (n', r) \<or> P2P_readable E C n1 pid needed ev = Some (n', r)"
    using run False by (auto simp: P2P_event_processor_def split: option.splits outcome.splits if_splits)
  have i1: "node_inv needed n1" "n_dispatched n1 = n_dispatched n" "n_config n1 = n_config n"
    "n_next_peer_id n1 = n_next_peer_id n" "\<forall>q. map_option p_connected (peer n1 q) = map_option p_connected (peer n q)"
    using w on_writable_spec [OF inv(1)] inv(1) by (auto split: if_splits)
  from rest show ?thesis
  proof
    assume "(n1, r1) = (n', r)"
    then show ?thesis using i1 by (auto simp: report_ok_def)
  next
    assume "P2P_readable E C n1 pid needed ev = Some (n', r)"
    from P2P_readable_spec [OF i1(1) this] show ?thesis using i1 unfolding report_ok_def by auto
  qed
qed

section \<open>The other operations\<close>

lemma ban_spec:
  assumes "node_inv needed n" "P2P_ban checks n pid inc = (n', r)"
  shows "node_inv needed n' \<and> n_config n' = n_config n \<and> n_next_peer_id n' = n_next_peer_id n"
proof (cases "peer n pid")
  case None
  then show ?thesis using assms by (simp add: P2P_ban_def)
next
  case (Some p)
  note P = node_invD [OF assms(1) Some]
  have ok: "peer_ok (n_config n) needed (p\<lparr>p_ban := b\<rparr>)" for b using P(2) by (simp add: peer_ok_def)
  have i: "node_inv needed (set_peer n pid (p\<lparr>p_ban := b\<rparr>))" for b
    using P(1) by (intro node_inv_set_peer [OF assms(1) Some _ ok]) simp
  show ?thesis
    using assms Some node_inv_disconnect [OF i] P(3) i
    by (auto simp: P2P_ban_def Let_def split: outcome.splits if_splits)
qed

lemma node_inv_next:
  assumes "node_inv needed n" "n_next_peer_id n \<le> k"
  shows "node_inv needed (n\<lparr>n_next_peer_id := k, n_listener := l\<rparr>)" "node_inv needed (n\<lparr>n_next_peer_id := k\<rparr>)"
  using assms unfolding node_inv_def by force+

lemma add_listener_spec:
  "node_inv needed n \<Longrightarrow> node_inv needed (fst (P2P_add_listener E n bind)) \<and>
    n_config (fst (P2P_add_listener E n bind)) = n_config n"
  using node_inv_next [of needed n "Suc (n_next_peer_id n)"]
  by (auto simp: P2P_add_listener_def Let_def split: outcome.splits)

lemma send_all_spec:
  "map fst (fst (send_all E m ps)) = map fst ps \<and>
   (\<forall>pid p'. map_of (fst (send_all E m ps)) pid = Some p' \<longrightarrow> (\<exists>p. map_of ps pid = Some p \<and> same_but_queue p p'))"
proof (induction ps)
  case (Cons x ps)
  obtain pid p where x: "x = (pid, p)" by (cases x)
  obtain q r where q: "Peer_send E p m = (q, r)" by (cases "Peer_send E p m")
  then have "same_but_queue p q" using Peer_send_spec by blast
  then show ?case using Cons q x by (auto split: outcome.splits prod.splits)
qed simp

lemma control_step_spec:
  assumes "node_inv needed n" "control_step checks E n c = (n', r)"
  shows "node_inv needed n' \<and> cfg_nonce (n_config n') = cfg_nonce (n_config n) \<and>
    cfg_max_protocol_version (n_config n') = cfg_max_protocol_version (n_config n)"
proof (cases c)
  case (Send pid m)
  show ?thesis
  proof (cases "peer n pid")
    case None
    then show ?thesis using assms Send by (simp add: control_step_def)
  next
    case (Some p)
    obtain q r' where q: "Peer_send E p m = (q, r')" by (cases "Peer_send E p m")
    then have sq: "same_but_queue p q" using Peer_send_spec by blast
    have "n' = set_peer n pid q" using assms(2) Send Some q by (auto simp: control_step_def split: outcome.splits)
    then show ?thesis
      using node_inv_set_peer [OF assms(1) Some] node_invD [OF assms(1) Some] sq peer_ok_same by (auto simp: frame)
  qed
next
  case (Broadcast m)
  obtain ps r' where ps: "send_all E m (n_peers n) = (ps, r')" by (cases "send_all E m (n_peers n)")
  then have n': "n' = n\<lparr>n_peers := ps\<rparr>" using assms(2) Broadcast by (simp add: control_step_def)
  have "\<exists>p. map_of (n_peers n) pid = Some p \<and> same_but_queue p p'" if "map_of ps pid = Some p'" for pid p'
    using send_all_spec [of E m "n_peers n"] ps that by simp
  moreover have "map fst ps = map fst (n_peers n)" using send_all_spec [of E m "n_peers n"] ps by simp
  moreover have "map_of ps pid = None" if "map_of (n_peers n) pid = None" for pid
    using that calculation(2) by (metis list.set_map map_of_eq_None_iff)
  ultimately show ?thesis
    using assms(1) peer_ok_same unfolding n' node_inv_def by (auto simp: frame) (metis same_but_queueD(1))+
next
  case (Ban pid k)
  then show ?thesis using assms ban_spec [OF assms(1)] by (auto simp: control_step_def)
next
  case (Height h)
  then show ?thesis using assms by (auto simp: control_step_def node_inv_def BitcoinP2PConfig_set_height_def peer_ok_def version_ok_def)
next
  case (Bind a)
  then show ?thesis using assms add_listener_spec [OF assms(1)] by (auto simp: control_step_def)
qed

lemma Peer_new_ok: "peer_ok cfg needed (Peer_new pid out)"
  by (simp add: peer_ok_def Peer_new_def buf_inv_new)

lemma install_peer_spec:
  assumes "install_peer E n v pid out addr = (n', r)"
  shows "\<exists>q. n' = set_peer n pid q \<and> p_pid q = pid \<and> peer_ok cfg needed q \<and> \<not> p_connected q"
proof -
  obtain q r' where q: "(if out then Peer_register_write E (Peer_new pid out) else Peer_register_read E (Peer_new pid out)) = (q, r')"
    by (cases "if out then Peer_register_write E (Peer_new pid out) else Peer_register_read E (Peer_new pid out)")
  then have sq: "same_but_queue (Peer_new pid out) q"
    by (auto simp: Peer_register_write_def Peer_register_read_def same_but_queue_def split: if_splits outcome.splits)
  obtain t r'' where t: "Peer_send E q v = (t, r'')" by (cases "Peer_send E q v")
  then have "same_but_queue (Peer_new pid out) t" using Peer_send_spec sq same_but_queue_trans by blast
  moreover have "n' = set_peer n pid q \<or> n' = set_peer n pid t"
    using assms q t by (auto simp: install_peer_def Let_def split: outcome.splits if_splits)
  moreover have "p_pid (Peer_new pid out) = pid" "\<not> p_connected (Peer_new pid out)" by (simp_all add: Peer_new_def)
  ultimately show ?thesis using sq peer_ok_same Peer_new_ok by (metis same_but_queueD(1,6))
qed

lemma add_peer_spec:
  assumes inv: "node_inv needed n" and run: "P2P_add_peer E n network source = (n', pid, r)"
  shows "node_inv needed n' \<and> n_dispatched n' = n_dispatched n \<and> n_config n' = n_config n \<and>
    pid = \<lparr>pid_network = network, pid_token = n_next_peer_id n\<rparr> \<and> n_next_peer_id n' = Suc (n_next_peer_id n)"
proof -
  define n1 where "n1 = n\<lparr>n_next_peer_id := n_next_peer_id n + 1\<rparr>"
  define pid1 where "pid1 = \<lparr>pid_network = network, pid_token = n_next_peer_id n\<rparr>"
  have i1: "node_inv needed n1" using node_inv_next(2) [OF inv, of "n_next_peer_id n + 1"] by (simp add: n1_def)
  obtain v n2 r2 where c: "P2P_connect E n1 v pid1 source = (n2, r2)"
    and res: "(n', pid, r) = (case r2 of Err e \<Rightarrow> (remove_peer n2 pid1, pid1, Err e) | _ \<Rightarrow> (n2, pid1, r2))"
    using run by (auto simp: P2P_add_peer_def Let_def n1_def pid1_def split: prod.splits outcome.splits)
  have tok: "pid_token pid1 = n_next_peer_id n" by (simp add: pid1_def)
  have fresh: "peer n pid1 = None" "pid1 \<notin> gone (n_dispatched n)" "pid_token pid1 < n_next_peer_id n1"
    using inv tok unfolding node_inv_def n1_def by (metis less_irrefl not_None_eq, metis less_irrefl, simp)
  have "node_inv needed n2 \<and> n_dispatched n2 = n_dispatched n \<and> n_config n2 = n_config n \<and>
      n_next_peer_id n2 = Suc (n_next_peer_id n)"
  proof (cases "\<exists>out addr. install_peer E n1 v pid1 out addr = (n2, r2)")
    case True
    then obtain q where q: "n2 = set_peer n1 pid1 q" "p_pid q = pid1" "peer_ok (n_config n) needed q"
      using install_peer_spec by blast
    then show ?thesis using i1 fresh unfolding node_inv_def by (auto simp: n1_def)
  next
    case False
    then have "n2 = n1 \<or> (\<exists>l. n2 = n1\<lparr>n_closed := l\<rparr>)"
      using c by (auto simp: P2P_connect_def split: PeerSource.splits outcome.splits if_splits)
    then show ?thesis using i1 by (auto simp: n1_def node_inv_def)
  qed
  moreover have "node_inv needed (remove_peer n2 pid1)" if "node_inv needed n2"
    using that unfolding node_inv_def by auto
  ultimately show ?thesis using res by (auto simp: pid1_def split: outcome.splits)
qed

lemma poll_event_spec:
  assumes inv: "node_inv needed n" "token < n_next_peer_id n"
    and run: "poll_event checks E C n network needed token ev = Some (n', r)"
  shows "node_inv needed n' \<and> n_config n' = n_config n"
proof (cases "P2P_is_listener n token")
  case (Some a)
  obtain n1 pid q where a: "P2P_add_peer E n network (IncomingFrom token) = (n1, pid, q)"
    by (cases "P2P_add_peer E n network (IncomingFrom token)") auto
  then show ?thesis using run Some add_peer_spec [OF inv(1) a] by (simp add: poll_event_def)
next
  case None
  define pid where "pid = \<lparr>pid_network = network, pid_token = token\<rparr>"
  obtain n1 r1 where e: "P2P_event_processor E C n ev pid needed = Some (n1, r1)"
    and res: "(n', r) = (case r1 of Err _ \<Rightarrow> P2P_ban checks n1 pid 10 | _ \<Rightarrow> (n1, r1))"
    using run None by (auto simp: poll_event_def pid_def Let_def split: option.splits prod.splits outcome.splits)
  have "pid_token pid < n_next_peer_id n" using inv(2) by (simp add: pid_def)
  note S = event_processor_spec [OF inv(1) this e]
  then have i: "node_inv needed n1" by blast
  show ?thesis
  proof (cases r1)
    case (Err x)
    then have "P2P_ban checks n1 pid 10 = (n', r)" using res by simp
    from ban_spec [OF i this] show ?thesis using S by simp
  qed (use res S in auto)
qed

section \<open>Runs of the network layer\<close>

text \<open>
  The states the layer reaches: any sequence of control messages, connection attempts, polls of
  the tasks that wait for peers, timeouts and network events. An event carries the token of a socket
  that was registered, so the token has been given out.
\<close>

inductive reachable_node :: "bool \<Rightarrow> codec \<Rightarrow> string \<Rightarrow> u64 \<Rightarrow> BitcoinP2PConfig \<Rightarrow> P2P \<Rightarrow> bool"
  for checks C network needed cfg where
  start: "reachable_node checks C network needed cfg (P2P_new cfg)"
| control: "reachable_node checks C network needed cfg n \<Longrightarrow> control_step checks E n c = (n', r) \<Longrightarrow>
    reachable_node checks C network needed cfg n'"
| add: "reachable_node checks C network needed cfg n \<Longrightarrow> P2P_add_peer E n network source = (n', pid, r') \<Longrightarrow>
    reachable_node checks C network needed cfg n'"
| handshake_poll: "reachable_node checks C network needed cfg n \<Longrightarrow> poll_handshake n pid addr = (n', r'') \<Longrightarrow>
    reachable_node checks C network needed cfg n'"
| finished_poll: "reachable_node checks C network needed cfg n \<Longrightarrow> poll_finished n pid addr = (n', r'') \<Longrightarrow>
    reachable_node checks C network needed cfg n'"
| timed_out: "reachable_node checks C network needed cfg n \<Longrightarrow>
    reachable_node checks C network needed cfg (handshake_timeout n pid)"
| event: "reachable_node checks C network needed cfg n \<Longrightarrow> token < n_next_peer_id n \<Longrightarrow>
    poll_event checks E C n network needed token ev = Some (n', r) \<Longrightarrow>
    reachable_node checks C network needed cfg n'"

lemma node_inv_waker: "node_inv needed n \<Longrightarrow> node_inv needed (n\<lparr>n_waker := w\<rparr>)"
  by (simp add: node_inv_def)

lemma reachable_node_inv:
  assumes "reachable_node checks C network needed cfg n"
  shows "node_inv needed n \<and> cfg_nonce (n_config n) = cfg_nonce cfg \<and>
    cfg_max_protocol_version (n_config n) = cfg_max_protocol_version cfg"
  using assms
proof induction
  case start
  then show ?case by (simp add: node_inv_def P2P_new_def)
next
  case (control n E c n' r)
  then show ?case using control_step_spec [of needed n checks E c n' r] by auto
next
  case (add n E source n' pid r')
  then show ?case using add_peer_spec [of needed n E network source n' pid r'] by auto
next
  case (handshake_poll n pid addr n' r'')
  then show ?case using node_inv_waker by (auto simp: poll_handshake_def split: option.splits if_splits)
next
  case (finished_poll n pid addr n' r'')
  then show ?case using node_inv_waker by (auto simp: poll_finished_def split: if_splits)
next
  case (timed_out n pid)
  then show ?case unfolding handshake_timeout_def node_inv_def by auto
next
  case (event n token E ev n' r)
  then show ?case using poll_event_spec [of needed n token checks E C network ev n' r] by auto
qed

text \<open>
  What the poll of the operating system promises: an event carries a token that was registered before.
\<close>

fun registered :: "bool \<Rightarrow> codec \<Rightarrow> P2P \<Rightarrow> string \<Rightarrow> u64 \<Rightarrow> (os \<times> nat \<times> event) list \<Rightarrow> bool" where
  "registered checks C n network needed [] = True"
| "registered checks C n network needed ((E, token, ev) # events) =
     (token < n_next_peer_id n \<and>
      (case poll_event checks E C n network needed token ev of
         Some (n, Ok _) \<Rightarrow> registered checks C n network needed events
       | _ \<Rightarrow> True))"

lemma poll_events_reachable:
  assumes "reachable_node checks C network needed cfg n" "registered checks C n network needed events"
    "P2P_poll_events checks C n network needed events = Some (n', r)"
  shows "reachable_node checks C network needed cfg n'"
  using assms
proof (induction events arbitrary: n)
  case (Cons e events)
  obtain E token ev where e: "e = (E, token, ev)" by (cases e)
  obtain n1 r1 where 1: "poll_event checks E C n network needed token ev = Some (n1, r1)"
    using Cons.prems(3) by (auto simp: e split: option.splits)
  have "reachable_node checks C network needed cfg n1"
    using reachable_node.event [OF Cons.prems(1) _ 1] Cons.prems(2) by (simp add: e)
  then show ?case
    using Cons.prems Cons.IH [of n1] 1 by (cases r1) (auto simp: e)
qed simp

text \<open>The tasks only use operations of the layer.\<close>

lemma poll_task_reachable:
  assumes "reachable_node checks C network needed cfg (fst s)"
  shows "reachable_node checks C network needed cfg (fst (poll_task pid s))"
    "reachable_node checks C network needed cfg (fst (expire_task pid s))"
proof -
  have w: "reachable_node checks C network needed cfg (fst (poll_waiting pid addr (n, ts)))"
    if "reachable_node checks C network needed cfg n" for addr n ts
    using reachable_node.finished_poll [OF that, of pid addr]
    by (cases "poll_finished n pid addr") (auto simp: poll_waiting_def split: Async.splits)
  have f: "reachable_node checks C network needed cfg (fst (task_failed pid (n, ts)))"
    if "reachable_node checks C network needed cfg n" for n ts
    using reachable_node.timed_out [OF that] by (simp add: task_failed_def)
  have h: "reachable_node checks C network needed cfg (fst (poll_handshake (fst s) pid addr))" for addr
    using reachable_node.handshake_poll [OF assms, of pid addr] by (cases "poll_handshake (fst s) pid addr") auto
  show 1: "reachable_node checks C network needed cfg (fst (poll_task pid s))"
    using assms h w f w [of "fst s" _ "snd s"]
    by (auto simp: poll_task_def split: option.splits task.splits prod.splits Async.splits outcome.splits)
      (metis fst_conv)+
  show "reachable_node checks C network needed cfg (fst (expire_task pid s))"
    using assms 1 h f by (auto simp: expire_task_def split: option.splits task.splits prod.splits Async.splits) (metis fst_conv)
qed

lemma spawn_peer_reachable:
  assumes "reachable_node checks C network needed cfg (fst s)"
  shows "reachable_node checks C network needed cfg (fst (spawn_peer E network source s))"
proof -
  obtain n pid r where a: "P2P_add_peer E (fst s) network source = (n, pid, r)" by (rule prod_cases3)
  have "reachable_node checks C network needed cfg n" by (rule reachable_node.add [OF assms a])
  then show ?thesis using a poll_task_reachable(1) by (auto simp: spawn_peer_def split: outcome.splits)
qed

end
