(* ===== verification/P2P_Properties.thy ===== *)
theory P2P_Properties
  imports P2P_Correct P2P_Samples
begin

text \<open>
  The properties of the network layer (\<open>src/src/p2p.rs\<close>): its streams, its peers, the handshake,
  what the dispatcher is told, the ban score, and the ways in which the layer loses track.
\<close>

section \<open>A handshake that succeeds\<close>

definition grants :: "os \<Rightarrow> bool" where
  "grants E \<longleftrightarrow> (\<forall>pid. os_reregister E pid = Ok () \<and> (\<exists>a. os_peer_addr E pid = Ok a))"

text \<open>A version message this node accepts from a peer it called or was called by.\<close>

definition acceptable :: "BitcoinP2PConfig \<Rightarrow> u64 \<Rightarrow> bool \<Rightarrow> VersionCarrier \<Rightarrow> bool" where
  "acceptable cfg needed outgoing v \<longleftrightarrow>
     vc_nonce v \<noteq> BitcoinP2PConfig_nonce cfg \<and> BitcoinP2PConfig_min_protocol_version cfg \<le> vc_version v \<and>
     needed AND vc_services v = needed \<and> (outgoing \<longrightarrow> BitcoinP2PConfig_get_height cfg \<le> vc_start_height v)"

text \<open>The version as it is remembered: reduced to this node's.\<close>

definition reduced :: "BitcoinP2PConfig \<Rightarrow> VersionCarrier \<Rightarrow> VersionCarrier" where
  "reduced cfg v = v\<lparr>vc_version := min (vc_version v) (cfg_max_protocol_version cfg)\<rparr>"

lemma send_granted: "grants E \<Longrightarrow> \<exists>q. Peer_send E p m = (q, Ok ())"
  by (simp add: grants_def Peer_send_def Peer_reregister_write_def)

lemma accept_granted:
  assumes "grants E" "acceptable cfg needed (p_outgoing (r_peer s)) v"
  shows "\<exists>s'. accept_version cfg E v s = (s', Ok True)"
proof -
  obtain a where a: "os_peer_addr E (p_pid (r_peer s)) = Ok a" using assms(1) by (auto simp: grants_def)
  obtain q where q: "Peer_send E (r_peer s) (BitcoinP2PConfig_version cfg (os_now E) a (vc_version v)) = (q, Ok ())"
    using send_granted [OF assms(1)] by blast
  obtain q1 where q1: "Peer_send E q (BitcoinP2PConfig_verack cfg) = (q1, Ok ())" using send_granted [OF assms(1)] by blast
  obtain q2 where q2: "Peer_send E (r_peer s) (BitcoinP2PConfig_verack cfg) = (q2, Ok ())"
    using send_granted [OF assms(1)] by blast
  show ?thesis
    using a q q1 q2 assms(2) by (cases "p_outgoing (r_peer s)") (auto simp: accept_version_def acceptable_def Let_def)
qed

lemma message_version:
  assumes "grants E" "acceptable cfg needed (p_outgoing (r_peer s)) v" "is_version (raw_payload m) = Some v"
    "p_version (r_peer s) = None" "\<not> p_got_verack (r_peer s)" "\<not> p_connected (r_peer s)"
  shows "\<exists>s'. on_message cfg E needed m s = (s', Ok True) \<and>
    same_but_queue ((r_peer s)\<lparr>p_version := Some (v\<lparr>vc_version := min (vc_version v) (cfg_max_protocol_version cfg)\<rparr>)\<rparr>) (r_peer s') \<and>
    r_disconnect s' = r_disconnect s \<and> r_incoming s' = r_incoming s \<and> r_handshake s' = r_handshake s"
proof -
  obtain s' where s': "accept_version cfg E v s = (s', Ok True)" using accept_granted [OF assms(1,2)] by blast
  have "handshake_message cfg E needed (raw_payload m) s = (s', Ok True)"
    using assms(2-4) s' by (auto simp: handshake_message_def acceptable_def)
  moreover have C: "same_but_queue ((r_peer s)\<lparr>p_version := Some (v\<lparr>vc_version := min (vc_version v) (cfg_max_protocol_version cfg)\<rparr>)\<rparr>) (r_peer s')"
    "r_disconnect s' = r_disconnect s" "r_incoming s' = r_incoming s" "r_handshake s' = r_handshake s"
    using accept_version_cases [OF s'] by auto
  moreover have "complete_handshake E s' = s'" using C(1) assms(5) by (simp add: complete_handshake_def frame)
  ultimately show ?thesis using assms(4-6) by (simp add: on_message_def BitcoinP2PConfig_unwrap_def)
qed

lemma message_verack:
  assumes "raw_payload m = Verack" "p_version (r_peer s) \<noteq> None" "\<not> p_got_verack (r_peer s)" "\<not> p_connected (r_peer s)"
  shows "on_message cfg E needed m s =
    (complete_handshake E (s\<lparr>r_peer := (r_peer s)\<lparr>p_got_verack := True\<rparr>\<rparr>), Ok True)"
  using assms by (simp add: on_message_def BitcoinP2PConfig_unwrap_def handshake_message_def)

lemma decode_step:
  assumes "BitcoinP2PConfig_decode dec (p_read_buffer (r_peer s)) = Ok (b, Ok (Some m))"
    "on_message cfg E needed m (s\<lparr>r_peer := (r_peer s)\<lparr>p_read_buffer := b\<rparr>\<rparr>) = (s', Ok True)"
  shows "receive_loop cfg dec E needed s = receive_loop cfg dec E needed s'"
  using assms by (simp add: receive_loop.simps [of _ _ _ _ s])

lemma handshake_received:
  assumes codec: "codec_ok M ser dec" "mv \<in> M" "ma \<in> M" "raw_payload ma = Verack" "is_version (raw_payload mv) = Some v"
    and ok: "grants E" "acceptable cfg needed (p_outgoing (r_peer s)) v"
    and new: "p_version (r_peer s) = None" "\<not> p_got_verack (r_peer s)" "\<not> p_connected (r_peer s)"
    and buf: "holds_bytes (p_read_buffer (r_peer s)) (ser mv @ ser ma)"
  shows "\<exists>s'. receive_loop cfg dec E needed s = Some (s', Ok ()) \<and> p_connected (r_peer s') \<and> r_handshake s' \<and>
    p_version (r_peer s') = Some (v\<lparr>vc_version := min (vc_version v) (cfg_max_protocol_version cfg)\<rparr>) \<and>
    r_disconnect s' = r_disconnect s \<and> r_incoming s' = r_incoming s"
proof -
  have "mv \<noteq> ma" using codec(4,5) by auto
  have "ser mv \<noteq> []"
  proof
    assume "ser mv = []"
    then have "run_list dec (ser ma @ []) = (Ok mv, ser ma @ [])" using codec(1,2) unfolding codec_ok_def
      by (metis append_Nil)
    moreover have "run_list dec (ser ma @ []) = (Ok ma, [])" using codec(1,3) unfolding codec_ok_def by blast
    ultimately show False using \<open>mv \<noteq> ma\<close> by simp
  qed
  then have nil: "incomplete M ser []" using codec(2) by (auto simp: incomplete_def)
  let ?vm = "v\<lparr>vc_version := min (vc_version v) (cfg_max_protocol_version cfg)\<rparr>"
  obtain b1 where b1: "BitcoinP2PConfig_decode dec (p_read_buffer (r_peer s)) = Ok (b1, Ok (Some mv))" "holds_bytes b1 (ser ma)"
    using decode_complete [OF codec(1,2) buf] by blast
  define s0 where "s0 = s\<lparr>r_peer := (r_peer s)\<lparr>p_read_buffer := b1\<rparr>\<rparr>"
  obtain s1 where s1: "on_message cfg E needed mv s0 = (s1, Ok True)"
    "same_but_queue ((r_peer s0)\<lparr>p_version := Some ?vm\<rparr>) (r_peer s1)"
    "r_disconnect s1 = r_disconnect s" "r_incoming s1 = r_incoming s"
    using message_version [of E cfg needed s0 v mv] ok codec(5) new by (auto simp: s0_def)
  have f1: "p_version (r_peer s1) = Some ?vm" "\<not> p_got_verack (r_peer s1)" "\<not> p_connected (r_peer s1)"
    "p_read_buffer (r_peer s1) = b1"
    using s1(2) new by (auto simp: frame s0_def)
  obtain b2 where b2: "BitcoinP2PConfig_decode dec (p_read_buffer (r_peer s1)) = Ok (b2, Ok (Some ma))" "holds_bytes b2 []"
    using decode_complete [OF codec(1,3), of b1 "[]"] b1(2) f1(4) by auto
  define s2 where "s2 = complete_handshake E (s1\<lparr>r_peer := (r_peer s1)\<lparr>p_read_buffer := b2, p_got_verack := True\<rparr>\<rparr>)"
  have s2: "on_message cfg E needed ma (s1\<lparr>r_peer := (r_peer s1)\<lparr>p_read_buffer := b2\<rparr>\<rparr>) = (s2, Ok True)"
    using message_verack [OF codec(4)] f1 by (simp add: s2_def)
  have f2: "p_connected (r_peer s2)" "r_handshake s2" "p_version (r_peer s2) = Some ?vm" "p_read_buffer (r_peer s2) = b2"
    "r_disconnect s2 = r_disconnect s" "r_incoming s2 = r_incoming s"
    using f1 s1(3,4) by (simp_all add: s2_def complete_handshake_def)
  obtain b3 where b3: "BitcoinP2PConfig_decode dec b2 = Ok (b3, Ok None)"
    using decode_partial [OF codec(1) b2(2) nil] by blast
  have "receive_loop cfg dec E needed s = receive_loop cfg dec E needed s2"
    using decode_step [OF b1(1)] decode_step [OF b2(1) s2] s1(1) by (simp add: s0_def)
  also have "\<dots> = Some (s2\<lparr>r_peer := (r_peer s2)\<lparr>p_read_buffer := b3\<rparr>\<rparr>, Ok ())"
    using b3 f2(4) by (simp add: receive_loop.simps [of _ _ _ _ s2])
  finally show ?thesis using f2 by simp
qed

lemma handshake_readable:
  assumes codec: "codec_ok M (c_ser C) (c_dec C)" "mv \<in> M" "ma \<in> M" "raw_payload ma = Verack"
      "is_version (raw_payload mv) = Some v"
    and p: "peer n pid = Some p" "p_version p = None" "\<not> p_got_verack p" "\<not> p_connected p" "holds_bytes (p_read_buffer p) []"
    and ok: "grants E" "acceptable (n_config n) needed (p_outgoing p) v"
    and data: "ev_data ev = Ok (c_ser C mv @ c_ser C ma)" "c_ser C mv \<noteq> []"
  shows "\<exists>n' q a. P2P_readable E C n pid needed ev = Some (n', Ok ()) \<and> peer n' pid = Some q \<and> p_connected q \<and>
    p_version q = Some (v\<lparr>vc_version := min (vc_version v) (cfg_max_protocol_version (n_config n))\<rparr>) \<and>
    n_dispatched n' = n_dispatched n @ [Connected pid a]"
proof -
  define s where "s = \<lparr>r_peer = p\<lparr>p_read_buffer := Buffer_write_all (p_read_buffer p) (c_ser C mv @ c_ser C ma)\<rparr>,
    r_incoming = [], r_disconnect = False, r_ban = False, r_handshake = False, r_address = None\<rparr>"
  have "holds_bytes (p_read_buffer (r_peer s)) (c_ser C mv @ c_ser C ma)"
    using p(5) net.write_law [of "p_read_buffer p" "c_ser C mv @ c_ser C ma"] by (simp add: holds_bytes_def s_def)
  then obtain s' where s': "receive_loop (n_config n) (c_dec C) E needed s = Some (s', Ok ())" "p_connected (r_peer s')"
    "r_handshake s'" "p_version (r_peer s') = Some (v\<lparr>vc_version := min (vc_version v) (cfg_max_protocol_version (n_config n))\<rparr>)"
    "\<not> r_disconnect s'" "r_incoming s' = []"
    using handshake_received [OF codec ok(1), of "n_config n" needed s] ok(2) p by (auto simp: s_def)
  have "on_readable (n_config n) (c_dec C) E needed p (ev_data ev) = Some (s', Ok ())"
    using s'(1) data by (simp add: on_readable_def s_def)
  then have "P2P_readable E C n pid needed ev = Some (after_read (set_peer n pid (r_peer s')) pid s', Ok ())"
    using p(1) by (simp add: P2P_readable_def)
  then show ?thesis using s' by (simp add: after_read_def)
qed

section \<open>Sample peers\<close>

definition connected_peer :: Peer where
  "connected_peer = (Peer_new (sample_pid 1) True)
     \<lparr>p_got_verack := True, p_version := is_version (Version sample_version), p_connected := True\<rparr>"

text \<open>A peer with bytes to write and a message queued.\<close>

definition writing_peer :: Peer where
  "writing_peer = connected_peer
     \<lparr>p_write_buffer := Buffer_write_all Buffer_new [2, 2], p_queue := [Verack], p_writeable := True\<rparr>"

lemma sample_in [simp]:
  "sample_raw Verack \<in> sample_messages" "sample_raw (NetworkMessage.Ping 7) \<in> sample_messages"
  "sample_raw (Version sample_version) \<in> sample_messages"
  by (simp_all add: sample_messages_def)

lemma sample_incomplete: "incomplete sample_messages sample_ser []" "incomplete sample_messages sample_ser [2]"
  unfolding incomplete_def by (rule bexI [of _ "sample_raw (NetworkMessage.Ping 7)"]; simp)+

lemma sample_os_grants: "grants sample_os"
  by (simp add: grants_def sample_os_def)

lemma new_buffer_holds: "holds_bytes Buffer_new []"
  using buf_inv_new by (simp add: holds_bytes_def)

lemma writing_peer_buffer:
  "buf_inv (p_write_buffer writing_peer)" "unread (p_write_buffer writing_peer) = [2, 2]"
  using net.write_law [OF buf_inv_new(1), of "[2, 2]"] buf_inv_new(2) by (simp_all add: writing_peer_def)

section \<open>The streams of a peer\<close>

text \<open>
  C9. However the socket cuts the stream of a connected peer into reads, the messages come out one by
  one as they were sent, in order and none twice; the rest of an incomplete message stays in
  the buffer for the next read.
\<close>
theorem stream_reassembled:
  assumes "codec_ok M ser dec" "p_connected p" "holds_bytes (p_read_buffer p) part0" "incomplete M ser part0"
    "part0 @ concat reads = concat (map ser ms) @ part" "set ms \<subseteq> M" "incomplete M ser part" "[] \<notin> set reads"
  shows "\<exists>q. read_all cfg dec E needed p reads = Some (q, ms) \<and> holds_bytes (p_read_buffer q) part \<and> p_connected q"
  using read_all_messages [OF assms(1,2,3,5,7,8,4,6)] by blast

theorem stream_reassembled_witness:
  "\<exists>q. read_all sample_cfg sample_dec sample_os 0 connected_peer [[2], [2, 1, 2]] =
     Some (q, [sample_raw (NetworkMessage.Ping 7), sample_raw Verack]) \<and> holds_bytes (p_read_buffer q) [2]"
  using stream_reassembled [OF sample_codec_ok, of connected_peer "[]" "[[2], [2, 1, 2]]"
      "[sample_raw (NetworkMessage.Ping 7), sample_raw Verack]" "[2]" sample_cfg sample_os 0] sample_incomplete new_buffer_holds
  by (auto simp: connected_peer_def Peer_new_def)

text \<open>
  C17. Writing loses, repeats and reorders nothing: whatever the socket takes at each attempt, the bytes
  sent followed by those still to be sent are what was to be sent before, and the state of
  the connection is as it was.
\<close>
theorem write_conserves:
  assumes "buf_inv (p_write_buffer p)" "write_loop cfg ser E iobuf p ws [] = Some (p', sent, r)"
  shows "sent @ to_send cfg ser p' = to_send cfg ser p \<and> buf_inv (p_write_buffer p') \<and>
    p_connected p' = p_connected p \<and> p_version p' = p_version p \<and> p_read_buffer p' = p_read_buffer p"
  using write_loop_conserves [OF assms(2,1)] by (auto simp: frame)

lemma writing_peer_flushed:
  "\<exists>p' r. write_loop sample_cfg sample_ser sample_os (replicate 8 0) writing_peer [Inr 1, Inr 1, Inr 5] [] =
     Some (p', [2, 2, 1], r)"
  using write_loop_flushes [of "[Inr 1, Inr 1, Inr 5]" sample_cfg sample_ser writing_peer "replicate 8 0" sample_os "[]"]
    writing_peer_buffer
  by (auto simp: willing_def to_send_def writing_peer_def)

theorem write_conserves_witness:
  "\<exists>p' r. write_loop sample_cfg sample_ser sample_os (replicate 8 0) writing_peer [Inr 1, Inr 1, Inr 5] [] =
     Some (p', [2, 2, 1], r) \<and> [2, 2, 1] @ to_send sample_cfg sample_ser p' = to_send sample_cfg sample_ser writing_peer"
  using writing_peer_flushed write_conserves [OF writing_peer_buffer(1)] by blast

text \<open>
  C18. A socket that takes at least a byte at every attempt gets everything: if what the write buffer
  holds and every queued message fit into the buffer for input and output, the loop returns,
  all bytes are sent and the peer waits for reading only.
\<close>
theorem write_flushes:
  assumes "willing ws" "length (to_send cfg ser p) \<le> length ws" "buf_inv (p_write_buffer p)"
    "length (unread (p_write_buffer p)) \<le> length iobuf"
    "\<forall>m\<in>set (p_queue p). length (ser (BitcoinP2PConfig_wrap cfg m)) \<le> length iobuf"
  shows "\<exists>p' r. write_loop cfg ser E iobuf p ws [] = Some (p', to_send cfg ser p, r) \<and>
    to_send cfg ser p' = [] \<and> \<not> p_writeable p'"
  using write_loop_flushes [OF assms, of E "[]"] by auto

theorem write_flushes_witness:
  "\<exists>p' r. write_loop sample_cfg sample_ser sample_os (replicate 8 0) writing_peer [Inr 1, Inr 1, Inr 5] [] =
     Some (p', [2, 2, 1], r) \<and> \<not> p_writeable p'"
  using write_flushes [of "[Inr 1, Inr 1, Inr 5]" sample_cfg sample_ser writing_peer "replicate 8 0" sample_os]
    writing_peer_buffer
  by (auto simp: willing_def to_send_def writing_peer_def)

text \<open>
  C39. When the socket refuses a write with an error, as a non-blocking socket does that is full, and no
  message is queued, the peer is registered for reading only although bytes wait in the write
  buffer: nothing is lost, but no event will make the loop send them.
\<close>
theorem refused_write_stalls:
  assumes "buf_inv (p_write_buffer p)" "unread (p_write_buffer p) \<noteq> []" "iobuf \<noteq> []" "p_queue p = []" "p_writeable p"
  shows "\<exists>p' r. write_loop cfg ser E iobuf p (Inl e # ws) [] = Some (p', [], r) \<and> \<not> p_writeable p' \<and>
    unread (p_write_buffer p') = unread (p_write_buffer p)"
  using refused_write_unregisters [OF assms, of cfg ser E e ws "[]"] by auto

theorem refused_write_stalls_witness:
  "\<exists>p' r. write_loop sample_cfg sample_ser sample_os (replicate 8 0) (writing_peer\<lparr>p_queue := []\<rparr>)
      [Inl \<lparr>fe_description = [], fe_display = [], io_kind = WouldBlock\<rparr>] [] = Some (p', [], r) \<and>
    \<not> p_writeable p' \<and> unread (p_write_buffer p') = [2, 2]"
  using refused_write_stalls [of "writing_peer\<lparr>p_queue := []\<rparr>" "replicate 8 0" sample_cfg sample_ser sample_os
      "\<lparr>fe_description = [], fe_display = [], io_kind = WouldBlock\<rparr>" "[]"] writing_peer_buffer
  by (simp add: writing_peer_def connected_peer_def)

text \<open>
  Nor does the loop send what the write buffer holds beyond the buffer for input and output: when no message is
  queued, one such buffer is written and the peer is registered for reading only, with the rest unsent.
\<close>
theorem backlog_stalls:
  assumes "buf_inv (p_write_buffer p)" "length iobuf < length (unread (p_write_buffer p))" "iobuf \<noteq> []" "p_queue p = []"
    "p_writeable p" "willing ws" "length iobuf \<le> length ws"
  shows "\<exists>p' r. write_loop cfg ser E iobuf p ws [] = Some (p', take (length iobuf) (unread (p_write_buffer p)), r) \<and>
    \<not> p_writeable p' \<and> unread (p_write_buffer p') = drop (length iobuf) (unread (p_write_buffer p))"
proof -
  let ?len = "min (length iobuf) (length (unread (p_write_buffer p)))"
  obtain io' where ra: "Buffer_read_ahead (p_write_buffer p) iobuf = Ok (?len, io')"
    using read_ahead_spec [OF assms(1)] by blast
  have len: "?len = length iobuf" using assms(2) by simp
  obtain b ws' where "write_out io' ?len 0 p ws [] =
      Some (Ok (p\<lparr>p_write_buffer := b\<rparr>, True, ws', take (length iobuf) (unread (p_write_buffer p))))"
    "unread b = drop (length iobuf) (unread (p_write_buffer p))"
    using write_out_flush [OF assms(6), of ?len 0 p io' "[]"] read_ahead_offer [OF assms(1) ra] assms(1,2,3,7) len by auto
  then show ?thesis
    using ra len assms(3,4,5) by (simp add: write_loop.simps [of _ _ _ _ p] Peer_try_receive_def Peer_reregister_read_def)
qed

section \<open>Handshake and reports\<close>

definition handshake_event :: "u8 list \<Rightarrow> event" where
  "handshake_event bytes =
     \<lparr>ev_hup = False, ev_writable = False, ev_readable = True, ev_attempts = [], ev_data = Ok bytes\<rparr>"

lemma sample_acceptable:
  "is_version (Version sample_version) = Some v \<Longrightarrow> acceptable sample_cfg 0 out v"
  by (auto simp: acceptable_def sample_cfg_def sample_version_def config_defs)

lemma one_peer_simps:
  "peer one_peer (sample_pid 1) = Some (Peer_new (sample_pid 1) True)" "n_config one_peer = sample_cfg"
  "n_dispatched one_peer = []" "n_next_peer_id one_peer = 2"
  by (simp_all add: one_peer_def P2P_new_def)

lemma decode_bad:
  assumes "holds_bytes b xs" "run_list dec xs = (Err e, rest)" "\<not> is_eof e"
  shows "\<exists>b' io. BitcoinP2PConfig_decode dec b = Ok (b', Err io)"
proof -
  have "buf_inv b" "unread b = xs" using assms(1) by (simp_all add: holds_bytes_def)
  then obtain b1 where b1: "run_reader Buffer_read dec b = Ok (b1, Err e)" "buf_inv b1"
    using net.run_reader_list [of b dec] assms(2) by auto
  then show ?thesis
    using commit_spec [OF b1(2)] assms(3)
    by (auto simp: BitcoinP2PConfig_decode_def decode_with_def is_eof_def split: option.splits)
qed

text \<open>
  C37. A completed handshake can go unnoticed: when the acknowledgement that completes it and bytes that
  do not decode arrive in one read, the handler leaves with the error. The peer counts as
  connected, but neither the dispatcher is told so nor the task that waits for it is woken.
\<close>
theorem handshake_unreported:
  assumes codec: "codec_ok M (c_ser C) (c_dec C)" "ma \<in> M" "raw_payload ma = Verack"
      "run_list (c_dec C) junk = (Err e, rest)" "\<not> is_eof e"
    and p: "peer n pid = Some p" "p_version p \<noteq> None" "\<not> p_got_verack p" "\<not> p_connected p" "holds_bytes (p_read_buffer p) []"
    and data: "ev_data ev = Ok (c_ser C ma @ junk)"
  shows "\<exists>n' q io. P2P_readable E C n pid needed ev = Some (n', Err (IO io)) \<and> peer n' pid = Some q \<and> p_connected q \<and>
    n_dispatched n' = n_dispatched n \<and> n_woken n' = n_woken n"
proof -
  define s where "s = \<lparr>r_peer = p\<lparr>p_read_buffer := Buffer_write_all (p_read_buffer p) (c_ser C ma @ junk)\<rparr>,
    r_incoming = [], r_disconnect = (c_ser C ma @ junk = []), r_ban = False, r_handshake = False, r_address = None\<rparr>"
  have buf: "holds_bytes (p_read_buffer (r_peer s)) (c_ser C ma @ junk)"
    using p(5) net.write_law [of "p_read_buffer p" "c_ser C ma @ junk"] by (simp add: holds_bytes_def s_def)
  obtain b1 where b1: "BitcoinP2PConfig_decode (c_dec C) (p_read_buffer (r_peer s)) = Ok (b1, Ok (Some ma))" "holds_bytes b1 junk"
    using decode_complete [OF codec(1,2) buf] by blast
  define s1 where "s1 = complete_handshake E (s\<lparr>r_peer := (r_peer s)\<lparr>p_read_buffer := b1, p_got_verack := True\<rparr>\<rparr>)"
  have m: "on_message (n_config n) E needed ma (s\<lparr>r_peer := (r_peer s)\<lparr>p_read_buffer := b1\<rparr>\<rparr>) = (s1, Ok True)"
    using message_verack [OF codec(3)] p(2-4) by (simp add: s1_def s_def)
  have c: "p_connected (r_peer s1)" "p_read_buffer (r_peer s1) = b1"
    using p(2) by (auto simp: s1_def complete_handshake_def s_def)
  obtain b2 io where "BitcoinP2PConfig_decode (c_dec C) b1 = Ok (b2, Err io)" using decode_bad [OF b1(2) codec(4,5)] by blast
  then have "receive_loop (n_config n) (c_dec C) E needed s =
      Some (s1\<lparr>r_peer := (r_peer s1)\<lparr>p_read_buffer := b2\<rparr>\<rparr>, Err (IO io))"
    using decode_step [OF b1(1) m] c(2) by (simp add: receive_loop.simps [of _ _ _ _ s1] error_from_io_def)
  then have "on_readable (n_config n) (c_dec C) E needed p (ev_data ev) =
      Some (s1\<lparr>r_peer := (r_peer s1)\<lparr>p_read_buffer := b2\<rparr>\<rparr>, Err (IO io))"
    using data by (simp add: on_readable_def s_def)
  then show ?thesis using p(1) c(1) by (simp add: P2P_readable_def set_peer_def update_conv')
qed

definition greeted_peer :: P2P where
  "greeted_peer = set_peer one_peer (sample_pid 1)
     ((Peer_new (sample_pid 1) True)\<lparr>p_version := is_version (Version sample_version)\<rparr>)"

theorem handshake_unreported_witness:
  "\<exists>n' q io. P2P_readable sample_os sample_codec greeted_peer (sample_pid 1) 0 (handshake_event [1, 9]) = Some (n', Err (IO io)) \<and>
     peer n' (sample_pid 1) = Some q \<and> p_connected q \<and> n_dispatched n' = []"
proof -
  have c: "codec_ok sample_messages (c_ser sample_codec) (c_dec sample_codec)"
    using sample_codec_ok by (simp add: sample_codec_def)
  have "run_list (c_dec sample_codec) [9] = (Err sample_bad, [])" "\<not> is_eof sample_bad"
    by (simp_all add: sample_codec_def sample_dec_def is_eof_def sample_bad_def)
  from handshake_unreported [OF c _ _ this, of "sample_raw Verack" greeted_peer "sample_pid 1"
      "(Peer_new (sample_pid 1) True)\<lparr>p_version := is_version (Version sample_version)\<rparr>"
      "handshake_event [1, 9]" sample_os 0]
  show ?thesis
    using new_buffer_holds
    by (auto simp: greeted_peer_def one_peer_simps Peer_new_def handshake_event_def sample_codec_def simp del: One_nat_def)
qed

text \<open>
  C33. The ban score adds up: below the limit of 100 only the score changes; when it is reached the peer
  is reported as banned, removed and its socket closed. Other peers are left alone.
\<close>
theorem ban_score:
  assumes "peer n pid = Some p" "unat (p_ban p) + unat k < 2 ^ 32"
  shows "\<exists>n'. P2P_ban checks n pid k = (n', Ok ()) \<and> (\<forall>q. q \<noteq> pid \<longrightarrow> peer n' q = peer n q) \<and>
    (if unat (p_ban p) + unat k < 100
     then peer n' pid = Some (p\<lparr>p_ban := p_ban p + k\<rparr>) \<and> n_dispatched n' = n_dispatched n
     else peer n' pid = None \<and> n_dispatched n' = n_dispatched n @ [Disconnected pid True] \<and>
          n_closed n' = n_closed n @ [pid])"
proof -
  have a: "(rust_add checks (p_ban p) k :: u32 result) = Ok (p_ban p + k)" using assms(2) by (simp add: rust_add_Ok)
  have "unat (p_ban p + k) = unat (p_ban p) + unat k" using assms(2) by (simp add: unat_word_ariths)
  then have l: "100 \<le> p_ban p + k \<longleftrightarrow> \<not> unat (p_ban p) + unat k < 100" by (auto simp: word_le_nat_alt)
  have closed: "n_closed (P2P_disconnect (set_peer n pid q) pid True) = n_closed n @ [pid]" for q
    by (simp add: P2P_disconnect_def wake_def remove_peer_def dispatch_def set_peer_def update_conv')
  show ?thesis using assms(1) a l closed by (cases "100 \<le> p_ban p + k") (simp_all add: P2P_ban_def Let_def)
qed

theorem ban_score_witness:
  "\<exists>n' n''. P2P_ban True one_peer (sample_pid 1) 10 = (n', Ok ()) \<and> n_dispatched n' = [] \<and>
     P2P_ban True n' (sample_pid 1) 90 = (n'', Ok ()) \<and> n_dispatched n'' = [Disconnected (sample_pid 1) True]"
proof -
  let ?p = "Peer_new (sample_pid 1) True"
  obtain n' where 1: "P2P_ban True one_peer (sample_pid 1) 10 = (n', Ok ())" "n_dispatched n' = []"
    "peer n' (sample_pid 1) = Some (?p\<lparr>p_ban := 10\<rparr>)"
    using ban_score [OF one_peer_simps(1), of 10 True] one_peer_simps(3) by (auto simp: Peer_new_def simp del: One_nat_def)
  then show ?thesis
    using ban_score [OF 1(3), of 90 True] by (auto simp del: One_nat_def)
qed

section \<open>Runs of the layer\<close>

text \<open>A run: a connection is opened, the handshake completes, the peer leaves.\<close>

definition run_0 :: P2P where
  "run_0 = fst (P2P_add_peer sample_os (P2P_new sample_cfg) ''bitcoin'' (OutgoingTo sample_addr))"

abbreviation (input) reachable_sample :: "P2P \<Rightarrow> bool" where
  "reachable_sample \<equiv> reachable_node True sample_codec ''bitcoin'' 0 sample_cfg"

lemma run_0: "reachable_sample run_0" "n_dispatched run_0 = []" "n_config run_0 = sample_cfg"
  "n_next_peer_id run_0 = 1" "n_listener run_0 = []"
  "\<exists>p. peer run_0 (sample_pid 0) = Some p \<and> same_but_queue (Peer_new (sample_pid 0) True) p"
proof -
  obtain pid r where "P2P_add_peer sample_os (P2P_new sample_cfg) ''bitcoin'' (OutgoingTo sample_addr) = (run_0, pid, r)"
    by (cases "P2P_add_peer sample_os (P2P_new sample_cfg) ''bitcoin'' (OutgoingTo sample_addr)") (auto simp: run_0_def)
  then show "reachable_sample run_0" using reachable_node.add [OF reachable_node.start] by blast
  show "n_dispatched run_0 = []" "n_config run_0 = sample_cfg" "n_next_peer_id run_0 = 1" "n_listener run_0 = []"
    "\<exists>p. peer run_0 (sample_pid 0) = Some p \<and> same_but_queue (Peer_new (sample_pid 0) True) p"
    by (simp_all add: run_0_def P2P_add_peer_def P2P_connect_def ip_connected_def P2P_new_def sample_os_def
        install_peer_def Peer_register_write_def Peer_send_def Peer_reregister_write_def set_peer_def sample_pid_def
        same_but_queue_def Let_def)
qed

lemma deliver_listener [simp]: "n_listener (deliver n pid ms) = n_listener n"
  by (induction ms arbitrary: n) (simp_all add: BitcoinP2PConfig_unwrap_def dispatch_def)

lemma after_read_listener: "n_listener (after_read n pid s) = n_listener n"
  by (simp add: after_read_def P2P_disconnect_def P2P_connected_def wake_def remove_peer_def dispatch_def Let_def)

lemma run_1: "\<exists>n a p. reachable_sample n \<and> n_dispatched n = [Connected (sample_pid 0) a] \<and>
    peer n (sample_pid 0) = Some p \<and> p_connected p \<and> n_next_peer_id n = 1 \<and> n_listener n = []"
proof -
  obtain v where v: "is_version (Version sample_version) = Some v" by simp
  obtain p where p: "peer run_0 (sample_pid 0) = Some p" "same_but_queue (Peer_new (sample_pid 0) True) p"
    using run_0(6) by blast
  have c: "codec_ok sample_messages (c_ser sample_codec) (c_dec sample_codec)" using sample_codec_ok by (simp add: sample_codec_def)
  have fresh: "p_version p = None" "\<not> p_got_verack p" "\<not> p_connected p" "holds_bytes (p_read_buffer p) []"
    using p(2) new_buffer_holds by (auto simp: frame Peer_new_def)
  have "\<exists>n' q a. P2P_readable sample_os sample_codec run_0 (sample_pid 0) 0 (handshake_event [3, 0, 0, 1]) = Some (n', Ok ()) \<and>
      peer n' (sample_pid 0) = Some q \<and> p_connected q \<and> n_dispatched n' = n_dispatched run_0 @ [Connected (sample_pid 0) a]"
    using handshake_readable [OF c, of "sample_raw (Version sample_version)" "sample_raw Verack" v run_0 "sample_pid 0" p
        sample_os 0 "handshake_event [3, 0, 0, 1]"] v sample_acceptable [OF v] sample_os_grants p(1) fresh
    by (auto simp: run_0 handshake_event_def sample_codec_def)
  then obtain n' q a where n': "P2P_readable sample_os sample_codec run_0 (sample_pid 0) 0 (handshake_event [3, 0, 0, 1]) = Some (n', Ok ())"
    "peer n' (sample_pid 0) = Some q" "p_connected q" "n_dispatched n' = [Connected (sample_pid 0) a]"
    using run_0(2) by auto
  have e: "poll_event True sample_os sample_codec run_0 ''bitcoin'' 0 0 (handshake_event [3, 0, 0, 1]) = Some (n', Ok ())"
    using n'(1) by (simp add: poll_event_def P2P_is_listener_def run_0(5) P2P_event_processor_def handshake_event_def sample_pid_def)
  have "reachable_sample n'" using reachable_node.event [OF run_0(1) _ e] run_0(4) by simp
  moreover have "n_next_peer_id n' = 1"
    using P2P_readable_spec [OF _ n'(1)] reachable_node_inv [OF run_0(1)] run_0(4) by simp
  moreover have "n_listener n' = []"
    using n'(1) run_0(5) p(1)
    by (auto simp: P2P_readable_def after_read_listener set_peer_def Let_def split: option.splits prod.splits outcome.splits)
  ultimately show ?thesis using n' by blast
qed

text \<open>
  C10. In every state the layer reaches, by any control messages, connections, polls, timeouts and events,
  ids are unique and below the next one, and every peer is valid: it counts as connected exactly
  after both messages of the handshake, and the version it was accepted with offers the
  services needed, is not this node's own and is within the protocol versions supported.
\<close>
theorem reachable_peers_valid:
  assumes "reachable_node checks C network needed cfg n" "peer n pid = Some p"
  shows "p_pid p = pid \<and> pid_token pid < n_next_peer_id n \<and> distinct (map fst (n_peers n)) \<and>
    buf_inv (p_read_buffer p) \<and> buf_inv (p_write_buffer p) \<and>
    (p_connected p \<longleftrightarrow> p_version p \<noteq> None \<and> p_got_verack p) \<and>
    (\<forall>v. p_version p = Some v \<longrightarrow>
       needed AND vc_services v = needed \<and> vc_nonce v \<noteq> cfg_nonce cfg \<and>
       min 70001 (cfg_max_protocol_version cfg) \<le> vc_version v \<and> vc_version v \<le> cfg_max_protocol_version cfg)"
proof -
  note R = reachable_node_inv [OF assms(1)]
  then have i: "node_inv needed n" by blast
  show ?thesis
    using node_invD [OF i assms(2)] R i by (auto simp: peer_ok_def version_ok_def node_inv_def)
qed

theorem reachable_peers_valid_witness:
  "\<exists>n p v. reachable_sample n \<and> peer n (sample_pid 0) = Some p \<and> p_version p = Some v \<and> vc_version v = 70001"
proof -
  obtain n a p where n: "reachable_sample n" "peer n (sample_pid 0) = Some p" "p_connected p" using run_1 by blast
  note V = reachable_peers_valid [OF n(1,2)]
  then obtain v where v: "p_version p = Some v" using n(3) by blast
  have "70001 \<le> vc_version v" "vc_version v \<le> 70001" using V v by (auto simp: sample_cfg_def)
  then show ?thesis using n v by (metis antisym)
qed

text \<open>
  Once the dispatcher has been told that a peer is gone, it is told nothing else of that peer: no
  message and no new connection under its id, in any run whose steps are whole events and control messages; and the
  peer is gone.
\<close>
theorem nothing_after_disconnect:
  assumes "reachable_node checks C network needed cfg n" "n_dispatched n = before @ Disconnected pid b # after"
  shows "Incoming pid m \<notin> set after \<and> Connected pid a \<notin> set after \<and> peer n pid = None"
proof -
  have i: "node_inv needed n" using reachable_node_inv [OF assms(1)] by blast
  then have "quiet (Disconnected pid b # after)" using assms(2) by (simp add: node_inv_def quiet_append)
  moreover have "pid \<in> gone (n_dispatched n)" unfolding assms(2) by (auto simp: gone_def)
  ultimately show ?thesis using i by (auto simp: node_inv_def gone_def active_def)
qed

theorem nothing_after_disconnect_witness:
  "\<exists>n a. reachable_sample n \<and> n_dispatched n = [Connected (sample_pid 0) a] @ Disconnected (sample_pid 0) False # [] \<and>
     peer n (sample_pid 0) = None"
proof -
  obtain n a where n: "reachable_sample n" "n_dispatched n = [Connected (sample_pid 0) a]" "n_next_peer_id n = 1"
    "n_listener n = []" using run_1 by blast
  define ev where "ev = (handshake_event [])\<lparr>ev_hup := True\<rparr>"
  have e: "poll_event True sample_os sample_codec n ''bitcoin'' 0 0 ev = Some (P2P_disconnect n (sample_pid 0) False, Ok ())"
    by (simp add: poll_event_def P2P_is_listener_def n(4) P2P_event_processor_def ev_def sample_pid_def)
  have r: "reachable_sample (P2P_disconnect n (sample_pid 0) False)"
    using reachable_node.event [OF n(1) _ e] n(3) by simp
  have d: "n_dispatched (P2P_disconnect n (sample_pid 0) False) =
      [Connected (sample_pid 0) a] @ Disconnected (sample_pid 0) False # []" using n(2) by simp
  show ?thesis using r d nothing_after_disconnect [OF r d] by blast
qed

text \<open>What reading tells the dispatcher, by its outcome.\<close>

definition told_exactly :: "P2P \<Rightarrow> PeerId \<Rightarrow> P2P \<Rightarrow> unit result \<Rightarrow> NetworkMessage PeerMessage list \<Rightarrow> bool" where
  "told_exactly n pid n' r ds \<longleftrightarrow>
     (r \<noteq> Ok () \<longrightarrow> ds = []) \<and>
     (peer n pid \<noteq> None \<longrightarrow> ((\<exists>b. Disconnected pid b \<in> set ds) \<longleftrightarrow> peer n' pid = None)) \<and>
     (r = Ok () \<longrightarrow> peer n' pid \<noteq> None \<longrightarrow>
        ((\<exists>a. Connected pid a \<in> set ds) \<longleftrightarrow>
           map_option p_connected (peer n pid) = Some False \<and> map_option p_connected (peer n' pid) = Some True))"

lemma after_read_told:
  assumes "peer n pid = Some p" "r_handshake s \<longleftrightarrow> \<not> p_connected p \<and> p_connected (r_peer s)"
  shows "\<exists>ds. n_dispatched (after_read (set_peer n pid (r_peer s)) pid s) = n_dispatched n @ ds \<and>
    told_exactly n pid (after_read (set_peer n pid (r_peer s)) pid s) (Ok ()) ds"
proof (cases "r_disconnect s")
  case True
  then show ?thesis by (auto simp: after_read_def told_exactly_def)
next
  case False
  define ds where "ds = (if r_handshake s then [Connected pid (r_address s)] else []) @
    map (Incoming pid) (map raw_payload (r_incoming s))"
  let ?n = "after_read (set_peer n pid (r_peer s)) pid s"
  have n: "n_dispatched ?n = n_dispatched n @ ds" "peer ?n pid = Some (r_peer s)"
    using False by (simp_all add: after_read_def Let_def ds_def)
  have "told_exactly n pid ?n (Ok ()) ds"
    unfolding told_exactly_def n(2) using assms by (auto simp: ds_def)
  then show ?thesis using n(1) by blast
qed

lemma readable_told:
  assumes inv: "node_inv needed n" and run: "P2P_readable E C n pid needed ev = Some (n', r)"
  shows "\<exists>ds. n_dispatched n' = n_dispatched n @ ds \<and> told_exactly n pid n' r ds"
proof (cases "peer n pid")
  case None
  then show ?thesis using run by (auto simp: P2P_readable_def told_exactly_def)
next
  case (Some p)
  then obtain s q where q: "on_readable (n_config n) (c_dec C) E needed p (ev_data ev) = Some (s, q)"
    and n': "(n', r) = (case q of Ok _ \<Rightarrow> (after_read (set_peer n pid (r_peer s)) pid s, Ok ())
       | _ \<Rightarrow> (set_peer n pid (r_peer s), q))"
    using run by (auto simp: P2P_readable_def Let_def split: option.splits prod.splits)
  show ?thesis
  proof (cases "q = Ok ()")
    case True
    then show ?thesis using n' after_read_told [OF Some] on_readable_spec [OF node_invD(2) [OF inv Some] q] by auto
  next
    case False
    then have "n' = set_peer n pid (r_peer s)" "r = q" using n' by (cases q; auto)+
    then show ?thesis using False Some by (auto simp: told_exactly_def)
  qed
qed

lemma event_told:
  assumes inv: "node_inv needed n" and run: "P2P_event_processor E C n ev pid needed = Some (n', r)"
  shows "\<exists>ds. n_dispatched n' = n_dispatched n @ ds \<and> told_exactly n pid n' r ds"
proof (cases "ev_hup ev")
  case True
  then have "n' = P2P_disconnect n pid False" "r = Ok ()" using run by (simp_all add: P2P_event_processor_def)
  then show ?thesis by (auto simp: told_exactly_def)
next
  case False
  obtain n1 r1 where w: "(if ev_writable ev then on_writable E C n pid ev else Some (n, Ok ())) = Some (n1, r1)"
    and rest: "(n1, r1) = (n', r) \<or> P2P_readable E C n1 pid needed ev = Some (n', r)"
    using run False by (auto simp: P2P_event_processor_def split: option.splits outcome.splits if_splits)
  have i: "node_inv needed n1" "n_dispatched n1 = n_dispatched n"
    "map_option p_connected (peer n1 pid) = map_option p_connected (peer n pid)"
    using w on_writable_spec [OF inv] inv by (auto split: if_splits)
  have none: "peer n1 pid = None \<longleftrightarrow> peer n pid = None" using i(3) by (metis option.map_disc_iff)
  have same: "told_exactly n pid n' r ds" if "told_exactly n1 pid n' r ds" for ds
    using that i(3) none by (simp add: told_exactly_def)
  from rest show ?thesis
  proof
    assume "(n1, r1) = (n', r)"
    then have "told_exactly n pid n' r []" using none i(3) by (cases "peer n pid") (auto simp: told_exactly_def)
    then show ?thesis using i(2) \<open>(n1, r1) = (n', r)\<close> by auto
  next
    assume "P2P_readable E C n1 pid needed ev = Some (n', r)"
    from readable_told [OF i(1) this] show ?thesis using i(2) same by auto
  qed
qed

text \<open>
  C15. What an event of a peer tells the dispatcher is one of four things: nothing; that the peer is gone, which
  then it is; the messages of a peer that was connected and is; or the connection, followed by messages. Of a
  peer that was there it is told that it is gone exactly if it is not there any more. If the handler returns without an error and the peer
  is still there, it is told of the connection exactly if the event completed the handshake. If
  the handler returns with an error, nothing is told, even if the handshake was completed before
  the error (\<open>handshake_unreported\<close>).
\<close>
theorem event_reports:
  assumes "node_inv needed n" "pid_token pid < n_next_peer_id n"
    "P2P_event_processor E C n ev pid needed = Some (n', r)"
  shows "\<exists>ds. n_dispatched n' = n_dispatched n @ ds \<and>
    (ds = [] \<or> (\<exists>b. ds = [Disconnected pid b] \<and> peer n' pid = None) \<or>
     (\<exists>p' ms. peer n' pid = Some p' \<and> p_connected p' \<and>
        (ds = map (Incoming pid) ms \<and> map_option p_connected (peer n pid) = Some True \<or>
         (\<exists>a. ds = Connected pid a # map (Incoming pid) ms) \<and> map_option p_connected (peer n pid) = Some False))) \<and>
    (r \<noteq> Ok () \<longrightarrow> ds = []) \<and>
    (peer n pid \<noteq> None \<longrightarrow> ((\<exists>b. Disconnected pid b \<in> set ds) \<longleftrightarrow> peer n' pid = None)) \<and>
    (r = Ok () \<longrightarrow> peer n' pid \<noteq> None \<longrightarrow>
       ((\<exists>a. Connected pid a \<in> set ds) \<longleftrightarrow>
          map_option p_connected (peer n pid) = Some False \<and> map_option p_connected (peer n' pid) = Some True))"
proof -
  obtain ds where ds: "n_dispatched n' = n_dispatched n @ ds" "told_exactly n pid n' r ds" using event_told [OF assms(1,3)] by blast
  have "report_ok n pid n' ds" using event_processor_spec [OF assms] ds(1) by auto
  then show ?thesis using ds unfolding report_ok_def told_exactly_def by (intro exI [of _ ds]) blast
qed

lemma one_peer_inv: "node_inv 0 one_peer"
  using Peer_new_ok [of sample_cfg 0 "sample_pid 1" True]
  by (auto simp: node_inv_def one_peer_def P2P_new_def sample_pid_def Peer_new_def)

theorem event_reports_witness:
  "\<exists>n' ds. P2P_event_processor sample_os sample_codec one_peer ((handshake_event [])\<lparr>ev_hup := True\<rparr>) (sample_pid 1) 0 =
     Some (n', Ok ()) \<and> n_dispatched n' = ds \<and> ds = [Disconnected (sample_pid 1) False] \<and> peer n' (sample_pid 1) = None"
proof -
  let ?ev = "(handshake_event [])\<lparr>ev_hup := True\<rparr>"
  have t: "pid_token (sample_pid 1) < n_next_peer_id one_peer" by (simp add: sample_pid_def one_peer_def P2P_new_def)
  have e: "P2P_event_processor sample_os sample_codec one_peer ?ev (sample_pid 1) 0 =
      Some (P2P_disconnect one_peer (sample_pid 1) False, Ok ())"
    by (simp add: P2P_event_processor_def)
  show ?thesis using event_reports [OF one_peer_inv t e] e one_peer_simps(3) by auto
qed

end
