(* ===== verification/P2P_Bans.thy ===== *)
theory P2P_Bans
  imports P2P_Properties
begin

text \<open>
  What every operation of the network layer (\<open>src/src/p2p.rs\<close>) leaves as it was: what the dispatcher was
  told stays told, and a peer in the map has a ban score below the limit. From this, what processing the
  control channel to its end does to the peers that are to be banned.
\<close>

section \<open>Growth\<close>

definition grows :: "P2P \<Rightarrow> P2P \<Rightarrow> bool" where
  "grows n n' \<longleftrightarrow>
     (\<exists>ds. n_dispatched n' = n_dispatched n @ ds) \<and>
     (\<forall>pid p'. peer n' pid = Some p' \<longrightarrow> p_ban p' < BAN \<or> (\<exists>p. peer n pid = Some p \<and> p_ban p' = p_ban p))"

lemma grows_refl [simp]: "grows n n"
  by (auto simp: grows_def)

lemma grows_trans [trans]: "grows n n' \<Longrightarrow> grows n' n'' \<Longrightarrow> grows n n''"
  unfolding grows_def by (metis append_assoc)

lemma grows_set_peer:
  assumes "peer n pid = Some p" "p_ban q = p_ban p"
  shows "grows n (set_peer n pid q)"
  using assms by (auto simp: grows_def)

lemma grows_same: "n_dispatched n' = n_dispatched n @ ds \<Longrightarrow> peer n' = peer n \<Longrightarrow> grows n n'"
  by (auto simp: grows_def)

lemma grows_disconnect: "grows n (P2P_disconnect n pid b)"
  by (auto simp: grows_def)

lemma grows_remove: "grows n (remove_peer n pid)"
  by (auto simp: grows_def)

lemma grows_waker: "grows n (n\<lparr>n_waker := w\<rparr>)"
  by (rule grows_same [of _ _ "[]"]) simp_all

lemma ban_grows: "grows n (fst (P2P_ban checks n pid k))"
proof (cases "peer n pid")
  case (Some p)
  show ?thesis
  proof (cases "rust_add checks (p_ban p) k :: u32 result")
    case (Ok ban)
    show ?thesis
    proof (cases "BAN \<le> ban")
      case True
      then show ?thesis using Some Ok by (auto simp: P2P_ban_def grows_def Let_def)
    next
      case False
      then show ?thesis using Some Ok by (auto simp: P2P_ban_def grows_def Let_def not_le)
    qed
  qed (use Some in \<open>simp_all add: P2P_ban_def\<close>)
qed (simp add: P2P_ban_def)

lemma on_message_ban: "on_message cfg E needed m s = (s', r) \<Longrightarrow> p_ban (r_peer s') = p_ban (r_peer s)"
proof -
  assume run: "on_message cfg E needed m s = (s', r)"
  have a: "p_ban (r_peer t) = p_ban (r_peer s)" if "accept_version cfg E v s = (t, q)" for v t q
    using accept_version_cases [OF that] by (auto simp: frame)
  show ?thesis
    using run a
    by (auto simp: on_message_def handshake_message_def reject_def complete_handshake_def BitcoinP2PConfig_unwrap_def
        split: if_splits option.splits prod.splits outcome.splits)
qed

lemma on_readable_ban:
  assumes "on_readable cfg dec E needed p data = Some (s, r)"
  shows "p_ban (r_peer s) = p_ban p"
proof (cases data)
  case (Ok bytes)
  let ?s = "\<lparr>r_peer = p\<lparr>p_read_buffer := Buffer_write_all (p_read_buffer p) bytes\<rparr>, r_incoming = [],
    r_disconnect = (length bytes = 0), r_ban = False, r_handshake = False, r_address = None\<rparr>"
  have "receive_loop cfg dec E needed ?s = Some (s, r)" using assms Ok by (simp add: on_readable_def)
  then show ?thesis
    by (rule receive_loop_invariant [where I = "\<lambda>t. p_ban (r_peer t) = p_ban p"]) (auto dest: on_message_ban)
qed (use assms in \<open>auto simp: on_readable_def\<close>)

lemma on_writable_grows:
  assumes inv: "node_inv needed n" and run: "on_writable E C n pid ev = Some (n', r)"
  shows "grows n n'"
proof (cases "peer n pid")
  case None
  then show ?thesis using run by (simp add: on_writable_def)
next
  case (Some p)
  then obtain p' sent where w: "write_loop (n_config n) (c_ser C) E (c_iobuf C) p (ev_attempts ev) [] = Some (p', sent, r)"
    and n': "n' = (set_peer n pid p')\<lparr>n_sent := n_sent n @ [(pid, sent)]\<rparr>"
    using run by (auto simp: on_writable_def split: option.splits prod.splits)
  have "buf_inv (p_write_buffer p)" using node_invD(2) [OF inv Some] by (simp add: peer_ok_def)
  then have "p_ban p' = p_ban p" using write_loop_conserves [OF w] by (simp add: frame)
  then show ?thesis using Some by (auto simp: n' grows_def)
qed

lemma after_read_grows: "grows n (after_read n pid s)"
proof (cases "r_disconnect s")
  case True
  then show ?thesis by (simp add: after_read_def grows_disconnect)
next
  case False
  let ?n = "if r_handshake s then wake (P2P_connected n pid (r_address s)) pid else n"
  have "grows n ?n"
    using grows_same [of "wake (P2P_connected n pid (r_address s)) pid" n "[Connected pid (r_address s)]"] by simp
  also have "grows ?n (deliver ?n pid (r_incoming s))" by (rule grows_same [OF deliver_simps(3)]) simp
  finally show ?thesis using False by (simp add: after_read_def Let_def)
qed

lemma readable_grows:
  assumes "P2P_readable E C n pid needed ev = Some (n', r)"
  shows "grows n n'"
proof (cases "peer n pid")
  case None
  then show ?thesis using assms by (simp add: P2P_readable_def)
next
  case (Some p)
  then obtain s q where q: "on_readable (n_config n) (c_dec C) E needed p (ev_data ev) = Some (s, q)"
    and n': "n' = after_read (set_peer n pid (r_peer s)) pid s \<or> n' = set_peer n pid (r_peer s)"
    using assms by (auto simp: P2P_readable_def Let_def split: option.splits prod.splits outcome.splits)
  have "grows n (set_peer n pid (r_peer s))" by (rule grows_set_peer [OF Some on_readable_ban [OF q]])
  then show ?thesis using n' after_read_grows grows_trans by blast
qed

lemma add_peer_grows: "grows n (fst (P2P_add_peer E n network source))"
proof -
  define n1 where "n1 = n\<lparr>n_next_peer_id := n_next_peer_id n + 1\<rparr>"
  have b: "p_ban p = 0" if "install_peer E n1 v pid out addr = (m, r)" "m = set_peer n1 pid p" for v pid out addr m r p
  proof -
    have "peer m pid = Some p" using that(2) by simp
    then show ?thesis
      using that(1)
      by (auto simp: install_peer_def Let_def Peer_register_write_def Peer_register_read_def Peer_send_def
          Peer_reregister_write_def Peer_new_def split: if_splits outcome.splits)
  qed
  have i: "grows n m" if m: "install_peer E n1 v pid out addr = (m, r)" for v pid out addr m r
  proof -
    obtain p where p: "m = set_peer n1 pid p" using install_peer_spec [OF m] by blast
    then show ?thesis using b [OF m p] by (auto simp: grows_def n1_def)
  qed
  have "grows n n1" by (rule grows_same [of _ _ "[]"]) (simp_all add: n1_def)
  moreover have "grows n (n1\<lparr>n_closed := l\<rparr>)" for l by (rule grows_same [of _ _ "[]"]) (simp_all add: n1_def)
  ultimately have c: "grows n m" if "P2P_connect E n1 v pid source = (m, r)" for v pid m r
    using that i by (auto simp: P2P_connect_def split: PeerSource.splits outcome.splits if_splits)
  show ?thesis
    using c grows_trans [OF c grows_remove]
    by (auto simp: P2P_add_peer_def Let_def n1_def split: prod.splits outcome.splits)
qed

lemma control_grows: "grows n (fst (control_step checks E n c))"
proof (cases c)
  case (Send pid m)
  show ?thesis
  proof (cases "peer n pid")
    case (Some p)
    obtain q r where q: "Peer_send E p m = (q, r)" by (cases "Peer_send E p m")
    then have "p_ban q = p_ban p" using Peer_send_spec by (auto simp: frame)
    from grows_set_peer [OF Some this] show ?thesis
      using Send Some q by (auto simp: control_step_def split: outcome.splits)
  qed (simp add: Send control_step_def)
next
  case (Broadcast m)
  obtain ps r where ps: "send_all E m (n_peers n) = (ps, r)" by (cases "send_all E m (n_peers n)")
  have "\<exists>p. map_of (n_peers n) pid = Some p \<and> p_ban p' = p_ban p" if "map_of ps pid = Some p'" for pid p'
    using send_all_spec [of E m "n_peers n"] that by (fastforce simp: ps frame)
  then show ?thesis using ps Broadcast by (auto simp: control_step_def grows_def)
next
  case (Height h)
  then show ?thesis by (auto simp: control_step_def intro!: grows_same [of _ _ "[]"])
next
  case (Bind a)
  then show ?thesis
    by (auto simp: control_step_def P2P_add_listener_def Let_def split: outcome.splits intro!: grows_same [of _ _ "[]"])
qed (simp add: control_step_def ban_grows)

lemma poll_event_grows:
  assumes inv: "node_inv needed n" and run: "poll_event checks E C n network needed token ev = Some (n', r)"
  shows "grows n n'"
proof (cases "P2P_is_listener n token")
  case (Some a)
  then show ?thesis using run add_peer_grows by (auto simp: poll_event_def)
next
  case None
  let ?pid = "\<lparr>pid_network = network, pid_token = token\<rparr>"
  obtain n1 r1 where e: "P2P_event_processor E C n ev ?pid needed = Some (n1, r1)"
    and res: "(n', r) = (case r1 of Err _ \<Rightarrow> P2P_ban checks n1 ?pid 10 | _ \<Rightarrow> (n1, r1))"
    using run None by (auto simp: poll_event_def Let_def split: option.splits prod.splits outcome.splits)
  have "grows n n1"
    using e grows_disconnect on_writable_grows [OF inv] readable_grows grows_trans
    by (auto simp: P2P_event_processor_def split: if_splits option.splits prod.splits outcome.splits) blast+
  moreover have "n' = n1 \<or> n' = fst (P2P_ban checks n1 ?pid 10)" using res by (cases r1) (auto dest: arg_cong [of _ _ fst])
  ultimately show ?thesis using ban_grows grows_trans by blast
qed

lemma poll_handshake_grows: "grows n (fst (poll_handshake n pid addr))"
  by (auto simp: poll_handshake_def grows_waker split: option.splits)

lemma poll_finished_grows: "grows n (fst (poll_finished n pid addr))"
  by (auto simp: poll_finished_def grows_waker)

section \<open>Scores\<close>

definition scores_ok :: "P2P \<Rightarrow> bool" where
  "scores_ok n \<longleftrightarrow> (\<forall>pid p. peer n pid = Some p \<longrightarrow> p_ban p < BAN)"

lemma scores_grow: "grows n n' \<Longrightarrow> scores_ok n \<Longrightarrow> scores_ok n'"
  unfolding grows_def scores_ok_def by metis

lemma reachable_scores: "reachable_node checks C network needed cfg n \<Longrightarrow> scores_ok n"
proof (induction rule: reachable_node.induct)
  case start
  then show ?case by (simp add: scores_ok_def P2P_new_def)
next
  case (control n E c n' r)
  then show ?case using scores_grow [OF control_grows [of n checks E c]] by simp
next
  case (add n E source n' pid r')
  then show ?case using scores_grow [OF add_peer_grows [of n E network source]] by simp
next
  case (handshake_poll n pid addr n' r'')
  then show ?case using scores_grow [OF poll_handshake_grows [of n pid addr]] by simp
next
  case (finished_poll n pid addr n' r'')
  then show ?case using scores_grow [OF poll_finished_grows [of n pid addr]] by simp
next
  case (timed_out n pid)
  then show ?case using scores_grow [OF grows_remove [of n pid]] by (simp add: handshake_timeout_def)
next
  case (event n token E ev n' r)
  then show ?case using scores_grow [OF poll_event_grows] reachable_node_inv by blast
qed

section \<open>A lost wake-up\<close>

text \<open>
  \<open>poll_finished\<close> looks for the peer and, having released the lock on the map, registers to be woken.
  If the peer is disconnected between the two, the task waits for a peer that is gone: there was nobody to
  wake, and the registration comes too late.
\<close>

definition finished_check :: "P2P \<Rightarrow> PeerId \<Rightarrow> bool" where
  "finished_check n pid \<longleftrightarrow> peer n pid \<noteq> None"

definition finished_register :: "P2P \<Rightarrow> PeerId \<Rightarrow> P2P" where
  "finished_register n pid = n\<lparr>n_waker := insert pid (n_waker n)\<rparr>"

lemma poll_finished_steps:
  "poll_finished n pid addr =
     (if finished_check n pid then (finished_register n pid, Pending) else (n, Ready (Ok addr)))"
  by (simp add: poll_finished_def finished_check_def finished_register_def)

theorem wakeup_lost:
  assumes "finished_check n pid" "pid \<notin> n_waker n" "n' = finished_register (P2P_disconnect n pid b) pid"
  shows "peer n' pid = None \<and> pid \<in> n_waker n' \<and> n_woken n' = n_woken n"
proof -
  have "n_woken (P2P_disconnect n pid b) = n_woken n"
    using assms(2) by (simp add: P2P_disconnect_def wake_def remove_peer_def dispatch_def)
  then show ?thesis using assms(3) disconnect_simps(4) [of n pid b] by (simp add: finished_register_def)
qed

end
