(* ===== verification/Node_Runs.thy ===== *)
theory Node_Runs
  imports Node_Threads Shared_Timeout P2P_Bans
begin

text \<open>
  Runs of the whole node: the threads and tasks of \<open>Node_Threads\<close> in any order. What the parts keep is
  kept by the whole; the modules see what the network layer reports, in order and none twice; and what a
  module asks of the network layer happens.
\<close>

section \<open>The invariant\<close>

text \<open>
  Each module has handled, and has waiting in its channel, exactly what the dispatcher has received.
\<close>

definition channels_ok :: "('d, 's) Node \<Rightarrow> bool" where
  "channels_ok nd \<longleftrightarrow>
     (let taken = take (nd_taken nd) (n_dispatched (co_p2p nd)) in
      nd_taken nd \<le> length (n_dispatched (co_p2p nd)) \<and>
      (\<exists>c d. listeners (co_dispatcher nd) = [Some c, Some d] \<and>
         nd_download_seen nd @ c = taken \<and> nd_ping_seen nd @ d = taken))"

text \<open>The modules ban with a score of 100.\<close>

definition bans_ok :: "control_queue \<Rightarrow> bool" where
  "bans_ok q \<longleftrightarrow> (\<forall>pid k. Ban pid k \<in> set q \<longrightarrow> k = BAN)"

text \<open>What the parts of the node keep, whatever the peers send.\<close>

definition parts_ok :: "bool \<Rightarrow> codec \<Rightarrow> ('d, 's) Node \<Rightarrow> bool" where
  "parts_ok checks C nd \<longleftrightarrow>
     (\<exists>cfg. reachable_node checks C ''bitcoin'' 0 cfg (co_p2p nd)) \<and>
     one_each (co_timeout nd) \<and> bans_ok (co_control nd) \<and> channels_ok nd"

text \<open>And the database is consistent.\<close>

definition node_ok :: "bool \<Rightarrow> codec \<Rightarrow> 'd db_api \<Rightarrow> ext \<Rightarrow> ('d, 's) Node \<Rightarrow> bool" where
  "node_ok checks C A X nd \<longleftrightarrow> parts_ok checks C nd \<and> cd_inv A X (co_chaindb nd)"

lemma node_ok_parts: "node_ok checks C A X nd \<Longrightarrow> parts_ok checks C nd"
  by (simp add: node_ok_def)

text \<open>Nothing waits in a channel.\<close>

definition idle :: "('d, 's) Node \<Rightarrow> bool" where
  "idle nd \<longleftrightarrow> nd_taken nd = length (n_dispatched (co_p2p nd)) \<and> listeners (co_dispatcher nd) = [Some [], Some []]"

lemma bans_ok_append [simp]: "bans_ok (q @ q') \<longleftrightarrow> bans_ok q \<and> bans_ok q'"
  by (auto simp: bans_ok_def)

lemma bans_ok_simps [simp]:
  "bans_ok []" "bans_ok (Send pid m # q) = bans_ok q" "bans_ok (Height h # q) = bans_ok q"
  "bans_ok (Bind a # q) = bans_ok q" "bans_ok (Broadcast m # q) = bans_ok q"
  "bans_ok (Ban pid k # q) \<longleftrightarrow> k = BAN \<and> bans_ok q"
  by (auto simp: bans_ok_def)

section \<open>Channels\<close>

lemma channels_grow:
  assumes "channels_ok nd" "grows (co_p2p nd) n" "co_dispatcher nd' = co_dispatcher nd" "nd_taken nd' = nd_taken nd"
    "nd_download_seen nd' = nd_download_seen nd" "nd_ping_seen nd' = nd_ping_seen nd" "co_p2p nd' = n"
  shows "channels_ok nd'"
  using assms unfolding channels_ok_def grows_def Let_def by auto

lemma dispatcher_channels:
  assumes "channels_ok nd"
  shows "channels_ok (dispatcher_thread nd)"
proof (cases "drop (nd_taken nd) (n_dispatched (co_p2p nd))")
  case Nil
  then show ?thesis using assms by (simp add: dispatcher_thread_def)
next
  case (Cons pm rest)
  then have l: "nd_taken nd < length (n_dispatched (co_p2p nd))" by (metis drop_eq_Nil leI list.distinct(1))
  have "pm = n_dispatched (co_p2p nd) ! nd_taken nd" using Cons l by (metis hd_drop_conv_nth list.sel(1))
  then have "take (Suc (nd_taken nd)) (n_dispatched (co_p2p nd)) = take (nd_taken nd) (n_dispatched (co_p2p nd)) @ [pm]"
    using l by (simp add: take_Suc_conv_app_nth)
  then show ?thesis
    using assms l Cons
    by (auto simp: dispatcher_thread_def channels_ok_def Let_def Dispatcher_forward_def PeerMessageSender_send_def)
qed

lemma recv_channels:
  assumes "channels_ok nd" "channel_recv i (co_dispatcher nd) = Some (msg, disp)"
  shows "i = 0 \<Longrightarrow> channels_ok (nd\<lparr>co_dispatcher := disp, nd_download_seen := nd_download_seen nd @ [msg]\<rparr>)"
    "i = 1 \<Longrightarrow> channels_ok (nd\<lparr>co_dispatcher := disp, nd_ping_seen := nd_ping_seen nd @ [msg]\<rparr>)"
    "i \<le> 1 \<Longrightarrow> msg \<in> set (n_dispatched (co_p2p nd))"
proof -
  obtain c d where cd: "listeners (co_dispatcher nd) = [Some c, Some d]"
    "nd_download_seen nd @ c = take (nd_taken nd) (n_dispatched (co_p2p nd))"
    "nd_ping_seen nd @ d = take (nd_taken nd) (n_dispatched (co_p2p nd))"
    using assms(1) by (auto simp: channels_ok_def Let_def)
  then have "set c \<union> set d \<subseteq> set (n_dispatched (co_p2p nd))"
    using set_take_subset [of "nd_taken nd" "n_dispatched (co_p2p nd)"] by (metis Un_least le_sup_iff set_append)
  then show "i \<le> 1 \<Longrightarrow> msg \<in> set (n_dispatched (co_p2p nd))"
    using assms(2) cd(1) by (auto simp: channel_recv_def le_Suc_eq split: list.splits if_splits)
  show "i = 0 \<Longrightarrow> channels_ok (nd\<lparr>co_dispatcher := disp, nd_download_seen := nd_download_seen nd @ [msg]\<rparr>)"
    "i = 1 \<Longrightarrow> channels_ok (nd\<lparr>co_dispatcher := disp, nd_ping_seen := nd_ping_seen nd @ [msg]\<rparr>)"
    using assms cd by (auto simp: channel_recv_def channels_ok_def Let_def split: list.splits if_splits)
qed

section \<open>The modules\<close>

text \<open>What a module adds to the control channel.\<close>

definition only_asks :: "control_queue \<Rightarrow> control_queue \<Rightarrow> bool" where
  "only_asks q q' \<longleftrightarrow> (\<exists>r. q' = q @ r \<and> bans_ok r)"

lemma only_asks_simps [simp]: "only_asks q q" "only_asks q (q @ r) \<longleftrightarrow> bans_ok r"
  by (auto simp: only_asks_def)

lemma only_asks_trans: "only_asks q q' \<Longrightarrow> only_asks q' q'' \<Longrightarrow> only_asks q q''"
  by (auto simp: only_asks_def)

lemma only_asksD: "only_asks q q' \<Longrightarrow> set q \<subseteq> set q'" "only_asks q q' \<Longrightarrow> bans_ok q \<Longrightarrow> bans_ok q'"
  by (auto simp: only_asks_def)

lemma headers_loop_asks:
  "headers_loop A X D pid d p queue = Some (d', p', r) \<Longrightarrow> only_asks (hd_p2p d) (hd_p2p d')"
proof (induction A X D pid d p queue rule: headers_loop.induct)
  case (1 A X D pid d p queue)
  show ?case
  proof (cases "queue = []")
    case True
    then show ?thesis using 1(2) by (simp add: headers_loop.simps)
  next
    case False
    obtain cd q e where L: "add_loop A X (hd_chaindb d) (p\<lparr>pr_disconnected := [], pr_connected := []\<rparr>) queue = Some (cd, q, e)"
      using 1(2) False by (auto simp: headers_loop.simps [of _ _ _ _ d] split: option.splits)
    obtain cd2 b where b: "ChainDB_batch A cd = (cd2, b)" by (cases "ChainDB_batch A cd")
    show ?thesis
      using 1(2) False L b 1(1) [OF False L refl refl _ b [symmetric]]
      by (auto simp: headers_loop.simps [of _ _ _ _ d] P2PControlSender_ban_def P2PControlSender_send_def
          split: loop_exit.splits outcome.splits)
  qed
qed

lemma get_headers_asks:
  "HeaderDownload_get_headers checks now d pid = (d', r) \<Longrightarrow> only_asks (hd_p2p d) (hd_p2p d')"
  by (auto simp: HeaderDownload_get_headers_def Let_def P2PControlSender_send_network_def P2PControlSender_send_def
      split: if_splits outcome.splits)

lemma headers_asks:
  assumes "HeaderDownload_headers checks now A X D d hs pid = Some (d', r)"
  shows "only_asks (hd_p2p d) (hd_p2p d')"
proof -
  have L: "only_asks (hd_p2p d) (hd_p2p d2)"
    if "headers_loop A X D pid (d\<lparr>hd_timeout := t\<rparr>) p hs = Some (d2, p2, r2)" for t p d2 p2 r2
    using headers_loop_asks [OF that] by simp
  have H: "only_asks (hd_p2p d) (hd_p2p d2 @ [Height h])"
    if "headers_loop A X D pid (d\<lparr>hd_timeout := t\<rparr>) p hs = Some (d2, p2, r2)" for t p d2 p2 r2 h
    using only_asks_trans [OF L [OF that]] by simp
  have G: "only_asks (hd_p2p d) (hd_p2p d3)" "only_asks (hd_p2p d) (hd_p2p d3 @ [Height h])"
    if "headers_loop A X D pid (d\<lparr>hd_timeout := t\<rparr>) p hs = Some (d2, p2, r2)"
      "HeaderDownload_get_headers checks now d2 pid = (d3, r3)" for t p d2 p2 r2 d3 r3 h
    using only_asks_trans [OF L [OF that(1)] get_headers_asks [OF that(2)]] only_asks_trans by simp_all
  show ?thesis
    using assms L H G
    by (auto simp: HeaderDownload_headers_def Let_def P2PControlSender_send_def
        split: if_splits option.splits outcome.splits prod.splits)
qed

lemma message_asks:
  assumes "HeaderDownload_message checks now A X D n d msg = Some (d', r)"
  shows "only_asks (hd_p2p d) (hd_p2p d')"
  using assms get_headers_asks headers_asks
  by (auto simp: HeaderDownload_message_def HeaderDownload_inv_def
      split: PeerMessage.splits NetworkMessage.splits if_splits)

lemma ask_chaindb: "hd_chaindb (fst (HeaderDownload_get_headers checks now d pid)) = hd_chaindb d"
  by (simp add: HeaderDownload_get_headers_def Let_def split: outcome.splits)

text \<open>The handler of a message returns, and leaves the database consistent.\<close>

lemma message_safe:
  assumes ok: "db_ok A" "never_fails A" and d: "cd_inv A X (hd_chaindb d)" "to_inv (hd_timeout d)"
    and now: "unat now + 60 < 2 ^ 64" and hs: "\<And>pid hs h. msg = Incoming pid (Headers hs) \<Longrightarrow> h \<in> set hs \<Longrightarrow> prev_blockhash h \<noteq> 0"
  shows "\<exists>d' r. HeaderDownload_message checks now A X D n d msg = Some (d', r) \<and> cd_inv A X (hd_chaindb d')"
proof (cases "\<exists>pid hs. msg = Incoming pid (Headers hs) \<and> HeaderDownload_is_serving_blocks n pid")
  case True
  then obtain pid hs' where m: "msg = Incoming pid (Headers hs')" "HeaderDownload_is_serving_blocks n pid" by blast
  show ?thesis
    using headers_return [OF ok d now, of hs' checks D pid] hs [OF m(1)] m by (auto simp: HeaderDownload_message_def)
next
  case False
  have "\<exists>d' r. x = (d', r) \<and> cd_inv A X (hd_chaindb d')" if "hd_chaindb (fst x) = hd_chaindb d" for x :: "('a, 'b) HeaderDownload \<times> unit result"
    using that d(1) by (cases x) auto
  then show ?thesis
    using False ask_chaindb [of checks now d] d(1)
    by (auto simp: HeaderDownload_message_def HeaderDownload_inv_def split: PeerMessage.splits NetworkMessage.splits)
qed

lemma ping_message_bans: "ping_message checks now p msg = Ok p' \<Longrightarrow> ping_p2p p' = ping_p2p p"
  by (auto simp: ping_message_def Let_def obind_eq_Ok split: PeerMessage.splits NetworkMessage.splits if_splits)

lemma bans_of_list [simp]:
  "bans_ok (map (\<lambda>pid. Ban pid 100) pids)" "bans_ok (map (\<lambda>pid. Send pid (f pid)) pids)"
  by (auto simp: bans_ok_def)

lemma ping_round_bans_ok:
  assumes "to_inv (ping_timeout p)" "unat now + 60 < 2 ^ 64" "distinct (map fst (n_peers n))"
    "ping_round checks now rnd n p = Ok p'" "bans_ok (ping_p2p p)"
  shows "bans_ok (ping_p2p p')"
  using ping_round_spec [OF assms(1-3), of checks rnd] assms(4,5) by auto

section \<open>Steps\<close>

text \<open>
  The conditions under which runs are considered: an event carries a token that was given out, the operating
  system answers a registration with success or an error, and the clock has room for a timeout. The database
  stays consistent as long as no peer sends a header that claims to have no parent (\<open>parents_known\<close>): such
  a header is accepted as a second root of the tree.
\<close>

definition answers :: "os \<Rightarrow> bool" where
  "answers E \<longleftrightarrow> (\<forall>pid. os_register E pid \<noteq> Panicked \<and> os_reregister E pid \<noteq> Panicked)"

fun admissible :: "action \<Rightarrow> ('d, 's) Node \<Rightarrow> bool" where
  "admissible (Event E token ev) nd \<longleftrightarrow> token < n_next_peer_id (co_p2p nd) \<and> answers E"
| "admissible (KeepConnecting E rnd) nd \<longleftrightarrow> answers E"
| "admissible (Download now) nd \<longleftrightarrow> unat now + 60 < 2 ^ 64"
| "admissible (PingTake now) nd \<longleftrightarrow> unat now + 60 < 2 ^ 64"
| "admissible (PingIdle now rnd) nd \<longleftrightarrow> unat now + 60 < 2 ^ 64"
| "admissible _ nd \<longleftrightarrow> True"

definition parents_known :: "NetworkMessage PeerMessage list \<Rightarrow> bool" where
  "parents_known ds \<longleftrightarrow> (\<forall>pid hs h. Incoming pid (Headers hs) \<in> set ds \<longrightarrow> h \<in> set hs \<longrightarrow> prev_blockhash h \<noteq> 0)"

lemma tasks_grow:
  "grows n (fst (poll_task pid (n, ts)))" "grows n (fst (expire_task pid (n, ts)))"
  "grows n (fst (spawn_peer E network source (n, ts)))"
proof -
  have w: "grows n (fst (poll_waiting pid addr (n, ts)))" for n ts pid addr
    using poll_finished_grows [of n pid addr]
    by (cases "poll_finished n pid addr") (auto simp: poll_waiting_def split: Async.splits)
  have f: "grows n (fst (task_failed pid (n, ts)))" for n ts pid
    by (simp add: task_failed_def handshake_timeout_def grows_remove)
  have h: "poll_handshake n pid addr = (n', r) \<Longrightarrow> grows n n'" for n pid addr n' r
    using poll_handshake_grows [of n pid addr] by simp
  have hw: "grows n (fst (poll_waiting pid addr' (n', ts)))" "grows n (fst (task_failed pid (n', ts)))"
    if "poll_handshake n pid addr = (n', r)" for n pid addr n' r ts addr'
    using grows_trans [OF h [OF that] w] grows_trans [OF h [OF that] f] by simp_all
  show p: "grows n (fst (poll_task pid (n, ts)))" for n pid ts
    using w h hw
    by (auto simp: poll_task_def split: option.splits task.splits prod.splits Async.splits outcome.splits)
  show "grows n (fst (expire_task pid (n, ts)))"
    using p hw by (auto simp: expire_task_def split: option.splits task.splits prod.splits Async.splits)
  obtain n' q r where a: "P2P_add_peer E n network source = (n', q, r)" by (rule prod_cases3)
  then have "grows n n'" using add_peer_grows [of n E network source] by simp
  then show "grows n (fst (spawn_peer E network source (n, ts)))"
    using a grows_trans [OF _ p] by (auto simp: spawn_peer_def split: outcome.splits)
qed

lemma set_tasks_ok:
  assumes "parts_ok checks C nd" "grows (co_p2p nd) (fst s)"
    "\<And>cfg. reachable_node checks C ''bitcoin'' 0 cfg (co_p2p nd) \<Longrightarrow> reachable_node checks C ''bitcoin'' 0 cfg (fst s)"
  shows "parts_ok checks C (set_tasks nd s)"
  using assms channels_grow [of nd "fst s" "set_tasks nd s"] by (auto simp: parts_ok_def set_tasks_def)

lemma p2p_ok:
  assumes "parts_ok checks C nd" "grows (co_p2p nd) n" "bans_ok q"
    "\<And>cfg. reachable_node checks C ''bitcoin'' 0 cfg (co_p2p nd) \<Longrightarrow> reachable_node checks C ''bitcoin'' 0 cfg n"
  shows "parts_ok checks C (nd\<lparr>co_p2p := n, co_control := q\<rparr>)" 
  using assms channels_grow [of nd n "nd\<lparr>co_p2p := n, co_control := q\<rparr>"] by (auto simp: parts_ok_def)

lemma parts_ok_inv: "parts_ok checks C nd \<Longrightarrow> node_inv 0 (co_p2p nd) \<and> scores_ok (co_p2p nd)"
  unfolding parts_ok_def using reachable_node_inv reachable_scores by blast

lemma event_ok:
  assumes "parts_ok checks C nd" "token < n_next_peer_id (co_p2p nd)"
    "event_step checks C E token ev nd = Some (nd', r)"
  shows "parts_ok checks C nd'"
proof (cases "P2P_is_listener (co_p2p nd) token")
  case (Some a)
  then have "nd' = set_tasks nd (spawn_peer E ''bitcoin'' (IncomingFrom token) (co_p2p nd, co_tasks nd))"
    using assms(3) by (simp add: event_step_def)
  then show ?thesis using set_tasks_ok [OF assms(1)] tasks_grow(3) spawn_peer_reachable by simp
next
  case None
  then obtain n where n: "poll_event checks E C (co_p2p nd) ''bitcoin'' 0 token ev = Some (n, r)" "nd' = nd\<lparr>co_p2p := n\<rparr>"
    using assms(3) by (auto simp: event_step_def)
  have "node_inv 0 (co_p2p nd)" "bans_ok (co_control nd)" using parts_ok_inv [OF assms(1)] assms(1) by (simp_all add: parts_ok_def)
  from p2p_ok [OF assms(1) poll_event_grows [OF this(1) n(1)] this(2) reachable_node.event [OF _ assms(2) n(1)]]
  show ?thesis using n(2) by (simp add: parts_ok_def channels_ok_def)
qed

lemma control_ok:
  assumes "parts_ok checks C nd"
  shows "parts_ok checks C (fst (control_thread checks E nd))"
proof (cases "co_control nd")
  case (Cons c cs)
  have b: "bans_ok cs" using assms Cons by (cases c) (auto simp: parts_ok_def)
  obtain n r where n: "control_step checks E (co_p2p nd) c = (n, r)" by (cases "control_step checks E (co_p2p nd) c")
  then have "grows (co_p2p nd) n" using control_grows [of "co_p2p nd" checks E c] by simp
  from p2p_ok [OF assms this b reachable_node.control [OF _ n]] show ?thesis using Cons n by (simp add: control_thread_def)
qed (simp add: control_thread_def assms)

lemma download_ok:
  assumes nd: "parts_ok checks C nd" "unat now + 60 < 2 ^ 64"
    and run: "download_thread checks A X D now nd = Some (nd', r)"
  shows "parts_ok checks C nd'"
proof (cases "channel_recv 0 (co_dispatcher nd)")
  case None
  then show ?thesis using nd run by (simp add: download_thread_def)
next
  case (Some md)
  obtain msg disp where r: "channel_recv 0 (co_dispatcher nd) = Some (msg, disp)" using Some by (cases md) auto
  have i: "one_each (hd_timeout (download_of nd))" "channels_ok nd" "bans_ok (hd_p2p (download_of nd))"
    using nd(1) by (simp_all add: parts_ok_def download_of_def)
  obtain d' s where d': "HeaderDownload_message checks now A X D (co_p2p nd) (download_of nd) msg = Some (d', s)"
    using run r by (auto simp: download_thread_def split: option.splits)
  show ?thesis
    using r d' message_one_each [OF i(1) nd(2) d'] only_asksD(2) [OF message_asks [OF d'] i(3)] nd(1) recv_channels(1) [OF i(2) r] run
    by (auto simp: download_thread_def parts_ok_def set_download_def channels_ok_def Let_def)
qed

text \<open>With headers that have a parent, the handler of the download ends and the database stays consistent.\<close>

lemma download_db:
  assumes ok: "db_ok A" "never_fails A" and nd: "node_ok checks C A X nd" "unat now + 60 < 2 ^ 64"
      "parents_known (n_dispatched (co_p2p nd))"
  shows "\<exists>nd' r. download_thread checks A X D now nd = Some (nd', r) \<and> cd_inv A X (co_chaindb nd')"
proof (cases "channel_recv 0 (co_dispatcher nd)")
  case None
  then show ?thesis using nd by (simp add: download_thread_def node_ok_def)
next
  case (Some md)
  obtain msg disp where r: "channel_recv 0 (co_dispatcher nd) = Some (msg, disp)" using Some by (cases md) auto
  have i: "cd_inv A X (hd_chaindb (download_of nd))" "to_inv (hd_timeout (download_of nd))" "channels_ok nd"
    using nd(1) by (simp_all add: node_ok_def parts_ok_def one_each_def download_of_def)
  have "prev_blockhash h \<noteq> 0" if "msg = Incoming pid (Headers hs)" "h \<in> set hs" for pid hs h
    using nd(3) recv_channels(3) [OF i(3) r] that unfolding parents_known_def by auto
  then obtain d' s where "HeaderDownload_message checks now A X D (co_p2p nd) (download_of nd) msg = Some (d', s)"
    "cd_inv A X (hd_chaindb d')" using message_safe [OF ok i(1,2) nd(2)] by metis
  then show ?thesis using r by (simp add: download_thread_def set_download_def)
qed

lemma ping_ok:
  assumes nd: "parts_ok checks C nd" "unat now + 60 < 2 ^ 64"
  shows "parts_ok checks C (fst (ping_thread checks now nd))"
proof (cases "channel_recv 1 (co_dispatcher nd)")
  case None
  then show ?thesis using nd by (simp add: ping_thread_def)
next
  case (Some md)
  obtain msg disp where r: "channel_recv 1 (co_dispatcher nd) = Some (msg, disp)" using Some by (cases md) auto
  have i: "one_each (ping_timeout (ping_of nd))" "channels_ok nd" using nd(1) by (simp_all add: parts_ok_def ping_of_def)
  define nd1 where "nd1 = nd\<lparr>co_dispatcher := disp, nd_ping_seen := nd_ping_seen nd @ [msg]\<rparr>"
  have 1: "channels_ok nd1" unfolding nd1_def by (rule recv_channels(2) [OF i(2) r refl])
  have same: "ping_of nd1 = ping_of nd" by (simp add: nd1_def ping_of_def)
  have ok1: "parts_ok checks C nd1" using nd(1) 1 by (simp add: parts_ok_def nd1_def)
  have "parts_ok checks C (set_ping nd1 p)" if p: "ping_message checks now (ping_of nd) msg = Ok p" for p
    using ok1 1 ping_message_one_each [OF i(1) nd(2) p] ping_message_bans [OF p]
    by (simp add: parts_ok_def set_ping_def channels_ok_def ping_of_def nd1_def)
  then show ?thesis using r ok1 same by (auto simp: ping_thread_def nd1_def [symmetric] split: outcome.splits)
qed

lemma ping_idle_ok:
  assumes nd: "parts_ok checks C nd" "unat now + 60 < 2 ^ 64"
  shows "parts_ok checks C (fst (ping_idle checks now rnd nd))"
proof -
  have i: "one_each (ping_timeout (ping_of nd))" "bans_ok (ping_p2p (ping_of nd))"
    using nd(1) by (simp_all add: parts_ok_def ping_of_def)
  then have t: "to_inv (ping_timeout (ping_of nd))" by (simp add: one_each_def)
  have d: "distinct (map fst (n_peers (co_p2p nd)))" using parts_ok_inv [OF nd(1)] by (simp add: node_inv_def)
  have "parts_ok checks C (set_ping nd p)" if p: "ping_round checks now rnd (co_p2p nd) (ping_of nd) = Ok p" for p
    using nd(1) ping_round_one_each [OF i(1) nd(2) d p] ping_round_bans_ok [OF t nd(2) d p i(2)]
    by (simp add: parts_ok_def set_ping_def channels_ok_def)
  then show ?thesis using nd(1) by (simp add: ping_idle_def split: outcome.splits)
qed

lemma download_idle_ok:
  assumes "parts_ok checks C nd"
  shows "parts_ok checks C (download_idle now nd)"
proof -
  have "one_each (fst (Timeout_check now (co_timeout nd) (co_control nd) [ExpectHeaders]))"
    using assms by (simp add: check_one_each parts_ok_def)
  then show ?thesis
    using assms
    by (simp add: parts_ok_def download_idle_def set_download_def HeaderDownload_tick_def download_of_def channels_ok_def
        Timeout_check_def send_bans Let_def)
qed

text \<open>Every step of the node keeps the invariant.\<close>

lemma node_step_parts:
  assumes nd: "parts_ok checks C nd" "admissible a nd"
    and run: "node_step checks C A X D a nd = Some (nd', r)"
  shows "parts_ok checks C nd'"
proof (cases a)
  case (Event E token ev)
  then show ?thesis using event_ok [OF nd(1), of token E ev nd' r] nd(2) run by simp
next
  case (Control E)
  then show ?thesis using control_ok [OF nd(1), of E] run by (cases "control_thread checks E nd") auto
next
  case Dispatch
  then show ?thesis
    using run nd(1) dispatcher_channels [of nd] by (auto simp: parts_ok_def dispatcher_thread_def split: list.splits)
next
  case (Download now)
  then show ?thesis using download_ok [OF nd(1), of now A X D nd' r] nd(2) run by simp
next
  case (DownloadIdle now)
  then show ?thesis using download_idle_ok [OF nd(1)] run by auto
next
  case (PingTake now)
  then show ?thesis using ping_ok [OF nd(1), of now] nd(2) run by (cases "ping_thread checks now nd") auto
next
  case (PingIdle now rnd)
  then show ?thesis using ping_idle_ok [OF nd(1), of now rnd] nd(2) run by (cases "ping_idle checks now rnd nd") auto
next
  case (KeepConnecting E rnd)
  have "grows (co_p2p nd) (fst (snd (KeepConnected_poll E rnd (nd_keep nd) (co_p2p nd, co_tasks nd))))"
    by (auto simp: KeepConnected_poll_def Let_def tasks_grow(3))
  moreover have "reachable_node checks C ''bitcoin'' 0 cfg (fst (snd (KeepConnected_poll E rnd (nd_keep nd) (co_p2p nd, co_tasks nd))))"
    if "reachable_node checks C ''bitcoin'' 0 cfg (co_p2p nd)" for cfg
    using that spawn_peer_reachable [of checks C _ 0 cfg "(co_p2p nd, co_tasks nd)"] by (auto simp: KeepConnected_poll_def Let_def)
  ultimately have "parts_ok checks C (set_tasks nd (snd (KeepConnected_poll E rnd (nd_keep nd) (co_p2p nd, co_tasks nd))))"
    by (rule set_tasks_ok [OF nd(1)])
  then show ?thesis using KeepConnecting run by (auto simp: keep_thread_def)
next
  case (PollTask pid)
  then show ?thesis using run set_tasks_ok [OF nd(1) tasks_grow(1)] poll_task_reachable(1) by auto
next
  case (ExpireTask pid)
  then show ?thesis using run set_tasks_ok [OF nd(1) tasks_grow(2)] poll_task_reachable(2) by auto
qed

text \<open>No step takes back what was dispatched, and only the download changes the database.\<close>

lemma node_step_grows:
  assumes "parts_ok checks C nd" "admissible a nd" "node_step checks C A X D a nd = Some (nd', r)"
  shows "grows (co_p2p nd) (co_p2p nd')"
proof (cases a)
  case (Event E token ev)
  have "node_inv 0 (co_p2p nd)" using parts_ok_inv [OF assms(1)] by simp
  then show ?thesis
    using Event assms(3) poll_event_grows [of 0 "co_p2p nd"] tasks_grow(3)
    by (auto simp: event_step_def set_tasks_def split: option.splits prod.splits)
next
  case (Control E)
  have "grows (co_p2p nd) n" if "control_step checks E (co_p2p nd) c = (n, r)" for c n
    using control_grows [of "co_p2p nd" checks E c] that by simp
  then show ?thesis using Control assms(3) by (auto simp: control_thread_def split: list.splits prod.splits)
next
  case (KeepConnecting E rnd)
  then show ?thesis
    using assms(3) tasks_grow(3) by (auto simp: keep_thread_def KeepConnected_poll_def set_tasks_def Let_def)
qed (use assms(3) tasks_grow(1,2) in \<open>auto simp: dispatcher_thread_def download_thread_def download_idle_def ping_thread_def
  ping_idle_def set_download_def set_ping_def set_tasks_def Let_def split: list.splits option.splits outcome.splits prod.splits\<close>)

lemma node_step_chaindb:
  assumes "node_step checks C A X D a nd = Some (nd', r)" "\<And>now. a \<noteq> Download now"
  shows "co_chaindb nd' = co_chaindb nd"
  using assms
  by (cases a) (auto simp: event_step_def control_thread_def keep_thread_def dispatcher_thread_def download_idle_def ping_thread_def
      ping_idle_def set_download_def set_ping_def set_tasks_def HeaderDownload_tick_def download_of_def Let_def
      split: list.splits option.splits outcome.splits prod.splits)

lemma node_step_ok:
  assumes ok: "db_ok A" "never_fails A" and nd: "node_ok checks C A X nd" "admissible a nd"
      "parents_known (n_dispatched (co_p2p nd))"
    and run: "node_step checks C A X D a nd = Some (nd', r)"
  shows "node_ok checks C A X nd'"
proof -
  have "cd_inv A X (co_chaindb nd')"
  proof (cases "\<exists>now. a = Download now")
    case True
    then obtain now where a: "a = Download now" by blast
    then show ?thesis using download_db [OF ok nd(1) _ nd(3), of now D] nd(2) run by auto
  next
    case False
    then show ?thesis using node_step_chaindb [OF run] nd(1) by (simp add: node_ok_def)
  qed
  then show ?thesis using node_step_parts [OF node_ok_parts [OF nd(1)] nd(2) run] by (simp add: node_ok_def)
qed

section \<open>Runs\<close>

text \<open>
  The states a node reaches from one. A step that panics is included with the state it leaves: the
  other threads may go on from there.
\<close>

inductive node_reaches ::
  "bool \<Rightarrow> codec \<Rightarrow> 'd db_api \<Rightarrow> ext \<Rightarrow> 's Downstream \<Rightarrow> ('d, 's) Node \<Rightarrow> ('d, 's) Node \<Rightarrow> bool"
  for checks C A X D nd where
  here: "node_reaches checks C A X D nd nd"
| step: "node_reaches checks C A X D nd nd1 \<Longrightarrow> admissible a nd1 \<Longrightarrow>
    node_step checks C A X D a nd1 = Some (nd2, r) \<Longrightarrow> node_reaches checks C A X D nd nd2"

lemma node_reaches_parts:
  assumes "node_reaches checks C A X D nd nd'" "parts_ok checks C nd"
  shows "parts_ok checks C nd'"
  using assms by (induction rule: node_reaches.induct) (auto intro: node_step_parts)

lemma node_reaches_grows:
  assumes "node_reaches checks C A X D nd nd'" "parts_ok checks C nd"
  shows "grows (co_p2p nd) (co_p2p nd')"
  using assms(1)
proof (induction rule: node_reaches.induct)
  case (step nd1 a nd2 r)
  have "parts_ok checks C nd1" by (rule node_reaches_parts [OF step.hyps(1) assms(2)])
  then show ?case using grows_trans [OF step.IH] node_step_grows [OF _ step.hyps(2,3)] by blast
qed simp

lemma node_reaches_ok:
  assumes ok: "db_ok A" "never_fails A" and nd: "node_reaches checks C A X D nd nd'" "node_ok checks C A X nd"
      "parents_known (n_dispatched (co_p2p nd'))"
  shows "node_ok checks C A X nd'"
  using nd(1,3)
proof (induction rule: node_reaches.induct)
  case here
  then show ?case using nd(2) by simp
next
  case (step nd1 a nd2 r)
  have "parts_ok checks C nd1" by (rule node_reaches_parts [OF step.hyps(1) node_ok_parts [OF nd(2)]])
  then have "grows (co_p2p nd1) (co_p2p nd2)" using node_step_grows [OF _ step.hyps(2,3)] by blast
  then have "parents_known (n_dispatched (co_p2p nd1))"
    using step.prems unfolding grows_def parents_known_def by (metis UnCI set_append)
  then show ?case using step.IH node_step_ok [OF ok _ step.hyps(2) _ step.hyps(3)] by blast
qed

text \<open>A schedule of admissible steps reaches its result.\<close>

lemma node_run_append:
  "node_run checks C A X D (as @ bs) nd =
     (case node_run checks C A X D as nd of Some (nd, Ok _) \<Rightarrow> node_run checks C A X D bs nd | r \<Rightarrow> r)"
  by (induction as arbitrary: nd) (auto split: option.splits prod.splits outcome.splits)

section \<open>Processing the control channel\<close>

lemma ban_full:
  assumes "scores_ok n"
  shows "\<exists>n'. P2P_ban checks n pid BAN = (n', Ok ()) \<and> peer n' pid = None \<and>
    (\<forall>q. q \<noteq> pid \<longrightarrow> (peer n' q = None) = (peer n q = None)) \<and>
    (peer n pid \<noteq> None \<longrightarrow> n_dispatched n' = n_dispatched n @ [Disconnected pid True])"
proof (cases "peer n pid")
  case None
  then show ?thesis by (simp add: P2P_ban_def)
next
  case (Some p)
  have p: "unat (p_ban p) < 100" using assms Some by (auto simp: scores_ok_def word_less_nat_alt)
  then have "(rust_add checks (p_ban p) 100 :: u32 result) = Ok (p_ban p + 100)" by (simp add: rust_add_Ok)
  moreover have "100 \<le> p_ban p + 100" using p by (simp add: word_le_nat_alt unat_word_ariths)
  ultimately show ?thesis using Some by (auto simp: P2P_ban_def Let_def)
qed

text \<open>No peer appears, and none disappears without being reported as banned.\<close>

definition only_bans :: "P2P \<Rightarrow> P2P \<Rightarrow> bool" where
  "only_bans n n' \<longleftrightarrow>
     (\<forall>q. peer n q = None \<longrightarrow> peer n' q = None) \<and>
     (\<forall>q. peer n q \<noteq> None \<longrightarrow> peer n' q \<noteq> None \<or> Disconnected q True \<in> set (n_dispatched n'))"

lemma only_bans_trans: "only_bans n n' \<Longrightarrow> only_bans n' n'' \<Longrightarrow> grows n' n'' \<Longrightarrow> only_bans n n''"
  unfolding only_bans_def grows_def by (metis UnI1 set_append)

lemma only_bans_dom: "dom (peer n') = dom (peer n) \<Longrightarrow> only_bans n n'"
  unfolding only_bans_def by (metis domIff)

lemma control_granted:
  assumes "scores_ok n" "grants E" "bans_ok [c]"
  shows "\<exists>n'. control_step checks E n c = (n', Ok ()) \<and> only_bans n n' \<and> (\<forall>pid. c = Ban pid BAN \<longrightarrow> peer n' pid = None)"
proof (cases c)
  case (Ban pid k)
  obtain n' where n': "P2P_ban checks n pid BAN = (n', Ok ())" "peer n' pid = None"
    "peer n pid \<noteq> None \<Longrightarrow> n_dispatched n' = n_dispatched n @ [Disconnected pid True]" "\<forall>q. q \<noteq> pid \<longrightarrow> (peer n' q = None) = (peer n q = None)"
    using ban_full [OF assms(1), of checks pid] by blast
  have "only_bans n n'" unfolding only_bans_def using n'(2-4) by (metis in_set_conv_decomp)
  then show ?thesis using n' Ban assms(3) by (auto simp: control_step_def)
next
  case (Send pid m)
  show ?thesis
  proof (cases "peer n pid")
    case (Some p)
    then obtain q where q: "Peer_send E p m = (q, Ok ())" using send_granted [OF assms(2)] by blast
    have "only_bans n (set_peer n pid q)" using Some by (intro only_bans_dom) (auto split: if_splits)
    then show ?thesis using Send Some q by (simp add: control_step_def)
  qed (simp add: Send control_step_def only_bans_dom)
next
  case (Broadcast m)
  have "snd (send_all E m ps) = Ok ()" for ps
  proof (induction ps)
    case (Cons x ps)
    then show ?case using send_granted [OF assms(2), of "snd x" m] by (cases x) (auto split: prod.splits)
  qed simp
  then obtain ps where ps: "send_all E m (n_peers n) = (ps, Ok ())" by (metis surjective_pairing)
  have "map fst ps = map fst (n_peers n)" using send_all_spec [of E m "n_peers n"] ps by simp
  then have "dom (map_of ps) = dom (peer n)" by (metis dom_map_of_conv_image_fst list.set_map)
  then show ?thesis using Broadcast ps by (simp add: control_step_def only_bans_dom)
next
  case (Bind a)
  have "peer (fst (P2P_add_listener E n a)) = peer n" by (auto simp: P2P_add_listener_def Let_def split: outcome.splits)
  then show ?thesis using Bind by (simp add: control_step_def only_bans_dom)
qed (simp add: control_step_def only_bans_dom)

text \<open>
  With an operating system that grants what it is asked, the control thread works through its channel
  without a panic, and every peer that was to be banned is gone.
\<close>

lemma control_drained:
  assumes "scores_ok (co_p2p nd)" "grants E" "bans_ok (co_control nd)"
  shows "\<exists>n. node_run checks C A X D (replicate (length (co_control nd)) (Control E)) nd =
      Some (nd\<lparr>co_p2p := n, co_control := []\<rparr>, Ok ()) \<and> grows (co_p2p nd) n \<and> only_bans (co_p2p nd) n \<and>
    (\<forall>pid. Ban pid BAN \<in> set (co_control nd) \<longrightarrow> peer n pid = None)"
  using assms
proof (induction "co_control nd" arbitrary: nd)
  case Nil
  then have "nd\<lparr>co_p2p := co_p2p nd, co_control := []\<rparr> = nd" by simp
  then show ?case using Nil by (auto simp: only_bans_dom intro!: exI [of _ "co_p2p nd"])
next
  case (Cons c cs)
  note q = Cons.hyps(2) [symmetric]
  have b: "bans_ok [c]" "bans_ok cs" using Cons.prems(3) bans_ok_append [of "[c]" cs] q by simp_all
  obtain n1 where n1: "control_step checks E (co_p2p nd) c = (n1, Ok ())" "only_bans (co_p2p nd) n1"
    "\<forall>pid. c = Ban pid BAN \<longrightarrow> peer n1 pid = None"
    using control_granted [OF Cons.prems(1,2) b(1), of checks] by blast
  have g: "grows (co_p2p nd) n1" using control_grows [of "co_p2p nd" checks E c] n1(1) by simp
  let ?nd = "nd\<lparr>co_p2p := n1, co_control := cs\<rparr>"
  obtain n where n: "node_run checks C A X D (replicate (length cs) (Control E)) ?nd =
      Some (?nd\<lparr>co_p2p := n, co_control := []\<rparr>, Ok ())" "grows n1 n" "only_bans n1 n"
    "\<forall>pid. Ban pid BAN \<in> set cs \<longrightarrow> peer n pid = None"
    using Cons.hyps(1) [of ?nd] Cons.prems(2) b(2) scores_grow [OF g Cons.prems(1)] by auto
  have "node_run checks C A X D (replicate (length (co_control nd)) (Control E)) nd =
      Some (nd\<lparr>co_p2p := n, co_control := []\<rparr>, Ok ())"
    using n(1) n1(1) q by (simp add: control_thread_def)
  moreover have "peer n pid = None" if "Ban pid BAN \<in> set (co_control nd)" for pid
    using that n(3,4) n1(3) q unfolding only_bans_def by auto
  ultimately show ?case using grows_trans [OF g n(2)] only_bans_trans [OF n1(2) n(3,2)] by blast
qed

end
