(* ===== verification/Node_Properties.thy ===== *)
theory Node_Properties
  imports Node_Runs
begin

text \<open>
  Properties of the whole node, from the socket to the modules and back: what the modules see, and how a
  peer that misbehaves is removed.
\<close>

section \<open>A node to look at\<close>

definition sample_node :: "P2P \<Rightarrow> HeaderCache \<Rightarrow> (mem_db, notice list) Node" where
  "sample_node n hc =
     \<lparr>co_p2p = n, co_tasks = [], co_control = [], co_dispatcher = \<lparr>listeners = [Some [], Some []]\<rparr>,
      co_chaindb = sample_chain hc, co_timeout = Timeout_new, co_asked = Map.empty, co_downstream = [],
      nd_keep = \<lparr>kc_dns = [], kc_earlier = {}, kc_min_connections = 0\<rparr>, nd_taken = 0, nd_download_seen = [], nd_ping_seen = []\<rparr>"

lemma sample_node_simps:
  "co_p2p (sample_node n hc) = n" "co_control (sample_node n hc) = []" "co_timeout (sample_node n hc) = Timeout_new"
  "listeners (co_dispatcher (sample_node n hc)) = [Some [], Some []]" "nd_taken (sample_node n hc) = 0"
  "co_chaindb (sample_node n hc) = sample_chain hc" "cd_headercache (sample_chain hc) = hc"
  by (simp_all add: sample_node_def sample_chain_def)

lemma sample_node_ok:
  assumes "reachable_sample n"
  shows "node_ok True sample_codec mem_api sample_ext (sample_node n (sample_1 Bitcoin))"
proof -
  have "cd_inv mem_api sample_ext (sample_chain (sample_1 Bitcoin))" using sample_chain_inv sample_1_inv(1) by blast
  then show ?thesis
    using assms by (auto simp: node_ok_def parts_ok_def sample_node_def channels_ok_def one_each_def)
qed

section \<open>What the modules see\<close>

text \<open>
  C11. Whatever order the threads and tasks of the node run in, each module handles exactly what the network
  layer reported, in that order and nothing twice. So, where the handling of an event or of a control message is one
  step, a module that was told that a peer is gone is told nothing else of that peer.
\<close>
theorem modules_follow:
  assumes "parts_ok checks C nd" "node_reaches checks C A X D nd nd'" "seen \<in> {nd_download_seen nd', nd_ping_seen nd'}"
  shows "(\<exists>pending. n_dispatched (co_p2p nd') = seen @ pending) \<and>
    (\<forall>before pid b after. seen = before @ Disconnected pid b # after \<longrightarrow>
       (\<forall>m. Incoming pid m \<notin> set after) \<and> (\<forall>a. Connected pid a \<notin> set after))"
proof -
  have ok: "parts_ok checks C nd'" by (rule node_reaches_parts [OF assms(2,1)])
  obtain pending where p: "n_dispatched (co_p2p nd') = seen @ pending"
    using ok assms(3) unfolding parts_ok_def channels_ok_def Let_def by (metis append_assoc append_take_drop_id insertE singletonD)
  have "quiet (n_dispatched (co_p2p nd'))" using parts_ok_inv [OF ok] by (simp add: node_inv_def)
  then have "quiet seen" using p by (simp add: quiet_append)
  then have "pid \<notin> active after" if "seen = before @ Disconnected pid b # after" for before pid b after
    using that by (auto simp: quiet_append gone_def)
  then show ?thesis using p by (auto simp: active_def)
qed

theorem modules_follow_witness:
  "\<exists>nd nd' a. node_reaches True sample_codec mem_api sample_ext recorder nd nd' \<and> node_ok True sample_codec mem_api sample_ext nd \<and>
     nd_ping_seen nd' = [Connected (sample_pid 0) a] \<and>
     (\<exists>pending. n_dispatched (co_p2p nd') = nd_ping_seen nd' @ pending)"
proof -
  obtain n a where n: "reachable_sample n" "n_dispatched n = [Connected (sample_pid 0) a]" using run_1 by blast
  let ?nd = "sample_node n (sample_1 Bitcoin)"
  let ?S = "node_step True sample_codec mem_api sample_ext recorder"
  define nd1 where "nd1 = dispatcher_thread ?nd"
  have 1: "?S Dispatch ?nd = Some (nd1, Ok ())" by (simp add: nd1_def)
  have c1: "co_dispatcher nd1 = \<lparr>listeners = [Some [Connected (sample_pid 0) a], Some [Connected (sample_pid 0) a]]\<rparr>"
    "co_p2p nd1 = n" "nd_ping_seen nd1 = []"
    by (simp_all add: nd1_def dispatcher_thread_def sample_node_def n(2) Dispatcher_forward_def PeerMessageSender_send_def)
  obtain nd2 r where 2: "?S (PingTake 1000) nd1 = Some (nd2, r)" "nd_ping_seen nd2 = [Connected (sample_pid 0) a]"
    by (simp add: ping_thread_def channel_recv_def c1 ping_message_def set_ping_def Let_def)
  have "node_reaches True sample_codec mem_api sample_ext recorder ?nd nd1"
    by (rule node_reaches.step [OF node_reaches.here _ 1]) simp
  then have R: "node_reaches True sample_codec mem_api sample_ext recorder ?nd nd2"
    by (rule node_reaches.step [OF _ _ 2(1)]) simp
  have "\<exists>pending. n_dispatched (co_p2p nd2) = nd_ping_seen nd2 @ pending"
    using modules_follow [OF node_ok_parts [OF sample_node_ok [OF n(1)]] R, of "nd_ping_seen nd2"] by simp
  then show ?thesis using R sample_node_ok [OF n(1)] 2(2) by blast
qed

section \<open>Removing peers\<close>


definition serving_peer :: P2P where
  "serving_peer =
     (set_peer one_peer (sample_pid 1) ((Peer_new (sample_pid 1) True)\<lparr>p_version := is_version (Version sample_version),
        p_got_verack := True, p_connected := True\<rparr>))
     \<lparr>n_dispatched := [Incoming (sample_pid 1) (Headers [mk_header easy 2 1, mk_header easy 9 2])]\<rparr>"

lemma serving_peer_simps:
  "scores_ok serving_peer" "HeaderDownload_is_serving_blocks serving_peer (sample_pid 1)"
proof -
  have p: "peer serving_peer pid = (if pid = sample_pid 1
      then Some ((Peer_new (sample_pid 1) True)\<lparr>p_version := is_version (Version sample_version), p_got_verack := True, p_connected := True\<rparr>)
      else None)" for pid
    by (simp add: serving_peer_def set_peer_def one_peer_def update_conv')
  show "scores_ok serving_peer" by (auto simp: scores_ok_def p Peer_new_def)
  show "HeaderDownload_is_serving_blocks serving_peer (sample_pid 1)"
    by (simp add: HeaderDownload_is_serving_blocks_def P2PControlSender_peer_version_def p sample_version_def)
qed


section \<open>A ping too early\<close>

text \<open>
  The ping asks every peer of the map, also one whose handshake is not complete; and a node of this program that
  gets a ping during the handshake disconnects and bans the sender.
\<close>
theorem early_ping_bans:
  assumes "to_inv (ping_timeout p)" "unat now + 60 < 2 ^ 64" "distinct (map fst (n_peers n))"
    "peer n pid = Some q" "\<not> p_connected q" "\<not> Timeout_is_busy (ping_timeout p) pid"
    and "\<not> p_connected (r_peer s)" "\<not> (p_version (r_peer s) \<noteq> None \<and> p_got_verack (r_peer s))"
  shows "\<exists>p'. ping_round checks now rnd n p = Ok p' \<and> Send pid (NetworkMessage.Ping (rnd pid)) \<in> set (ping_p2p p') \<and>
    on_message cfg E needed (BitcoinP2PConfig_wrap c (NetworkMessage.Ping (rnd pid))) s = (s\<lparr>r_disconnect := True, r_ban := True\<rparr>, Ok False)"
proof -
  have "pid \<in> set (map fst (n_peers n))" using assms(4) by (force dest: map_of_SomeD)
  from ping_round_asks [OF assms(1-3) this assms(6), of checks rnd] show ?thesis
    using assms(7,8)
    by (auto simp: on_message_def BitcoinP2PConfig_unwrap_def BitcoinP2PConfig_wrap_def handshake_message_def reject_def)
qed

end
