(* ===== verification/Node_Tasks.thy ===== *)
theory Node_Tasks
  imports Node_Properties
begin

text \<open>
  The tasks that wait for peers (\<open>src/src/p2p.rs\<close>, the futures of \<open>add_peer\<close>): every peer of the map is watched
  by one, and a peer that does not complete the handshake in time is closed.
\<close>

section \<open>No new peers\<close>

text \<open>All operations but \<open>add_peer\<close> only change or remove peers, and none takes a connection back.\<close>

definition only_old :: "P2P \<Rightarrow> P2P \<Rightarrow> bool" where
  "only_old n n' \<longleftrightarrow>
     (\<forall>pid p'. peer n' pid = Some p' \<longrightarrow> (\<exists>p. peer n pid = Some p \<and> (p_connected p \<longrightarrow> p_connected p')))"

lemma only_old_refl [simp]: "only_old n n"
  by (simp add: only_old_def)

lemma only_old_trans: "only_old n n' \<Longrightarrow> only_old n' n'' \<Longrightarrow> only_old n n''"
  unfolding only_old_def by metis

lemma only_old_same: "peer n' = peer n \<Longrightarrow> only_old n n'"
  by (simp add: only_old_def)

lemma only_old_set:
  "peer n pid = Some p \<Longrightarrow> (p_connected p \<longrightarrow> p_connected q) \<Longrightarrow> only_old n (set_peer n pid q)"
  by (auto simp: only_old_def)

lemma only_old_remove [simp]: "only_old n (P2P_disconnect n pid b)" "only_old n (remove_peer n pid)"
  by (auto simp: only_old_def)

lemma ban_only_old: "only_old n (fst (P2P_ban checks n pid k))"
proof (cases "peer n pid")
  case (Some p)
  have "only_old n (set_peer n pid (p\<lparr>p_ban := b\<rparr>))" for b by (rule only_old_set [OF Some]) simp
  then show ?thesis
    using Some only_old_trans [OF _ only_old_remove(1)] by (auto simp: P2P_ban_def Let_def split: outcome.splits)
qed (simp add: P2P_ban_def)

lemma after_read_only_old: "only_old n (after_read n pid s)"
  using only_old_same [of "deliver (wake (P2P_connected n pid (r_address s)) pid) pid (r_incoming s)" n]
    only_old_same [of "deliver n pid (r_incoming s)" n]
  by (simp add: after_read_def Let_def)

lemma readable_only_old:
  assumes inv: "node_inv needed n" and run: "P2P_readable E C n pid needed ev = Some (n', r)"
  shows "only_old n n'"
proof (cases "peer n pid")
  case None
  then show ?thesis using run by (simp add: P2P_readable_def)
next
  case (Some p)
  then obtain s q where q: "on_readable (n_config n) (c_dec C) E needed p (ev_data ev) = Some (s, q)"
    and n': "n' = after_read (set_peer n pid (r_peer s)) pid s \<or> n' = set_peer n pid (r_peer s)"
    using run by (auto simp: P2P_readable_def Let_def split: option.splits prod.splits outcome.splits)
  have "only_old n (set_peer n pid (r_peer s))"
    using only_old_set [OF Some] on_readable_spec [OF node_invD(2) [OF inv Some] q] by blast
  then show ?thesis using n' after_read_only_old only_old_trans by blast
qed

lemma event_processor_only_old:
  assumes inv: "node_inv needed n" and run: "P2P_event_processor E C n ev pid needed = Some (n', r)"
  shows "only_old n n'"
proof (cases "ev_hup ev")
  case True
  then show ?thesis using run by (auto simp: P2P_event_processor_def)
next
  case False
  obtain n1 r1 where w: "(if ev_writable ev then on_writable E C n pid ev else Some (n, Ok ())) = Some (n1, r1)"
    and rest: "(n1, r1) = (n', r) \<or> P2P_readable E C n1 pid needed ev = Some (n', r)"
    using run False by (auto simp: P2P_event_processor_def split: option.splits outcome.splits if_splits)
  have i: "node_inv needed n1" "\<forall>q. map_option p_connected (peer n1 q) = map_option p_connected (peer n q)"
    using w on_writable_spec [OF inv] inv by (auto split: if_splits)
  have "\<exists>p. peer n q = Some p \<and> p_connected p = p_connected p'" if "peer n1 q = Some p'" for q p'
    using i(2) that by (cases "peer n q") (auto dest: spec [of _ q])
  then have "only_old n n1" unfolding only_old_def by blast
  then show ?thesis using rest readable_only_old [OF i(1)] only_old_trans by blast
qed

lemma poll_event_only_old:
  assumes inv: "node_inv needed n" and none: "P2P_is_listener n token = None"
    and run: "poll_event checks E C n network needed token ev = Some (n', r)"
  shows "only_old n n'"
proof -
  let ?pid = "\<lparr>pid_network = network, pid_token = token\<rparr>"
  obtain n1 r1 where e: "P2P_event_processor E C n ev ?pid needed = Some (n1, r1)"
    and res: "n' = n1 \<or> n' = fst (P2P_ban checks n1 ?pid 10)"
    using run none by (cases "P2P_event_processor E C n ev ?pid needed") (auto simp: poll_event_def split: outcome.splits)
  from only_old_trans [OF event_processor_only_old [OF inv e] ban_only_old] show ?thesis
    using res event_processor_only_old [OF inv e] by blast
qed

lemma control_only_old: "only_old n (fst (control_step checks E n c))"
proof (cases c)
  case (Send pid m)
  show ?thesis
  proof (cases "peer n pid")
    case (Some p)
    obtain q r where q: "Peer_send E p m = (q, r)" by (cases "Peer_send E p m")
    then have "p_connected q = p_connected p" using Peer_send_spec by (auto simp: frame)
    then show ?thesis using Send Some q only_old_set [OF Some] by (auto simp: control_step_def split: outcome.splits)
  qed (simp add: Send control_step_def)
next
  case (Broadcast m)
  obtain ps r where ps: "send_all E m (n_peers n) = (ps, r)" by (cases "send_all E m (n_peers n)")
  have "\<exists>p. map_of (n_peers n) pid = Some p \<and> p_connected p' = p_connected p" if "map_of ps pid = Some p'" for pid p'
    using send_all_spec [of E m "n_peers n"] that by (fastforce simp: ps frame)
  then show ?thesis using ps Broadcast by (fastforce simp: control_step_def only_old_def)
next
  case (Height h)
  then show ?thesis by (simp add: control_step_def only_old_same)
next
  case (Bind a)
  then show ?thesis
    by (auto simp: control_step_def P2P_add_listener_def Let_def split: outcome.splits intro!: only_old_same)
qed (simp add: control_step_def ban_only_old)

section \<open>Watched peers\<close>

text \<open>Every peer has a task; one that waits for the peer to go has seen the handshake complete.\<close>

definition watches :: "task option \<Rightarrow> Peer \<Rightarrow> bool" where
  "watches t p \<longleftrightarrow>
     (case t of None \<Rightarrow> False | Some (Connecting addr) \<Rightarrow> True | Some (Waiting addr) \<Rightarrow> p_connected p)"

definition watched :: "P2P \<Rightarrow> tasks \<Rightarrow> bool" where
  "watched n ts \<longleftrightarrow> (\<forall>pid p. peer n pid = Some p \<longrightarrow> watches (map_of ts pid) p)"

lemma watches_simps [simp]:
  "\<not> watches None p" "watches (Some (Connecting addr)) p" "watches (Some (Waiting addr)) p = p_connected p"
  by (simp_all add: watches_def)

lemma watches_mono: "watches t p \<Longrightarrow> (p_connected p \<Longrightarrow> p_connected q) \<Longrightarrow> watches t q"
  by (auto simp: watches_def split: option.splits task.splits)

lemma watchesE:
  assumes "watches t p"
  obtains addr where "t = Some (Connecting addr)" | addr where "t = Some (Waiting addr)" "p_connected p"
proof (cases t)
  case (Some u)
  then show ?thesis using assms that by (cases u) auto
qed (use assms in simp)

lemma watchedD: "watched n ts \<Longrightarrow> peer n pid = Some p \<Longrightarrow> watches (map_of ts pid) p"
  by (simp add: watched_def)

lemma watched_old: "watched n ts \<Longrightarrow> only_old n n' \<Longrightarrow> watched n' ts"
  unfolding watched_def only_old_def using watches_mono by blast

lemma watched_waiting:
  assumes "watched n ts" "peer n pid = None \<or> (\<exists>p. peer n pid = Some p \<and> p_connected p)"
  shows "watched (fst (poll_waiting pid addr (n, ts))) (snd (poll_waiting pid addr (n, ts)))"
  using assms by (auto simp: poll_waiting_def poll_finished_def watched_def update_conv' delete_conv')

lemma watched_failed:
  "watched n ts \<Longrightarrow> watched (fst (task_failed pid (n, ts))) (snd (task_failed pid (n, ts)))"
  by (auto simp: task_failed_def handshake_timeout_def watched_def delete_conv')

lemma handshake_poll_cases:
  obtains "poll_handshake n pid addr = (n\<lparr>n_waker := insert pid (n_waker n)\<rparr>, Pending)" "\<exists>p. peer n pid = Some p \<and> \<not> p_connected p"
  | "poll_handshake n pid addr = (n, Ready (Ok addr))" "\<exists>p. peer n pid = Some p \<and> p_connected p"
  | "poll_handshake n pid addr = (n, Ready (Err Handshake))" "peer n pid = None"
  by (cases "peer n pid") (auto simp: poll_handshake_def split: if_splits)

lemma watched_poll:
  assumes "watched n ts"
  shows "watched (fst (poll_task pid (n, ts))) (snd (poll_task pid (n, ts)))"
    "watched (fst (expire_task pid (n, ts))) (snd (expire_task pid (n, ts)))"
proof -
  have v: "watched (n\<lparr>n_waker := w\<rparr>) ts" for w using assms by (simp add: watched_def)
  have wait: "peer n pid = None \<or> (\<exists>p. peer n pid = Some p \<and> p_connected p)" if "map_of ts pid = Some (Waiting addr)" for addr
    using watchedD [OF assms, of pid] that by (cases "peer n pid") auto
  show p: "watched (fst (poll_task pid (n, ts))) (snd (poll_task pid (n, ts)))"
  proof (cases "map_of ts pid")
    case (Some t)
    show ?thesis
    proof (cases t)
      case (Connecting addr)
      show ?thesis
        by (rule handshake_poll_cases [of n pid addr])
          (use Some Connecting v watched_waiting [OF assms] watched_failed [OF assms] in \<open>auto simp: poll_task_def\<close>)
    next
      case (Waiting addr)
      then show ?thesis using Some watched_waiting [OF assms wait] by (simp add: poll_task_def)
    qed
  qed (simp add: poll_task_def assms)
  show "watched (fst (expire_task pid (n, ts))) (snd (expire_task pid (n, ts)))"
  proof (cases "map_of ts pid")
    case (Some t)
    show ?thesis
    proof (cases t)
      case (Connecting addr)
      show ?thesis
        by (rule handshake_poll_cases [of n pid addr])
          (use Some Connecting p watched_failed [OF v] in \<open>auto simp: expire_task_def\<close>)
    qed (use Some assms in \<open>simp add: expire_task_def\<close>)
  qed (simp add: expire_task_def assms)
qed

text \<open>A new peer gets its task, or is removed at once.\<close>

lemma add_peer_cases:
  assumes "answers E" "P2P_add_peer E n network source = (n', pid, r)"
  shows "only_old n n' \<or> (\<exists>addr. r = Ok addr) \<and> (\<forall>q p'. q \<noteq> pid \<longrightarrow> peer n' q = Some p' \<longrightarrow> peer n q = Some p')"
proof -
  define n1 where "n1 = n\<lparr>n_next_peer_id := n_next_peer_id n + 1\<rparr>"
  define pid1 where "pid1 = \<lparr>pid_network = network, pid_token = n_next_peer_id n\<rparr>"
  obtain v n2 r2 where c: "P2P_connect E n1 v pid1 source = (n2, r2)"
    and res: "(n', pid, r) = (case r2 of Err e \<Rightarrow> (remove_peer n2 pid1, pid1, Err e) | _ \<Rightarrow> (n2, pid1, r2))"
    using assms(2) by (auto simp: P2P_add_peer_def Let_def n1_def pid1_def split: prod.splits outcome.splits)
  have i: "r2 \<noteq> Panicked \<and> (\<exists>p. n2 = set_peer n1 pid1 p)" if I: "install_peer E n1 v pid1 out addr = (n2, r2)" for out addr
  proof -
    have e: "map_err error_from_io (os_reregister E q) \<noteq> Panicked" "map_err error_from_io (os_register E q) \<noteq> Panicked" for q
      using assms(1) by (cases "os_reregister E q"; cases "os_register E q"; auto simp: answers_def)+
    show ?thesis
      using I e assms(1) install_peer_spec [OF I]
      by (auto simp: install_peer_def Let_def Peer_register_write_def Peer_register_read_def Peer_send_def
          Peer_reregister_write_def answers_def split: if_splits outcome.splits prod.splits)
  qed
  have n1: "peer n1 = peer n" by (simp add: n1_def)
  show ?thesis
  proof (cases "\<exists>out addr. install_peer E n1 v pid1 out addr = (n2, r2)")
    case True
    then obtain p where p: "r2 \<noteq> Panicked" "n2 = set_peer n1 pid1 p" using i by blast
    show ?thesis
    proof (cases r2)
      case (Err e)
      then have "n' = remove_peer n2 pid1" using res by simp
      then have "peer n' = (peer n)(pid1 := None)" using p(2) n1 by auto
      then have "only_old n n'" unfolding only_old_def by (metis fun_upd_apply option.distinct(1))
      then show ?thesis ..
    qed (use p res n1 in auto)
  next
    case False
    then have "peer n2 = peer n"
      using c n1 by (auto simp: P2P_connect_def split: PeerSource.splits outcome.splits if_splits)
    then have "only_old n n2" by (rule only_old_same)
    moreover have "n' = n2 \<or> n' = remove_peer n2 pid1" using res by (cases r2) auto
    ultimately show ?thesis using only_old_trans [OF _ only_old_remove(2)] by blast
  qed
qed

lemma watched_spawn:
  assumes "watched n ts" "answers E"
  shows "watched (fst (spawn_peer E network source (n, ts))) (snd (spawn_peer E network source (n, ts)))"
proof -
  obtain n' pid r where a: "P2P_add_peer E n network source = (n', pid, r)" by (rule prod_cases3)
  have u: "watched n' (AList.update pid (Connecting addr) ts)"
    if "\<And>q p'. q \<noteq> pid \<Longrightarrow> peer n' q = Some p' \<Longrightarrow> \<exists>p. peer n q = Some p \<and> (p_connected p \<longrightarrow> p_connected p')" for addr
    using assms(1) that watches_mono unfolding watched_def by (simp add: update_conv') blast
  from add_peer_cases [OF assms(2) a] show ?thesis
  proof
    assume o: "only_old n n'"
    then have "watched n' (AList.update pid (Connecting addr) ts)" for addr by (intro u) (auto simp: only_old_def)
    then show ?thesis using a watched_old [OF assms(1) o] watched_poll(1) by (auto simp: spawn_peer_def split: outcome.splits)
  next
    assume "(\<exists>addr. r = Ok addr) \<and> (\<forall>q p'. q \<noteq> pid \<longrightarrow> peer n' q = Some p' \<longrightarrow> peer n q = Some p')"
    then show ?thesis using a u watched_poll(1) by (auto simp: spawn_peer_def)
  qed
qed

lemma watched_step:
  assumes "parts_ok checks C nd" "watched (co_p2p nd) (co_tasks nd)" "admissible a nd"
    "node_step checks C A X D a nd = Some (nd', r)"
  shows "watched (co_p2p nd') (co_tasks nd')"
proof (cases a)
  case (Event E token ev)
  show ?thesis
  proof (cases "P2P_is_listener (co_p2p nd) token")
    case None
    then obtain n where n: "poll_event checks E C (co_p2p nd) ''bitcoin'' 0 token ev = Some (n, r)" "nd' = nd\<lparr>co_p2p := n\<rparr>"
      using assms(4) Event by (auto simp: event_step_def)
    have "node_inv 0 (co_p2p nd)" using parts_ok_inv [OF assms(1)] by simp
    from watched_old [OF assms(2) poll_event_only_old [OF this None n(1)]] show ?thesis using n(2) by simp
  next
    case (Some l)
    then show ?thesis
      using assms(3,4) Event watched_spawn [OF assms(2), of E] by (auto simp: event_step_def set_tasks_def)
  qed
next
  case (Control E)
  then show ?thesis
    using assms(2,4) watched_old [OF assms(2) control_only_old [of "co_p2p nd" checks E]]
    by (auto simp: control_thread_def split: list.splits prod.splits) (metis fst_conv)
next
  case Dispatch
  then show ?thesis using assms(2,4) by (auto simp: dispatcher_thread_def split: list.splits)
next
  case (Download now)
  then show ?thesis using assms(2,4) by (auto simp: download_thread_def set_download_def split: option.splits)
next
  case (DownloadIdle now)
  then show ?thesis using assms(2,4) by (auto simp: download_idle_def set_download_def)
next
  case (PingTake now)
  then show ?thesis
    using assms(2,4) by (auto simp: ping_thread_def set_ping_def Let_def split: option.splits prod.splits outcome.splits)
next
  case (PingIdle now rnd)
  then show ?thesis using assms(2,4) by (auto simp: ping_idle_def set_ping_def split: outcome.splits)
next
  case (KeepConnecting E rnd)
  then show ?thesis
    using assms(2,3,4) watched_spawn [OF assms(2), of E]
    by (auto simp: keep_thread_def set_tasks_def KeepConnected_poll_def Let_def split: if_splits)
next
  case (PollTask pid)
  then show ?thesis using assms(4) watched_poll(1) [OF assms(2)] by (auto simp: set_tasks_def)
next
  case (ExpireTask pid)
  then show ?thesis using assms(4) watched_poll(2) [OF assms(2)] by (auto simp: set_tasks_def)
qed

lemma node_reaches_watched:
  assumes "node_reaches checks C A X D nd nd'" "parts_ok checks C nd" "watched (co_p2p nd) (co_tasks nd)"
  shows "watched (co_p2p nd') (co_tasks nd')"
  using assms
proof (induction rule: node_reaches.induct)
  case (step nd1 a nd2 r)
  then show ?case using watched_step [OF node_reaches_parts [OF step.hyps(1)]] by blast
qed simp

text \<open>
  C13. Every peer is watched: in whatever order the node runs, each peer of the map has a task. When the time for
  the handshake has passed, that task removes a peer that has not completed it and closes its socket, and
  leaves one that has alone; and the task of a peer that is gone ends when it is polled. (Whether it is polled again
  depends on its being woken, which \<open>wakeup_lost\<close> is about.)
\<close>
theorem handshake_expires:
  assumes "parts_ok checks C nd" "watched (co_p2p nd) (co_tasks nd)" "node_reaches checks C A X D nd nd'"
  shows "\<exists>nd''. node_step checks C A X D (ExpireTask pid) nd' = Some (nd'', Ok ()) \<and>
    (case peer (co_p2p nd') pid of
       Some p \<Rightarrow>
         if p_connected p then peer (co_p2p nd'') pid = Some p \<and> map_of (co_tasks nd'') pid \<noteq> None
         else peer (co_p2p nd'') pid = None \<and> map_of (co_tasks nd'') pid = None \<and> pid \<in> set (n_closed (co_p2p nd''))
     | None \<Rightarrow> \<exists>nd3. node_step checks C A X D (PollTask pid) nd' = Some (nd3, Ok ()) \<and> map_of (co_tasks nd3) pid = None)"
proof -
  have w: "watched (co_p2p nd') (co_tasks nd')" by (rule node_reaches_watched [OF assms(3,1,2)])
  show ?thesis
  proof (cases "peer (co_p2p nd') pid")
    case None
    then show ?thesis
      by (auto simp: set_tasks_def poll_task_def poll_waiting_def poll_finished_def poll_handshake_def task_failed_def
          delete_conv' split: option.splits task.splits)
  next
    case (Some p)
    show ?thesis
      by (rule watchesE [OF watchedD [OF w Some]])
        (use Some in \<open>auto simp: set_tasks_def expire_task_def poll_handshake_def task_failed_def handshake_timeout_def
          remove_peer_def poll_task_def poll_waiting_def poll_finished_def delete_conv' update_conv'\<close>)
  qed
qed

lemma sample_watched:
  "\<exists>nd :: (mem_db, notice list) Node. node_ok True sample_codec mem_api sample_ext nd \<and> watched (co_p2p nd) (co_tasks nd) \<and>
     (\<exists>p. peer (co_p2p nd) (sample_pid 0) = Some p \<and> \<not> p_connected p)"
proof -
  obtain p where p: "peer run_0 (sample_pid 0) = Some p" "same_but_queue (Peer_new (sample_pid 0) True) p" using run_0(6) by blast
  have "watched (P2P_new sample_cfg) []" by (simp add: watched_def P2P_new_def)
  let ?nd = "(sample_node run_0 (sample_1 Bitcoin))\<lparr>co_tasks := [(sample_pid 0, Connecting sample_addr)]\<rparr>"
  have only: "peer run_0 pid = None" if "pid \<noteq> sample_pid 0" for pid
    using that by (auto simp: run_0_def P2P_add_peer_def P2P_connect_def ip_connected_def P2P_new_def sample_os_def
        install_peer_def Peer_register_write_def Peer_send_def Peer_reregister_write_def set_peer_def sample_pid_def Let_def)
  have "node_ok True sample_codec mem_api sample_ext ?nd"
    using sample_node_ok [OF run_0(1)] by (simp add: node_ok_def parts_ok_def channels_ok_def)
  moreover have "watched (co_p2p ?nd) (co_tasks ?nd)"
    using only by (auto simp: watched_def sample_node_simps split: option.splits)
  moreover have "\<not> p_connected p" using p(2) by (simp add: frame Peer_new_def)
  ultimately show ?thesis using p(1) by (intro exI [of _ ?nd]) (simp add: sample_node_simps)
qed

theorem handshake_expires_witness:
  "\<exists>(nd :: (mem_db, notice list) Node) nd' p. node_ok True sample_codec mem_api sample_ext nd \<and>
     peer (co_p2p nd) (sample_pid 0) = Some p \<and> \<not> p_connected p \<and>
     node_step True sample_codec mem_api sample_ext recorder (ExpireTask (sample_pid 0)) nd = Some (nd', Ok ()) \<and>
     peer (co_p2p nd') (sample_pid 0) = None"
proof -
  obtain nd :: "(mem_db, notice list) Node" and p where nd: "node_ok True sample_codec mem_api sample_ext nd" "watched (co_p2p nd) (co_tasks nd)"
    "peer (co_p2p nd) (sample_pid 0) = Some p" "\<not> p_connected p" using sample_watched by blast
  show ?thesis
    using handshake_expires [OF node_ok_parts [OF nd(1)] nd(2) node_reaches.here, of mem_api sample_ext recorder "sample_pid 0"] nd by auto
qed

end
