(* ===== verification/Node_Silence.thy ===== *)
theory Node_Silence
  imports Node_Tasks
begin

text \<open>
  A peer from which nothing is heard (\<open>src/src/ping.rs\<close>, \<open>src/src/timeout.rs\<close>): it is asked for a pong and, whatever
  the other threads and the other peers do, banned by the first round of the ping after its time has run out.
  A peer that leaves the ping unanswered but keeps sending headers is not.
\<close>

section \<open>Peers that are gone\<close>

text \<open>An identity that was given out is not given out again: a peer that is gone does not return.\<close>

definition no_return :: "P2P \<Rightarrow> P2P \<Rightarrow> bool" where
  "no_return n n' \<longleftrightarrow>
     n_next_peer_id n \<le> n_next_peer_id n' \<and>
     (\<forall>pid. pid_token pid < n_next_peer_id n \<longrightarrow> peer n pid = None \<longrightarrow> peer n' pid = None)"

lemma no_return_refl [simp]: "no_return n n"
  by (simp add: no_return_def)

lemma no_return_trans: "no_return n n' \<Longrightarrow> no_return n' n'' \<Longrightarrow> no_return n n''"
  unfolding no_return_def by (meson le_trans less_le_trans)

lemma no_return_old: "only_old n n' \<Longrightarrow> n_next_peer_id n \<le> n_next_peer_id n' \<Longrightarrow> no_return n n'"
  unfolding no_return_def only_old_def by (metis option.distinct(1) option.exhaust)

lemma poll_event_no_return:
  assumes "node_inv needed n" "token < n_next_peer_id n" "P2P_is_listener n token = None"
    "poll_event checks E C n network needed token ev = Some (n', r)"
  shows "no_return n n'"
proof -
  let ?pid = "\<lparr>pid_network = network, pid_token = token\<rparr>"
  obtain n1 r1 where e: "P2P_event_processor E C n ev ?pid needed = Some (n1, r1)"
    and res: "n' = n1 \<or> n' = fst (P2P_ban checks n1 ?pid 10)"
    using assms(3,4) by (cases "P2P_event_processor E C n ev ?pid needed") (auto simp: poll_event_def split: outcome.splits)
  have i: "node_inv needed n1" "n_next_peer_id n1 = n_next_peer_id n"
    using event_processor_spec [OF assms(1) _ e] assms(2) by simp_all
  have "n_next_peer_id (fst (P2P_ban checks n1 ?pid 10)) = n_next_peer_id n1"
    using ban_spec [OF i(1) surjective_pairing] by blast
  then have "n_next_peer_id n' = n_next_peer_id n" using res i(2) by metis
  then show ?thesis using no_return_old [OF poll_event_only_old [OF assms(1,3,4)]] by simp
qed

lemma control_no_return:
  assumes "node_inv needed n"
  shows "no_return n (fst (control_step checks E n c))"
proof (rule no_return_old [OF control_only_old])
  show "n_next_peer_id n \<le> n_next_peer_id (fst (control_step checks E n c))"
  proof (cases c)
    case (Ban pid k)
    have "n_next_peer_id (fst (P2P_ban checks n pid k)) = n_next_peer_id n"
      using ban_spec [OF assms surjective_pairing] by blast
    then show ?thesis using Ban by (simp add: control_step_def)
  qed (auto simp: control_step_def P2P_add_listener_def Let_def split: option.splits outcome.splits prod.splits)
qed

lemma poll_no_return:
  "no_return n (fst (poll_task pid (n, ts)))" "no_return n (fst (expire_task pid (n, ts)))"
  by (auto simp: no_return_def poll_task_def expire_task_def poll_waiting_def poll_finished_def poll_handshake_def task_failed_def
      handshake_timeout_def split: option.splits task.splits)

lemma spawn_no_return:
  assumes "node_inv needed n" "answers E"
  shows "no_return n (fst (spawn_peer E network source (n, ts)))"
proof -
  obtain n' pid r where a: "P2P_add_peer E n network source = (n', pid, r)" by (rule prod_cases3)
  note S = add_peer_spec [OF assms(1) a]
  have "no_return n n'"
    using add_peer_cases [OF assms(2) a]
  proof
    assume "only_old n n'"
    then show ?thesis using S by (intro no_return_old) simp_all
  next
    assume "(\<exists>addr. r = Ok addr) \<and> (\<forall>q p'. q \<noteq> pid \<longrightarrow> peer n' q = Some p' \<longrightarrow> peer n q = Some p')"
    then have "peer n' q = None" if "q \<noteq> pid" "peer n q = None" for q using that by (metis option.distinct(1) option.exhaust)
    moreover have "q \<noteq> pid" if "pid_token q < n_next_peer_id n" for q using that S by auto
    ultimately show ?thesis using S unfolding no_return_def by simp
  qed
  then show ?thesis using a no_return_trans [OF _ poll_no_return(1)] by (auto simp: spawn_peer_def split: outcome.splits)
qed

lemma step_no_return:
  assumes "parts_ok checks C nd" "admissible a nd" "node_step checks C A X D a nd = Some (nd', r)"
  shows "no_return (co_p2p nd) (co_p2p nd')"
proof (cases a)
  case (Event E token ev)
  have i: "node_inv 0 (co_p2p nd)" using parts_ok_inv [OF assms(1)] by simp
  show ?thesis
    using Event assms(2,3) poll_event_no_return [OF i, of token checks E C "''bitcoin''" ev] spawn_no_return [OF i, of E]
    by (auto simp: event_step_def set_tasks_def split: option.splits prod.splits)
next
  case (Control E)
  have "node_inv 0 (co_p2p nd)" using parts_ok_inv [OF assms(1)] by simp
  then have "no_return (co_p2p nd) n" if "control_step checks E (co_p2p nd) c = (n, r)" for c n
    using control_no_return [of 0 "co_p2p nd" checks E c] that by simp
  then show ?thesis using Control assms(3) by (auto simp: control_thread_def split: list.splits prod.splits)
next
  case (KeepConnecting E rnd)
  have "node_inv 0 (co_p2p nd)" using parts_ok_inv [OF assms(1)] by simp
  then show ?thesis
    using KeepConnecting assms(2,3) spawn_no_return [of 0 "co_p2p nd" E]
    by (auto simp: keep_thread_def KeepConnected_poll_def set_tasks_def Let_def)
qed (use assms(3) poll_no_return in \<open>auto simp: dispatcher_thread_def download_thread_def download_idle_def ping_thread_def
  ping_idle_def set_download_def set_ping_def set_tasks_def Let_def split: list.splits option.splits outcome.splits prod.splits\<close>)

section \<open>The entry of a silent peer\<close>

fun peer_of :: "'m PeerMessage \<Rightarrow> PeerId" where
  "peer_of (Incoming pid m) = pid"
| "peer_of (Connected pid a) = pid"
| "peer_of (Disconnected pid b) = pid"

text \<open>What the table has on a peer.\<close>

definition same_entry :: "PeerId \<Rightarrow> ExpectedReply Timeout \<Rightarrow> ExpectedReply Timeout \<Rightarrow> bool" where
  "same_entry pid t t' \<longleftrightarrow> owed t' pid = owed t pid \<and> deadline t' pid = deadline t pid"

lemma same_entry_refl [simp]: "same_entry pid t t"
  by (simp add: same_entry_def)

lemma same_entry_trans: "same_entry pid t t' \<Longrightarrow> same_entry pid t' t'' \<Longrightarrow> same_entry pid t t''"
  by (simp add: same_entry_def)

lemma received_entry:
  assumes "to_inv t" "unat now + 60 < 2 ^ 64" "q \<noteq> pid" "Timeout_received checks now t q n w = Ok t'"
  shows "same_entry pid t t'"
  using received_spec [OF assms(1,2), of checks q n w] assms(3,4) by (auto simp: same_entry_def)

lemma get_headers_entry:
  assumes "to_inv (hd_timeout d)" "unat now + 60 < 2 ^ 64" "q \<noteq> pid" "HeaderDownload_get_headers checks now d q = (d', r)"
  shows "same_entry pid (hd_timeout d) (hd_timeout d')"
proof (cases "Timeout_is_busy_with (hd_timeout d) q ExpectHeaders")
  case True
  then show ?thesis using assms(4) by (simp add: HeaderDownload_get_headers_def)
next
  case False
  then have "owed (hd_timeout d) q ExpectHeaders = 0" using busy_with_owed [OF assms(1)] by simp
  then obtain t where t: "Timeout_expect checks now (hd_timeout d) q 1 ExpectHeaders = Ok t"
    "same_entry pid (hd_timeout d) t"
    using expect_spec [OF assms(1,2), of q ExpectHeaders 1 checks] assms(3) by (auto simp: same_entry_def)
  then show ?thesis
    using assms(4) by (auto simp: HeaderDownload_get_headers_def Let_def split: if_splits outcome.splits)
qed

lemma headers_entry:
  assumes "one_each (hd_timeout d)" "unat now + 60 < 2 ^ 64" "q \<noteq> pid"
    "HeaderDownload_headers checks now A X D d hs q = Some (d', r)"
  shows "same_entry pid (hd_timeout d) (hd_timeout d')"
proof -
  have i: "to_inv (hd_timeout d)" using assms(1) by (simp add: one_each_def)
  obtain t where t: "Timeout_received checks now (hd_timeout d) q 1 ExpectHeaders = Ok t" "to_inv t"
    using replies.received_law [OF i assms(2), of checks q ExpectHeaders] by blast
  have e: "same_entry pid (hd_timeout d) t" by (rule received_entry [OF i assms(2,3) t(1)])
  have L: "hd_timeout d2 = t" if "headers_loop A X D q (d\<lparr>hd_timeout := t\<rparr>) p hs = Some (d2, p2, r2)" for p d2 p2 r2
    using headers_loop_table [OF that] by simp
  have G: "same_entry pid (hd_timeout d) (hd_timeout d3)"
    if "headers_loop A X D q (d\<lparr>hd_timeout := t\<rparr>) p hs = Some (d2, p2, r2)"
      "HeaderDownload_get_headers checks now d2 q = (d3, r3)" for p d2 p2 r2 d3 r3
    using same_entry_trans [OF e] get_headers_entry [OF _ assms(2,3) that(2)] L [OF that(1)] t(2) by simp
  show ?thesis
    using assms(4) t(1) e L G
    by (auto simp: HeaderDownload_headers_def Let_def split: if_splits option.splits outcome.splits prod.splits)
qed

lemma message_entry:
  assumes "one_each (hd_timeout d)" "unat now + 60 < 2 ^ 64" "peer_of msg \<noteq> pid"
    "HeaderDownload_message checks now A X D n d msg = Some (d', r)"
  shows "same_entry pid (hd_timeout d) (hd_timeout d')"
  using assms get_headers_entry [of d now _ pid] headers_entry [OF assms(1,2)]
  by (auto simp: HeaderDownload_message_def HeaderDownload_inv_def one_each_def
      split: PeerMessage.splits NetworkMessage.splits if_splits)

lemma ping_message_entry:
  assumes "to_inv (ping_timeout p)" "unat now + 60 < 2 ^ 64" "peer_of msg \<noteq> pid" "ping_message checks now p msg = Ok p'"
  shows "same_entry pid (ping_timeout p) (ping_timeout p')"
  using assms received_entry [OF assms(1,2)]
  by (auto simp: ping_message_def Let_def obind_eq_Ok same_entry_def split: PeerMessage.splits NetworkMessage.splits if_splits)

section \<open>Waiting for a pong\<close>

definition awaits_pong :: "ExpectedReply Timeout \<Rightarrow> PeerId \<Rightarrow> nat \<Rightarrow> bool" where
  "awaits_pong t pid d \<longleftrightarrow> deadline t pid = Some d \<and> 0 < owed t pid ExpectPong \<and> owed t pid ExpectHeaders = 0"

lemma awaits_same: "awaits_pong t pid d \<Longrightarrow> same_entry pid t t' \<Longrightarrow> awaits_pong t' pid d"
  by (simp add: awaits_pong_def same_entry_def)

text \<open>A round of the ping bans the peer, if its time is over, and leaves it alone otherwise.\<close>

lemma ping_round_awaits:
  assumes "to_inv (ping_timeout p)" "unat now + 60 < 2 ^ 64" "distinct (map fst (n_peers n))" "awaits_pong (ping_timeout p) pid d"
  shows "\<exists>p'. ping_round checks now rnd n p = Ok p' \<and> only_asks (ping_p2p p) (ping_p2p p') \<and>
    (if d < unat now then Ban pid BAN \<in> set (ping_p2p p') else awaits_pong (ping_timeout p') pid d)"
proof -
  let ?banned = "late_peers now (ping_timeout p) [ExpectPong]"
  define t where "t = fold (\<lambda>pid t. Timeout_forget t pid) ?banned (ping_timeout p)"
  obtain p' where p': "ping_round checks now rnd n p = Ok p'"
    "ping_p2p p' = ping_p2p p @ map (\<lambda>pid. Ban pid 100) ?banned @ map (\<lambda>pid. Send pid (NetworkMessage.Ping (rnd pid)))
      (filter (\<lambda>pid. \<not> Timeout_is_busy t pid) (map fst (n_peers n)))"
    "pinged now rnd (\<lambda>pid. pid \<in> set (map fst (n_peers n)) \<and> \<not> Timeout_is_busy t pid) (p\<lparr>ping_timeout := t\<rparr>) p'"
    using ping_round_spec [OF assms(1-3), of checks rnd] by (auto simp: t_def)
  have late: "pid \<in> set ?banned \<longleftrightarrow> d < unat now"
    using assms(4) by (simp add: late_peers_set [OF assms(1)] late_def awaits_pong_def)
  have "awaits_pong (ping_timeout p') pid d" if "\<not> d < unat now"
  proof -
    have "same_entry pid (ping_timeout p) t" using that late by (simp add: t_def same_entry_def forget_all_view fun_eq_iff)
    moreover have "Timeout_is_busy t pid" using awaits_same [OF assms(4) calculation] by (simp add: is_busy_deadline awaits_pong_def)
    then have "same_entry pid t (ping_timeout p')" using p'(3) by (auto simp: pinged_def same_entry_def dest!: spec [of _ pid])
    ultimately show ?thesis using awaits_same [OF assms(4)] same_entry_trans by blast
  qed
  moreover have "Ban pid BAN \<in> set (ping_p2p p')" if "d < unat now" using that late p'(2) by auto
  ultimately show ?thesis using p'(1,2) by simp
qed

lemma tick_awaits:
  assumes "to_inv (hd_timeout d)" "awaits_pong (hd_timeout d) pid k"
  shows "awaits_pong (hd_timeout (HeaderDownload_tick now d)) pid k"
proof -
  have "pid \<notin> set (late_peers now (hd_timeout d) [ExpectHeaders])"
    using assms(2) by (simp add: late_peers_set [OF assms(1)] late_def awaits_pong_def)
  then show "awaits_pong (hd_timeout (HeaderDownload_tick now d)) pid k"
    using assms(2) by (simp add: HeaderDownload_tick_def Timeout_check_def Let_def awaits_pong_def forget_all_view)
qed

lemma tick_queue: "set (hd_p2p d) \<subseteq> set (hd_p2p (HeaderDownload_tick now d))"
  by (simp add: HeaderDownload_tick_def Timeout_check_def Let_def send_bans)

text \<open>The peer is gone, is about to be banned, or the table waits for its pong.\<close>

definition doomed :: "PeerId \<Rightarrow> nat \<Rightarrow> ('d, 's) Node \<Rightarrow> bool" where
  "doomed pid d nd \<longleftrightarrow>
     peer (co_p2p nd) pid = None \<or> Ban pid BAN \<in> set (co_control nd) \<or> awaits_pong (co_timeout nd) pid d"

text \<open>The modules have handled nothing of the peer.\<close>

definition silent :: "PeerId \<Rightarrow> ('d, 's) Node \<Rightarrow> ('d, 's) Node \<Rightarrow> bool" where
  "silent pid nd nd' \<longleftrightarrow>
     (\<exists>ds ps. nd_download_seen nd' = nd_download_seen nd @ ds \<and> nd_ping_seen nd' = nd_ping_seen nd @ ps \<and>
        (\<forall>m\<in>set (ds @ ps). peer_of m \<noteq> pid))"

lemma download_doomed:
  assumes nd: "parts_ok checks C nd" "unat now + 60 < 2 ^ 64" "doomed pid d nd"
    and run: "download_thread checks A X D now nd = Some (nd', r)" "silent pid nd nd'"
  shows "doomed pid d nd'"
proof (cases "channel_recv 0 (co_dispatcher nd)")
  case None
  then show ?thesis using nd(3) run(1) by (simp add: download_thread_def)
next
  case (Some md)
  obtain msg disp where r: "channel_recv 0 (co_dispatcher nd) = Some (msg, disp)" using Some by (cases md) auto
  obtain e q where e: "HeaderDownload_message checks now A X D (co_p2p nd) (download_of nd) msg = Some (e, q)"
    "nd' = (set_download nd e)\<lparr>co_dispatcher := disp, nd_download_seen := nd_download_seen nd @ [msg]\<rparr>"
    using run(1) r by (auto simp: download_thread_def split: option.splits)
  have "peer_of msg \<noteq> pid" using run(2) e(2) by (auto simp: silent_def)
  moreover have "one_each (hd_timeout (download_of nd))" using nd(1) by (simp add: parts_ok_def download_of_def)
  ultimately have "same_entry pid (co_timeout nd) (hd_timeout e)"
    using message_entry [OF _ nd(2) _ e(1)] by (simp add: download_of_def)
  moreover have "set (co_control nd) \<subseteq> set (hd_p2p e)" using only_asksD(1) [OF message_asks [OF e(1)]] by (simp add: download_of_def)
  ultimately show ?thesis using nd(3) awaits_same by (auto simp: doomed_def e(2) set_download_def)
qed

lemma ping_doomed:
  assumes nd: "parts_ok checks C nd" "unat now + 60 < 2 ^ 64" "doomed pid d nd"
    and run: "ping_thread checks now nd = (nd', r)" "silent pid nd nd'"
  shows "doomed pid d nd'"
proof (cases "channel_recv 1 (co_dispatcher nd)")
  case None
  then show ?thesis using nd(3) run(1) by (simp add: ping_thread_def)
next
  case (Some md)
  obtain msg disp where r: "channel_recv 1 (co_dispatcher nd) = Some (msg, disp)" using Some by (cases md) auto
  define nd1 where "nd1 = nd\<lparr>co_dispatcher := disp, nd_ping_seen := nd_ping_seen nd @ [msg]\<rparr>"
  have same: "ping_of nd1 = ping_of nd" by (simp add: nd1_def ping_of_def)
  have n1: "doomed pid d nd1" using nd(3) by (simp add: doomed_def nd1_def)
  have "nd' = nd1 \<or> (\<exists>p. ping_message checks now (ping_of nd) msg = Ok p \<and> nd' = set_ping nd1 p)"
    using run(1) r same by (auto simp: ping_thread_def nd1_def [symmetric] split: outcome.splits)
  then show ?thesis
  proof (elim disjE exE conjE)
    fix p assume p: "ping_message checks now (ping_of nd) msg = Ok p" "nd' = set_ping nd1 p"
    have "peer_of msg \<noteq> pid" using run(2) p(2) by (auto simp: silent_def nd1_def set_ping_def)
    moreover have "to_inv (ping_timeout (ping_of nd))" using nd(1) by (simp add: parts_ok_def one_each_def ping_of_def)
    ultimately have "same_entry pid (co_timeout nd) (ping_timeout p)"
      using ping_message_entry [OF _ nd(2) _ p(1)] by (simp add: ping_of_def)
    moreover have "ping_p2p p = co_control nd" using ping_message_bans [OF p(1)] by (simp add: ping_of_def)
    ultimately show ?thesis using nd(3) awaits_same by (auto simp: doomed_def p(2) set_ping_def nd1_def)
  qed (simp add: n1)
qed

lemma ping_idle_doomed:
  assumes nd: "parts_ok checks C nd" "unat now + 60 < 2 ^ 64" "doomed pid d nd"
  shows "\<exists>nd'. ping_idle checks now rnd nd = (nd', Ok ()) \<and> doomed pid d nd' \<and> co_p2p nd' = co_p2p nd \<and>
    (peer (co_p2p nd) pid \<noteq> None \<longrightarrow> d < unat now \<longrightarrow> Ban pid BAN \<in> set (co_control nd'))"
proof -
  have t: "to_inv (ping_timeout (ping_of nd))" using nd(1) by (simp add: parts_ok_def one_each_def ping_of_def)
  have n: "distinct (map fst (n_peers (co_p2p nd)))" using parts_ok_inv [OF nd(1)] by (simp add: node_inv_def)
  obtain p where p: "ping_round checks now rnd (co_p2p nd) (ping_of nd) = Ok p" "only_asks (co_control nd) (ping_p2p p)"
    using ping_round_spec [OF t nd(2) n, of checks rnd] by (auto simp: ping_of_def)
  have w: "if d < unat now then Ban pid BAN \<in> set (ping_p2p p) else awaits_pong (ping_timeout p) pid d"
    if "awaits_pong (co_timeout nd) pid d"
    using ping_round_awaits [OF t nd(2) n, of pid d checks rnd] p(1) that by (simp add: ping_of_def)
  have "Ban pid BAN \<in> set (ping_p2p p)" if "Ban pid BAN \<in> set (co_control nd)" using only_asksD(1) [OF p(2)] that by blast
  then have "doomed pid d (set_ping nd p)"
    "peer (co_p2p nd) pid \<noteq> None \<Longrightarrow> d < unat now \<Longrightarrow> Ban pid BAN \<in> set (co_control (set_ping nd p))"
    using nd(3) w by (auto simp: doomed_def set_ping_def split: if_splits)
  then show ?thesis using p(1) by (auto simp: ping_idle_def set_ping_def)
qed

lemma control_doomed:
  assumes "parts_ok checks C nd" "doomed pid d nd" "control_thread checks E nd = (nd', r)"
    "peer (co_p2p nd) pid = None \<Longrightarrow> peer (co_p2p nd') pid = None"
  shows "doomed pid d nd'"
proof (cases "co_control nd")
  case Nil
  then show ?thesis using assms(2,3) by (simp add: control_thread_def)
next
  case (Cons c cs)
  obtain n where n: "control_step checks E (co_p2p nd) c = (n, r)" "nd' = nd\<lparr>co_p2p := n, co_control := cs\<rparr>"
    using Cons assms(3) by (auto simp: control_thread_def split: prod.splits)
  have "peer n pid = None" if "c = Ban pid BAN"
    using ban_full [of "co_p2p nd" checks pid] parts_ok_inv [OF assms(1)] n(1) that by (auto simp: control_step_def)
  then show ?thesis using assms(2,4) Cons by (auto simp: doomed_def n(2))
qed

lemma doomed_step:
  assumes nd: "parts_ok checks C nd" "admissible a nd" "doomed pid d nd" "pid_token pid < n_next_peer_id (co_p2p nd)"
    and run: "node_step checks C A X D a nd = Some (nd', r)" "silent pid nd nd'"
  shows "doomed pid d nd'"
proof -
  have stay: "peer (co_p2p nd) pid = None \<Longrightarrow> peer (co_p2p nd') pid = None"
    using step_no_return [OF nd(1,2) run(1)] nd(4) by (simp add: no_return_def)
  have same: ?thesis if "co_control nd' = co_control nd" "co_timeout nd' = co_timeout nd"
    using nd(3) stay that by (auto simp: doomed_def)
  show ?thesis
  proof (cases a)
    case (Control E)
    then show ?thesis using control_doomed [OF nd(1,3), of E nd' r] stay run(1) by simp
  next
    case (Download now)
    then show ?thesis using download_doomed [OF nd(1) _ nd(3) _ run(2), of now A X D r] nd(2) run(1) by simp
  next
    case (DownloadIdle now)
    have "to_inv (hd_timeout (download_of nd))" using nd(1) by (simp add: parts_ok_def one_each_def download_of_def)
    then have "awaits_pong (co_timeout nd) pid d \<Longrightarrow> awaits_pong (co_timeout nd') pid d"
      using DownloadIdle run(1) tick_awaits [of "download_of nd" pid d now]
      by (auto simp: download_idle_def set_download_def) (simp add: download_of_def)
    moreover have "set (co_control nd) \<subseteq> set (co_control nd')"
      using DownloadIdle run(1) tick_queue [of "download_of nd" now]
      by (auto simp: download_idle_def set_download_def) (simp add: download_of_def subset_iff)
    ultimately show ?thesis using nd(3) stay by (auto simp: doomed_def)
  next
    case (PingTake now)
    then show ?thesis using ping_doomed [OF nd(1) _ nd(3) _ run(2), of now r] nd(2) run(1) by simp
  next
    case (PingIdle now rnd)
    then show ?thesis using ping_idle_doomed [OF nd(1) _ nd(3), of now rnd] nd(2) run(1) by auto
  qed (rule same; use run(1) in \<open>auto simp: event_step_def keep_thread_def dispatcher_thread_def set_tasks_def
    split: option.splits list.splits prod.splits\<close>)+
qed

lemma seen_grows:
  assumes "node_step checks C A X D a nd = Some (nd', r)"
  shows "(\<exists>ds. nd_download_seen nd' = nd_download_seen nd @ ds) \<and> (\<exists>ps. nd_ping_seen nd' = nd_ping_seen nd @ ps)"
  using assms
  by (cases a) (auto simp: event_step_def control_thread_def keep_thread_def dispatcher_thread_def download_thread_def
      download_idle_def ping_thread_def ping_idle_def set_download_def set_ping_def set_tasks_def Let_def
      split: list.splits option.splits outcome.splits prod.splits)

lemma reaches_seen_grows:
  assumes "node_reaches checks C A X D nd nd'"
  shows "(\<exists>ds. nd_download_seen nd' = nd_download_seen nd @ ds) \<and> (\<exists>ps. nd_ping_seen nd' = nd_ping_seen nd @ ps)"
  using assms by (induction rule: node_reaches.induct) (auto dest!: seen_grows)

text \<open>A run in which a peer is silent is silent up to its last step and in that step.\<close>

lemma silent_split:
  assumes "node_reaches checks C A X D nd nd1" "node_step checks C A X D a nd1 = Some (nd2, r)" "silent pid nd nd2"
  shows "silent pid nd nd1 \<and> silent pid nd1 nd2"
  using reaches_seen_grows [OF assms(1)] seen_grows [OF assms(2)] assms(3) unfolding silent_def by fastforce

lemma doomed_reaches:
  assumes "node_reaches checks C A X D nd nd'" "silent pid nd nd'" "parts_ok checks C nd" "doomed pid d nd"
    "pid_token pid < n_next_peer_id (co_p2p nd)"
  shows "doomed pid d nd' \<and> pid_token pid < n_next_peer_id (co_p2p nd')"
  using assms(1,2)
proof (induction rule: node_reaches.induct)
  case here
  then show ?case using assms(4,5) by simp
next
  case (step nd1 a nd2 r)
  note S = silent_split [OF step.hyps(1,3) step.prems]
  have p: "parts_ok checks C nd1" by (rule node_reaches_parts [OF step.hyps(1) assms(3)])
  have "doomed pid d nd1" "pid_token pid < n_next_peer_id (co_p2p nd1)" using step.IH S by blast+
  then show ?case
    using doomed_step [OF p step.hyps(2) _ _ step.hyps(3)] S step_no_return [OF p step.hyps(2,3)] by (auto simp: no_return_def)
qed

lemma doomed_removed:
  assumes nd: "parts_ok checks C nd" "grants E" "doomed pid (unat now + 60) nd" "peer (co_p2p nd) pid \<noteq> None"
    and now: "unat now + 60 < unat now'" "unat now' + 60 < 2 ^ 64"
  shows "\<exists>k nd'. node_run checks C A X D (PingIdle now' rnd # replicate k (Control E)) nd = Some (nd', Ok ()) \<and>
    peer (co_p2p nd') pid = None \<and> Disconnected pid True \<in> set (n_dispatched (co_p2p nd'))"
proof -
  obtain nd1 where nd1: "ping_idle checks now' rnd nd = (nd1, Ok ())" "co_p2p nd1 = co_p2p nd" "Ban pid BAN \<in> set (co_control nd1)"
    using ping_idle_doomed [OF nd(1) now(2) nd(3), of rnd] nd(4) now(1) by blast
  have "parts_ok checks C nd1" using ping_idle_ok [OF nd(1) now(2), of rnd] nd1(1) by simp
  then have "bans_ok (co_control nd1)" "scores_ok (co_p2p nd1)" using parts_ok_inv by (auto simp: parts_ok_def)
  then obtain n where n: "node_run checks C A X D (replicate (length (co_control nd1)) (Control E)) nd1 =
      Some (nd1\<lparr>co_p2p := n, co_control := []\<rparr>, Ok ())" "only_bans (co_p2p nd) n" "peer n pid = None"
    using control_drained [of nd1 E checks C A X D] nd(2) nd1(2,3) by auto
  have "Disconnected pid True \<in> set (n_dispatched n)" using n(2,3) nd(4) unfolding only_bans_def by blast
  moreover have "node_run checks C A X D (PingIdle now' rnd # replicate (length (co_control nd1)) (Control E)) nd =
      Some (nd1\<lparr>co_p2p := n, co_control := []\<rparr>, Ok ())" using nd1(1) n(1) by simp
  ultimately show ?thesis using n(3) by (intro exI) auto
qed

lemma ping_round_awaited:
  assumes "to_inv (ping_timeout p)" "unat now + 60 < 2 ^ 64" "distinct (map fst (n_peers n))"
    "pid \<in> set (map fst (n_peers n))" "\<not> Timeout_is_busy (ping_timeout p) pid"
  shows "\<exists>p'. ping_round checks now rnd n p = Ok p' \<and> Send pid (NetworkMessage.Ping (rnd pid)) \<in> set (ping_p2p p') \<and>
    awaits_pong (ping_timeout p') pid (unat now + 60)"
proof -
  let ?t = "fold (\<lambda>pid t. Timeout_forget t pid) (late_peers now (ping_timeout p) [ExpectPong]) (ping_timeout p)"
  obtain p' where p': "ping_round checks now rnd n p = Ok p'" "Send pid (NetworkMessage.Ping (rnd pid)) \<in> set (ping_p2p p')"
    using ping_round_asks [OF assms, of checks rnd] by blast
  have "pinged now rnd (\<lambda>q. q \<in> set (map fst (n_peers n)) \<and> \<not> Timeout_is_busy ?t q) (p\<lparr>ping_timeout := ?t\<rparr>) p'"
    using ping_round_spec [OF assms(1-3), of checks rnd] p'(1) by auto
  moreover have "\<not> Timeout_is_busy ?t pid" using assms(5) by (simp add: is_busy_deadline forget_all_view)
  ultimately have "awaits_pong (ping_timeout p') pid (unat now + 60)"
    using assms(4) by (auto simp: pinged_def awaits_pong_def dest!: spec [of _ pid])
  then show ?thesis using p' by blast
qed

section \<open>Removing silent peers\<close>

text \<open>
  C23. A peer from which nothing is heard is removed. If nothing is expected of it when the ping makes a round, it is sent
  a ping. If then, whatever order the threads and tasks of the node run in and whatever the other peers do, neither
  module handles a message of that peer, and it is still in the map at a round more than sixty seconds after the
  first, then after that round and after the control thread has worked through its channel the peer is gone and
  the dispatcher has been told that it is banned.
\<close>
theorem silent_peer_removed:
  assumes nd: "parts_ok checks C nd" "grants E"
    and pid: "peer (co_p2p nd) pid \<noteq> None" "\<not> Timeout_is_busy (co_timeout nd) pid"
    and now: "unat now + 60 < unat now'" "unat now' + 60 < 2 ^ 64"
  shows "\<exists>nd1. node_step checks C A X D (PingIdle now rnd) nd = Some (nd1, Ok ()) \<and>
    Send pid (NetworkMessage.Ping (rnd pid)) \<in> set (co_control nd1) \<and>
    (\<forall>nd2. node_reaches checks C A X D nd1 nd2 \<longrightarrow> silent pid nd1 nd2 \<longrightarrow> peer (co_p2p nd2) pid \<noteq> None \<longrightarrow>
       (\<exists>k nd'. node_run checks C A X D (PingIdle now' rnd' # replicate k (Control E)) nd2 = Some (nd', Ok ()) \<and>
          peer (co_p2p nd') pid = None \<and> Disconnected pid True \<in> set (n_dispatched (co_p2p nd'))))"
proof -
  have t: "to_inv (ping_timeout (ping_of nd))" using nd(1) by (simp add: parts_ok_def one_each_def ping_of_def)
  note inv = parts_ok_inv [OF nd(1)]
  have pid': "pid \<in> set (map fst (n_peers (co_p2p nd)))" "\<not> Timeout_is_busy (ping_timeout (ping_of nd)) pid"
    "pid_token pid < n_next_peer_id (co_p2p nd)"
    using pid inv by (auto simp: ping_of_def map_of_eq_None_iff node_inv_def)
  have room: "unat now + 60 < 2 ^ 64" using now by simp
  obtain p1 where p1: "ping_round checks now rnd (co_p2p nd) (ping_of nd) = Ok p1"
    "Send pid (NetworkMessage.Ping (rnd pid)) \<in> set (ping_p2p p1)" "awaits_pong (ping_timeout p1) pid (unat now + 60)"
    using ping_round_awaited [OF t room _ pid'(1,2), of checks rnd] inv by (auto simp: node_inv_def)
  define nd1 where "nd1 = set_ping nd p1"
  have ok1: "parts_ok checks C nd1" using ping_idle_ok [OF nd(1) room, of rnd] p1(1) by (simp add: ping_idle_def nd1_def)
  have d1: "doomed pid (unat now + 60) nd1" "pid_token pid < n_next_peer_id (co_p2p nd1)"
    using p1(3) pid'(3) by (simp_all add: doomed_def nd1_def set_ping_def)
  have "\<exists>k nd'. node_run checks C A X D (PingIdle now' rnd' # replicate k (Control E)) nd2 = Some (nd', Ok ()) \<and>
      peer (co_p2p nd') pid = None \<and> Disconnected pid True \<in> set (n_dispatched (co_p2p nd'))"
    if 2: "node_reaches checks C A X D nd1 nd2" "silent pid nd1 nd2" "peer (co_p2p nd2) pid \<noteq> None" for nd2
    by (rule doomed_removed [OF node_reaches_parts [OF 2(1) ok1] nd(2) _ 2(3) now])
      (use doomed_reaches [OF 2(1,2) ok1 d1] in simp)
  moreover have "Send pid (NetworkMessage.Ping (rnd pid)) \<in> set (co_control nd1)" using p1(2) by (simp add: nd1_def set_ping_def)
  moreover have "node_step checks C A X D (PingIdle now rnd) nd = Some (nd1, Ok ())" using p1(1) by (simp add: ping_idle_def nd1_def)
  ultimately show ?thesis by blast
qed

theorem silent_peer_removed_witness:
  "\<exists>n p nd1 k nd'. peer n (sample_pid 0) = Some p \<and> p_connected p \<and>
     node_step True sample_codec mem_api sample_ext recorder (PingIdle 1000 (\<lambda>_. 7)) (sample_node n (sample_1 Bitcoin)) =
       Some (nd1, Ok ()) \<and>
     node_run True sample_codec mem_api sample_ext recorder (PingIdle 1061 (\<lambda>_. 8) # replicate k (Control sample_os)) nd1 =
       Some (nd', Ok ()) \<and> peer (co_p2p nd') (sample_pid 0) = None"
proof -
  obtain n p where n: "reachable_sample n" "peer n (sample_pid 0) = Some p" "p_connected p" using run_1 by blast
  let ?nd = "sample_node n (sample_1 Bitcoin)"
  have "\<not> Timeout_is_busy (co_timeout ?nd) (sample_pid 0)" by (simp add: sample_node_def is_busy_deadline)
  from silent_peer_removed [OF node_ok_parts [OF sample_node_ok [OF n(1)]] sample_os_grants _ this, of 1000 1061 mem_api sample_ext
      recorder "\<lambda>_. 7" "\<lambda>_. 8"]
  obtain nd1 where nd1: "node_step True sample_codec mem_api sample_ext recorder (PingIdle 1000 (\<lambda>_. 7)) ?nd = Some (nd1, Ok ())"
    "silent (sample_pid 0) nd1 nd1 \<Longrightarrow> peer (co_p2p nd1) (sample_pid 0) \<noteq> None \<Longrightarrow>
      \<exists>k nd'. node_run True sample_codec mem_api sample_ext recorder (PingIdle 1061 (\<lambda>_. 8) # replicate k (Control sample_os)) nd1 =
        Some (nd', Ok ()) \<and> peer (co_p2p nd') (sample_pid 0) = None"
    using n(2) node_reaches.here by (auto simp: sample_node_simps simp del: node_run.simps node_step.simps) blast
  have "peer (co_p2p nd1) (sample_pid 0) \<noteq> None"
    using nd1(1) n(2) by (auto simp: ping_idle_def set_ping_def sample_node_simps split: outcome.splits)
  moreover have "silent (sample_pid 0) nd1 nd1" by (simp add: silent_def)
  ultimately show ?thesis using nd1 n(2,3) by blast
qed

text \<open>
  There is one deadline for all that a peer owes. A peer that leaves a ping unanswered but sends the headers it was asked
  for gets another minute for both, so it is not removed as long as it keeps sending headers.
\<close>
theorem headers_delay_ban:
  assumes "to_inv t" "unat now + 60 < 2 ^ 64" "0 < owed t pid ExpectPong" "0 < owed t pid ExpectHeaders"
  shows "\<exists>t'. Timeout_received checks now t pid 1 ExpectHeaders = Ok t' \<and> owed t' pid ExpectPong = owed t pid ExpectPong \<and>
    (\<forall>now'. unat now' \<le> unat now + 60 \<longrightarrow> pid \<notin> set (late_peers now' t' [ExpectPong]))"
proof -
  obtain t' where t': "Timeout_received checks now t pid 1 ExpectHeaders = Ok t'" "to_inv t'"
    "owed t' = (owed t)(pid := (owed t pid)(ExpectHeaders := owed t pid ExpectHeaders - 1))"
    "deadline t' = (if \<forall>w. owed t' pid w = 0 then (deadline t)(pid := None)
       else if 0 < owed t pid ExpectHeaders then (deadline t)(pid \<mapsto> unat now + 60) else deadline t)"
    using received_spec [OF assms(1,2), of checks pid 1 ExpectHeaders] by auto
  have "owed t' pid ExpectPong = owed t pid ExpectPong" by (simp add: t'(3))
  moreover have "deadline t' pid = Some (unat now + 60)" using t'(4) assms(3,4) calculation by (metis fun_upd_same less_irrefl)
  ultimately show ?thesis using t'(1) by (auto simp: late_peers_set [OF t'(2)] late_def)
qed

end
