(* ===== verification/P2P_Handshake.thy ===== *)
theory P2P_Handshake
  imports P2P_Properties
begin

text \<open>
  The handshake from both ends (\<open>src/src/p2p.rs\<close>): two nodes of this program, one that calls and one that is
  called, complete it with each other.
\<close>

section \<open>One message at a time\<close>

lemma send_granted_eq:
  "grants E \<Longrightarrow> Peer_send E p m = (p\<lparr>p_queue := p_queue p @ [m], p_writeable := True\<rparr>, Ok ())"
  by (cases p) (simp add: grants_def Peer_send_def Peer_reregister_write_def)

text \<open>What a node answers to a version message it accepts.\<close>

definition answer :: "BitcoinP2PConfig \<Rightarrow> os \<Rightarrow> SocketAddr \<Rightarrow> bool \<Rightarrow> VersionCarrier \<Rightarrow> NetworkMessage list" where
  "answer cfg E addr outgoing v =
     (if outgoing then [] else [BitcoinP2PConfig_version cfg (os_now E) addr (vc_version v)]) @ [Verack]"

lemma accept_version_eq:
  assumes "grants E" "os_peer_addr E (p_pid (r_peer s)) = Ok addr" "acceptable cfg needed (p_outgoing (r_peer s)) v"
  shows "accept_version cfg E v s =
    (s\<lparr>r_peer := (r_peer s)\<lparr>p_queue := p_queue (r_peer s) @ answer cfg E addr (p_outgoing (r_peer s)) v,
       p_writeable := True, p_version := Some (reduced cfg v)\<rparr>\<rparr>, Ok True)"
  using assms
  by (cases s; cases "r_peer s")
    (auto simp: accept_version_def acceptable_def send_granted_eq answer_def reduced_def Let_def config_defs)

lemma message_version_eq:
  assumes "grants E" "os_peer_addr E (p_pid (r_peer s)) = Ok addr" "acceptable cfg needed (p_outgoing (r_peer s)) v"
    "is_version (raw_payload m) = Some v" "p_version (r_peer s) = None" "\<not> p_got_verack (r_peer s)" "\<not> p_connected (r_peer s)"
  shows "on_message cfg E needed m s =
    (s\<lparr>r_peer := (r_peer s)\<lparr>p_queue := p_queue (r_peer s) @ answer cfg E addr (p_outgoing (r_peer s)) v,
       p_writeable := True, p_version := Some (reduced cfg v)\<rparr>\<rparr>, Ok True)"
proof -
  have "handshake_message cfg E needed (raw_payload m) s = accept_version cfg E v s"
    using assms(3-5) by (auto simp: handshake_message_def acceptable_def)
  then show ?thesis
    using assms(5-7) accept_version_eq [OF assms(1-3)]
    by (simp add: on_message_def BitcoinP2PConfig_unwrap_def complete_handshake_def)
qed

text \<open>A read that brings exactly one message.\<close>

lemma one_message:
  assumes codec: "codec_ok M (c_ser C) (c_dec C)" "m \<in> M" "c_ser C m \<noteq> []"
    and p: "peer n pid = Some p" "holds_bytes (p_read_buffer p) []" and ev: "ev_data ev = Ok (c_ser C m)"
    and step: "\<And>s b. s = \<lparr>r_peer = p\<lparr>p_read_buffer := b\<rparr>, r_incoming = [], r_disconnect = False, r_ban = False,
        r_handshake = False, r_address = None\<rparr> \<Longrightarrow> on_message (n_config n) E needed m s = (f s, Ok True)"
      "\<And>s. p_read_buffer (r_peer (f s)) = p_read_buffer (r_peer s)"
  shows "\<exists>b b'. holds_bytes b' [] \<and> (let s = f \<lparr>r_peer = p\<lparr>p_read_buffer := b\<rparr>, r_incoming = [], r_disconnect = False, r_ban = False,
        r_handshake = False, r_address = None\<rparr>; s = s\<lparr>r_peer := (r_peer s)\<lparr>p_read_buffer := b'\<rparr>\<rparr>
      in P2P_readable E C n pid needed ev = Some (after_read (set_peer n pid (r_peer s)) pid s, Ok ()))"
proof -
  let ?s = "\<lambda>b. \<lparr>r_peer = p\<lparr>p_read_buffer := b\<rparr>, r_incoming = [], r_disconnect = False, r_ban = False,
    r_handshake = False, r_address = None\<rparr>"
  let ?b = "Buffer_write_all (p_read_buffer p) (c_ser C m)"
  have "holds_bytes ?b (c_ser C m @ [])"
    using p(2) net.write_law [of "p_read_buffer p" "c_ser C m"] by (simp add: holds_bytes_def)
  then obtain b where b: "BitcoinP2PConfig_decode (c_dec C) ?b = Ok (b, Ok (Some m))" "holds_bytes b []"
    using decode_complete [OF codec(1,2)] by blast
  have nil: "incomplete M (c_ser C) []" using codec(2,3) by (auto simp: incomplete_def)
  obtain b' where b': "BitcoinP2PConfig_decode (c_dec C) b = Ok (b', Ok None)" "holds_bytes b' []"
    using decode_partial [OF codec(1) b(2) nil] by blast
  have m: "on_message (n_config n) E needed m (?s b) = (f (?s b), Ok True)" by (rule step(1)) simp
  have "receive_loop (n_config n) (c_dec C) E needed (?s ?b) = receive_loop (n_config n) (c_dec C) E needed (f (?s b))"
    using b(1) m by (simp add: receive_loop.simps [of _ _ _ _ "?s ?b"])
  also have "\<dots> = Some ((f (?s b))\<lparr>r_peer := (r_peer (f (?s b)))\<lparr>p_read_buffer := b'\<rparr>\<rparr>, Ok ())"
    using b'(1) step(2) [of "?s b"] by (simp add: receive_loop.simps [of _ _ _ _ "f (?s b)"])
  finally have "on_readable (n_config n) (c_dec C) E needed p (ev_data ev) =
      Some ((f (?s b))\<lparr>r_peer := (r_peer (f (?s b)))\<lparr>p_read_buffer := b'\<rparr>\<rparr>, Ok ())"
    using ev codec(3) by (simp add: on_readable_def)
  then have "P2P_readable E C n pid needed ev =
      (let s = (f (?s b))\<lparr>r_peer := (r_peer (f (?s b)))\<lparr>p_read_buffer := b'\<rparr>\<rparr>
       in Some (after_read (set_peer n pid (r_peer s)) pid s, Ok ()))"
    using p(1) by (simp add: P2P_readable_def Let_def)
  then show ?thesis using b'(2) by (auto simp: Let_def)
qed

lemma readable_version:
  assumes codec: "codec_ok M (c_ser C) (c_dec C)" "m \<in> M" "c_ser C m \<noteq> []" "is_version (raw_payload m) = Some v"
    and p: "peer n pid = Some p" "p_pid p = pid" "holds_bytes (p_read_buffer p) []" "p_version p = None" "\<not> p_got_verack p" "\<not> p_connected p"
    and ok: "grants E" "os_peer_addr E pid = Ok addr" "acceptable (n_config n) needed (p_outgoing p) v" and ev: "ev_data ev = Ok (c_ser C m)"
  shows "\<exists>b n'. P2P_readable E C n pid needed ev = Some (n', Ok ()) \<and> holds_bytes b [] \<and> n_config n' = n_config n \<and>
    n_dispatched n' = n_dispatched n \<and>
    peer n' pid = Some (p\<lparr>p_queue := p_queue p @ answer (n_config n) E addr (p_outgoing p) v,
      p_writeable := True, p_version := Some (reduced (n_config n) v), p_read_buffer := b\<rparr>)"
proof -
  let ?f = "\<lambda>s. s\<lparr>r_peer := (r_peer s)\<lparr>p_queue := p_queue (r_peer s) @ answer (n_config n) E addr (p_outgoing (r_peer s)) v,
    p_writeable := True, p_version := Some (reduced (n_config n) v)\<rparr>\<rparr>"
  have "on_message (n_config n) E needed m s = (?f s, Ok True)"
    if "s = \<lparr>r_peer = p\<lparr>p_read_buffer := b\<rparr>, r_incoming = [], r_disconnect = False, r_ban = False, r_handshake = False, r_address = None\<rparr>"
    for s b using that p ok codec(4) by (intro message_version_eq) simp_all
  then show ?thesis
    using one_message [OF codec(1-3) p(1,3) ev, of E needed ?f] by (fastforce simp: after_read_def Let_def)
qed

lemma readable_verack:
  assumes codec: "codec_ok M (c_ser C) (c_dec C)" "m \<in> M" "c_ser C m \<noteq> []" "raw_payload m = Verack"
    and p: "peer n pid = Some p" "holds_bytes (p_read_buffer p) []" "p_version p \<noteq> None" "\<not> p_got_verack p" "\<not> p_connected p"
    and ev: "ev_data ev = Ok (c_ser C m)"
  shows "\<exists>b n' a. P2P_readable E C n pid needed ev = Some (n', Ok ()) \<and> n_dispatched n' = n_dispatched n @ [Connected pid a] \<and>
    peer n' pid = Some (p\<lparr>p_got_verack := True, p_connected := True, p_read_buffer := b\<rparr>)"
proof -
  let ?f = "\<lambda>s. complete_handshake E (s\<lparr>r_peer := (r_peer s)\<lparr>p_got_verack := True\<rparr>\<rparr>)"
  have "on_message (n_config n) E needed m s = (?f s, Ok True)"
    if "s = \<lparr>r_peer = p\<lparr>p_read_buffer := b\<rparr>, r_incoming = [], r_disconnect = False, r_ban = False, r_handshake = False, r_address = None\<rparr>"
    for s b using that p codec(4) by (intro message_verack) simp_all
  moreover have "p_read_buffer (r_peer (?f s)) = p_read_buffer (r_peer s)" for s by (simp add: complete_handshake_def)
  ultimately show ?thesis
    using one_message [OF codec(1-3) p(1,2) ev, of E needed ?f] p(3)
    by (fastforce simp: after_read_def Let_def complete_handshake_def)
qed

section \<open>Two nodes\<close>

lemma codec_nonempty:
  assumes "codec_ok M ser dec" "m \<in> M" "m' \<in> M" "m \<noteq> m'"
  shows "ser m \<noteq> []"
proof
  assume "ser m = []"
  then have "run_list dec (ser m' @ []) = (Ok m, ser m' @ [])" using assms(1,2) unfolding codec_ok_def by (metis append_Nil)
  moreover have "run_list dec (ser m' @ []) = (Ok m', [])" using assms(1,3) unfolding codec_ok_def by blast
  ultimately show False using assms(4) by simp
qed

text \<open>The version message of a node is acceptable to another one.\<close>

lemma own_version_acceptable:
  assumes "cfg_nonce cfg \<noteq> cfg_nonce cfg'" "70001 \<le> k" "70001 \<le> cfg_max_protocol_version cfg"
    "outgoing \<longrightarrow> BitcoinP2PConfig_get_height cfg' \<le> BitcoinP2PConfig_get_height cfg"
    "is_version (BitcoinP2PConfig_version cfg now addr k) = Some v"
  shows "acceptable cfg' 0 outgoing v" "vc_version v = min k (cfg_max_protocol_version cfg)"
  using assms by (auto simp: BitcoinP2PConfig_version_def acceptable_def config_defs Let_def)

definition reading :: "u8 list \<Rightarrow> event" where
  "reading bytes = \<lparr>ev_hup = False, ev_writable = False, ev_readable = True, ev_attempts = [], ev_data = Ok bytes\<rparr>"

text \<open>
  C14. Two nodes of this program complete the handshake with each other, if they are not the same node, both speak
  version 70001 and the node that is called is not behind: the called node answers the caller's version message
  with its own and an acknowledgement, the caller, on reading these, queues its acknowledgement and is connected,
  and so is the called node when that arrives. Both report the connection once, and agree on the lower
  of their protocol versions.
\<close>
theorem two_nodes_connect:
  fixes na nb :: P2P and a b :: PeerId and Ea Eb :: os and now :: u64 and adb :: SocketAddr
  defines "ca \<equiv> n_config na" and "cb \<equiv> n_config nb"
  defines "va \<equiv> BitcoinP2PConfig_version ca now fixed_address (cfg_max_protocol_version ca)"
  defines "vb \<equiv> BitcoinP2PConfig_version cb (os_now Eb) adb (cfg_max_protocol_version ca)"
  assumes codec: "codec_ok M (c_ser C) (c_dec C)" "BitcoinP2PConfig_wrap ca ` {va, Verack} \<union> BitcoinP2PConfig_wrap cb ` {vb, Verack} \<subseteq> M"
    and nodes: "cfg_nonce ca \<noteq> cfg_nonce cb" "70001 \<le> cfg_max_protocol_version ca" "70001 \<le> cfg_max_protocol_version cb"
      "BitcoinP2PConfig_get_height ca \<le> BitcoinP2PConfig_get_height cb"
    and peers: "peer na a = Some (Peer_new a True)" "peer nb b = Some (Peer_new b False)" "grants Ea" "grants Eb"
      "os_peer_addr Eb b = Ok adb"
  shows "\<exists>na' na'' nb' nb'' pa pb ad ad'.
    P2P_readable Eb C nb b 0 (reading (c_ser C (BitcoinP2PConfig_wrap ca va))) = Some (nb', Ok ()) \<and>
    map_option p_queue (peer nb' b) = Some [vb, Verack] \<and>
    P2P_readable Ea C na a 0 (reading (c_ser C (BitcoinP2PConfig_wrap cb vb))) = Some (na', Ok ()) \<and>
    P2P_readable Ea C na' a 0 (reading (c_ser C (BitcoinP2PConfig_wrap cb Verack))) = Some (na'', Ok ()) \<and>
    peer na'' a = Some pa \<and> p_queue pa = [Verack] \<and>
    P2P_readable Eb C nb' b 0 (reading (c_ser C (BitcoinP2PConfig_wrap ca Verack))) = Some (nb'', Ok ()) \<and>
    peer nb'' b = Some pb \<and> p_connected pa \<and> p_connected pb \<and>
    n_dispatched na'' = n_dispatched na @ [Connected a ad] \<and> n_dispatched nb'' = n_dispatched nb @ [Connected b ad'] \<and>
    map_option vc_version (p_version pa) = Some (min (cfg_max_protocol_version ca) (cfg_max_protocol_version cb)) \<and>
    map_option vc_version (p_version pb) = Some (min (cfg_max_protocol_version ca) (cfg_max_protocol_version cb))"
proof -
  let ?pa = "Peer_new a True" and ?pb = "Peer_new b False"
  have w: "raw_payload (BitcoinP2PConfig_wrap c m) = m" for c m by (simp add: BitcoinP2PConfig_wrap_def)
  obtain ka where ka: "is_version va = Some ka" by (simp add: va_def BitcoinP2PConfig_version_def Let_def)
  obtain kb where kb: "is_version vb = Some kb" by (simp add: vb_def BitcoinP2PConfig_version_def Let_def)
  have M: "BitcoinP2PConfig_wrap ca va \<in> M" "BitcoinP2PConfig_wrap ca Verack \<in> M" "BitcoinP2PConfig_wrap cb vb \<in> M"
    "BitcoinP2PConfig_wrap cb Verack \<in> M" using codec(2) by auto
  have "va \<noteq> Verack" "vb \<noteq> Verack" using ka kb by auto
  then have d: "BitcoinP2PConfig_wrap ca va \<noteq> BitcoinP2PConfig_wrap ca Verack" "BitcoinP2PConfig_wrap cb vb \<noteq> BitcoinP2PConfig_wrap cb Verack"
    by (metis w)+
  note ne = codec_nonempty [OF codec(1) M(1,2) d(1)] codec_nonempty [OF codec(1) M(2,1) d(1) [symmetric]]
    codec_nonempty [OF codec(1) M(3,4) d(2)] codec_nonempty [OF codec(1) M(4,3) d(2) [symmetric]]
  have new: "p_pid (Peer_new k out) = k" "holds_bytes (p_read_buffer (Peer_new k out)) []" "p_version (Peer_new k out) = None"
    "\<not> p_got_verack (Peer_new k out)" "\<not> p_connected (Peer_new k out)" "p_outgoing (Peer_new k out) = out" "p_queue (Peer_new k out) = []" for k out
    using new_buffer_holds by (simp_all add: Peer_new_def)
  obtain ada where ad: "os_peer_addr Ea a = Ok ada" using peers(3) by (meson grants_def)
  have A: "acceptable cb 0 False ka" "vc_version ka = cfg_max_protocol_version ca"
    using own_version_acceptable [OF nodes(1,2,2) _ ka [unfolded va_def]] by auto
  have B: "acceptable ca 0 True kb" "vc_version kb = min (cfg_max_protocol_version ca) (cfg_max_protocol_version cb)"
    using own_version_acceptable [OF nodes(1) [symmetric] nodes(2,3) _ kb [unfolded vb_def]] nodes(4) by auto
  obtain b1 nb' where 1: "P2P_readable Eb C nb b 0 (reading (c_ser C (BitcoinP2PConfig_wrap ca va))) = Some (nb', Ok ())"
    "holds_bytes b1 []" "n_config nb' = cb" "n_dispatched nb' = n_dispatched nb"
    "peer nb' b = Some (?pb\<lparr>p_queue := [vb, Verack], p_writeable := True, p_version := Some (reduced cb ka), p_read_buffer := b1\<rparr>)"
    using readable_version [OF codec(1) M(1) ne(1), of ka nb b ?pb Eb adb 0 "reading (c_ser C (BitcoinP2PConfig_wrap ca va))"]
      ka A peers(2,4,5) by (auto simp: w new reading_def answer_def vb_def cb_def)
  obtain b2 na' where 2: "P2P_readable Ea C na a 0 (reading (c_ser C (BitcoinP2PConfig_wrap cb vb))) = Some (na', Ok ())"
    "holds_bytes b2 []" "n_config na' = ca" "n_dispatched na' = n_dispatched na"
    "peer na' a = Some (?pa\<lparr>p_queue := [Verack], p_writeable := True, p_version := Some (reduced ca kb), p_read_buffer := b2\<rparr>)"
    using readable_version [OF codec(1) M(3) ne(3), of kb na a ?pa Ea ada 0 "reading (c_ser C (BitcoinP2PConfig_wrap cb vb))"]
      kb B(1) peers(1,3) ad by (auto simp: w new reading_def answer_def ca_def)
  obtain na'' ad3 pa where 3: "P2P_readable Ea C na' a 0 (reading (c_ser C (BitcoinP2PConfig_wrap cb Verack))) = Some (na'', Ok ())"
    "n_dispatched na'' = n_dispatched na @ [Connected a ad3]"
    "peer na'' a = Some pa" "p_queue pa = [Verack]" "p_connected pa" "p_version pa = Some (reduced ca kb)"
    using readable_verack [OF codec(1) M(4) ne(4) w 2(5), of "reading (c_ser C (BitcoinP2PConfig_wrap cb Verack))" Ea 0] 2(2,4)
    by (auto simp: new reading_def)
  obtain nb'' ad4 pb where 4: "P2P_readable Eb C nb' b 0 (reading (c_ser C (BitcoinP2PConfig_wrap ca Verack))) = Some (nb'', Ok ())"
    "n_dispatched nb'' = n_dispatched nb @ [Connected b ad4]"
    "peer nb'' b = Some pb" "p_connected pb" "p_version pb = Some (reduced cb ka)"
    using readable_verack [OF codec(1) M(2) ne(2) w 1(5), of "reading (c_ser C (BitcoinP2PConfig_wrap ca Verack))" Eb 0] 1(2,4)
    by (auto simp: new reading_def)
  have "vc_version (reduced ca kb) = min (cfg_max_protocol_version ca) (cfg_max_protocol_version cb)"
    "vc_version (reduced cb ka) = min (cfg_max_protocol_version ca) (cfg_max_protocol_version cb)"
    using A(2) B(2) by (auto simp: reduced_def min_def)
  then show ?thesis using 1(1,5) 2(1) 3 4 by fastforce
qed

text \<open>A codec for the messages of two nodes, one byte each.\<close>

definition pair_codec :: "RawNetworkMessage \<Rightarrow> RawNetworkMessage \<Rightarrow> RawNetworkMessage \<Rightarrow> codec" where
  "pair_codec k va vb =
     \<lparr>c_ser = (\<lambda>m. if m = k then [1] else if m = va then [2] else [3]),
      c_dec = ReadBytes 1 (\<lambda>b. Return (if b = [1] then Ok k else if b = [2] then Ok va else if b = [3] then Ok vb
        else if b = [] then Err sample_eof else Err sample_bad)),
      c_iobuf = replicate 8 0\<rparr>"

lemma pair_codec_ok:
  assumes "k \<noteq> va" "k \<noteq> vb" "va \<noteq> vb"
  shows "codec_ok {k, va, vb} (c_ser (pair_codec k va vb)) (c_dec (pair_codec k va vb))"
  unfolding codec_ok_def
proof (intro conjI ballI allI impI, goal_cases)
  case (1 m ys)
  then show ?case using assms by (auto simp: pair_codec_def)
next
  case (2 m xs ys)
  then have "xs = []" by (auto simp: pair_codec_def Cons_eq_append_conv split: if_splits)
  then show ?case by (simp add: pair_codec_def is_eof_def sample_eof_def)
qed

definition caller :: P2P where
  "caller = (P2P_new sample_cfg)\<lparr>n_peers := [(sample_pid 1, Peer_new (sample_pid 1) True)]\<rparr>"

definition called :: P2P where
  "called = (P2P_new (sample_cfg\<lparr>cfg_nonce := 43\<rparr>))\<lparr>n_peers := [(sample_pid 2, Peer_new (sample_pid 2) False)]\<rparr>"

lemma pair_simps:
  "n_config caller = sample_cfg" "n_config called = sample_cfg\<lparr>cfg_nonce := 43\<rparr>"
  "peer caller (sample_pid 1) = Some (Peer_new (sample_pid 1) True)"
  "peer called (sample_pid 2) = Some (Peer_new (sample_pid 2) False)"
  "os_peer_addr sample_os (sample_pid 2) = Ok sample_addr"
  by (simp_all add: caller_def called_def P2P_new_def sample_os_def)

theorem two_nodes_connect_witness:
  "\<exists>C na' na'' nb' nb'' e e' pa pb.
     P2P_readable sample_os C na' (sample_pid 1) 0 e = Some (na'', Ok ()) \<and> peer na'' (sample_pid 1) = Some pa \<and> p_connected pa \<and>
     P2P_readable sample_os C nb' (sample_pid 2) 0 e' = Some (nb'', Ok ()) \<and> peer nb'' (sample_pid 2) = Some pb \<and> p_connected pb"
proof -
  let ?ca = "n_config caller" and ?cb = "n_config called"
  let ?va = "BitcoinP2PConfig_version ?ca 1000 fixed_address (cfg_max_protocol_version ?ca)"
  let ?vb = "BitcoinP2PConfig_version ?cb (os_now sample_os) sample_addr (cfg_max_protocol_version ?ca)"
  let ?k = "BitcoinP2PConfig_wrap ?ca Verack" and ?a = "BitcoinP2PConfig_wrap ?ca ?va" and ?b = "BitcoinP2PConfig_wrap ?cb ?vb"
  have "?k \<noteq> ?a" "?k \<noteq> ?b" "?a \<noteq> ?b"
    unfolding pair_simps by (simp_all add: BitcoinP2PConfig_wrap_def BitcoinP2PConfig_version_def Let_def sample_cfg_def)
  note c = pair_codec_ok [OF this]
  have m: "BitcoinP2PConfig_wrap ?ca ` {?va, Verack} \<union> BitcoinP2PConfig_wrap ?cb ` {?vb, Verack} \<subseteq> {?k, ?a, ?b}"
    by (auto simp: pair_simps BitcoinP2PConfig_wrap_def sample_cfg_def)
  have n: "cfg_nonce ?ca \<noteq> cfg_nonce ?cb" "70001 \<le> cfg_max_protocol_version ?ca" "70001 \<le> cfg_max_protocol_version ?cb"
    "BitcoinP2PConfig_get_height ?ca \<le> BitcoinP2PConfig_get_height ?cb"
    by (simp_all add: pair_simps sample_cfg_def BitcoinP2PConfig_get_height_def)
  show ?thesis
    using two_nodes_connect [OF c m n pair_simps(3,4) sample_os_grants sample_os_grants pair_simps(5)] by blast
qed

end
