(* ===== verification/Chain_Sync.thy ===== *)
theory Chain_Sync
  imports Download_Correct
begin

text \<open>
  The download of a whole chain (\<open>src/src/headerdownload.rs\<close>), one answer at a time: what a peer that has the
  chain answers, and what the handler makes of it.
\<close>

section \<open>A longer chain\<close>

text \<open>Headers that extend the trunk one after the other: each has the tip as its parent, is accepted and has most work.\<close>

fun extends :: "ext \<Rightarrow> HeaderCache \<Rightarrow> BlockHeader list \<Rightarrow> bool" where
  "extends X hc [] \<longleftrightarrow> True"
| "extends X hc (h # hs) \<longleftrightarrow>
     prev_blockhash h \<noteq> 0 \<and> HeaderCache_tip_hash hc = Some (prev_blockhash h) \<and>
     (case HeaderCache_add_header X hc h of Some (hc', Ok (Some (_, _, Some _))) \<Rightarrow> extends X hc' hs | _ \<Rightarrow> False)"

lemma extendsE:
  assumes "extends X hc (h # hs)" "hc_inv X hc" "trunk_linked hc"
  obtains hc' c where "HeaderCache_add_header X hc h = Some (hc', Ok (Some (c, None, Some [x_hash X h])))" "extends X hc' hs"
    "ch_header c = h" "hc_inv X hc'" "trunk_linked hc'" "hc_trunk hc' = hc_trunk hc @ [x_hash X h]" "prev_blockhash h \<noteq> 0"
proof -
  obtain hc' c u f where a: "HeaderCache_add_header X hc h = Some (hc', Ok (Some (c, u, Some f)))" "extends X hc' hs"
    and nz: "prev_blockhash h \<noteq> 0" and tip: "HeaderCache_tip_hash hc = Some (prev_blockhash h)"
    using assms(1) by (auto split: option.splits outcome.splits)
  note T = tip_extended [OF assms(2,3) nz tip a(1)]
  obtain prev where "cached_of X prev h = Ok c" using add_header_stored [OF assms(2) nz a(1)] by metis
  then have "ch_header c = h" by (rule cached_of_Ok)
  moreover have "hc_inv X hc'" using add_header_inv [OF assms(2) nz a(1)] by simp
  ultimately show thesis using that [of hc' c] a T nz by auto
qed

lemma extends_added:
  assumes "hc_inv X hc" "trunk_linked hc" "extends X hc (hs @ rest)"
  shows "\<exists>hc'. add_all (HeaderCache_add_header X) hc hs = Some hc' \<and> hc_inv X hc' \<and> trunk_linked hc' \<and>
    hc_trunk hc' = hc_trunk hc @ map (x_hash X) hs \<and> extends X hc' rest \<and>
    accepts X hc hs \<and> map fst (new_headers X hc hs) = hs \<and> (\<forall>h\<in>set hs. prev_blockhash h \<noteq> 0)"
  using assms
proof (induction hs arbitrary: hc)
  case (Cons h hs)
  have e: "extends X hc (h # (hs @ rest))" using Cons.prems(3) by simp
  show ?case
    by (rule extendsE [OF e Cons.prems(1,2)]) (use Cons.IH in fastforce)
qed simp

section \<open>A peer that has it\<close>

text \<open>
  What a peer with a chain answers to a request for headers: if the first hash of the locator is on its
  chain, some of the headers after that one, and at least one if there is one.
\<close>

definition serves :: "ext \<Rightarrow> BlockHeader list \<Rightarrow> (hash list \<Rightarrow> BlockHeader list) \<Rightarrow> bool" where
  "serves X chain reply \<longleftrightarrow>
     (\<forall>i loc. i < length chain \<longrightarrow> loc \<noteq> [] \<longrightarrow> hd loc = x_hash X (chain ! i) \<longrightarrow>
        (\<exists>k. reply loc = take k (drop (Suc i) chain) \<and> (Suc i < length chain \<longrightarrow> 0 < k)))"

lemma served:
  assumes "serves X chain reply" "hc_inv X (cd_headercache cd)" "hc_trunk (cd_headercache cd) = map (x_hash X) known"
    "chain = known @ missing"
  shows "\<exists>rest. missing = reply (ChainDB_header_locators cd) @ rest \<and>
    (missing \<noteq> [] \<longrightarrow> reply (ChainDB_header_locators cd) \<noteq> [])"
proof -
  let ?loc = "ChainDB_header_locators cd"
  have "known \<noteq> []" using tree_inv_trunk(1) assms(2,3) by (auto simp: hc_inv_def)
  then have l: "hd ?loc = x_hash X (chain ! (length known - 1))" "Suc (length known - 1) = length known"
    using locators_start [OF assms(2)] assms(3,4) by (auto simp: last_map last_conv_nth nth_append)
  then obtain k where "reply ?loc = take k missing" "missing \<noteq> [] \<longrightarrow> 0 < k"
    using assms(1,4) locators_start(1) [OF assms(2)] \<open>known \<noteq> []\<close> unfolding serves_def
    by (metis append_eq_conv_conj length_append length_greater_0_conv less_add_same_cancel1 lessI trans_less_add1)
  then show ?thesis by (intro exI [of _ "drop k missing"]) simp
qed

section \<open>An answer\<close>

text \<open>The handler takes an answer that extends the trunk, and asks for what comes after it.\<close>

lemma answer_taken:
  assumes ok: "db_ok A" "never_fails A" and d: "cd_inv A X (hd_chaindb d)" "to_inv (hd_timeout d)"
      "owed (hd_timeout d) pid ExpectHeaders \<le> 1" "trunk_linked (cd_headercache (hd_chaindb d))"
    and now: "unat now + 60 < 2 ^ 64" and hs: "hs \<noteq> []" "extends X (cd_headercache (hd_chaindb d)) (hs @ rest)"
  obtains d' hts where "HeaderDownload_headers checks now A X recorder d hs pid = Some (d', Ok ())" "cd_inv A X (hd_chaindb d')"
    "trunk_linked (cd_headercache (hd_chaindb d'))"
    "hc_trunk (cd_headercache (hd_chaindb d')) = hc_trunk (cd_headercache (hd_chaindb d)) @ map (x_hash X) hs"
    "extends X (cd_headercache (hd_chaindb d')) rest"
    "map fst (connected_of (hd_downstream d')) = map fst (connected_of (hd_downstream d)) @ hs"
    "hd_p2p d' = hd_p2p d @ Send pid (GetHeaders (ChainDB_header_locators (hd_chaindb d'))
       (hd (ChainDB_header_locators (hd_chaindb d')))) # hts" "set hts \<subseteq> range Height"
    "owed (hd_timeout d') pid ExpectHeaders = 1" "to_inv (hd_timeout d')"
proof -
  have hc: "hc_inv X (cd_headercache (hd_chaindb d))" using d(1) by (simp add: cd_inv_def)
  obtain hc' where E: "add_all (HeaderCache_add_header X) (cd_headercache (hd_chaindb d)) hs = Some hc'" "trunk_linked hc'"
    "hc_trunk hc' = hc_trunk (cd_headercache (hd_chaindb d)) @ map (x_hash X) hs" "extends X hc' rest"
    "accepts X (cd_headercache (hd_chaindb d)) hs" "map fst (new_headers X (cd_headercache (hd_chaindb d)) hs) = hs"
    "\<forall>h\<in>set hs. prev_blockhash h \<noteq> 0"
    using extends_added [OF hc d(4) hs(2)] by blast
  have "new_headers X (cd_headercache (hd_chaindb d)) hs \<noteq> []" using E(6) hs(1) by auto
  with headers_good [OF ok d(1-3) now hs(1) E(7,5), of checks] show thesis
    using that E by (auto simp: Let_def)
qed

text \<open>An empty answer ends the download.\<close>

lemma empty_answer:
  assumes "to_inv (hd_timeout d)" "owed (hd_timeout d) pid ExpectHeaders \<le> 1" "unat now + 60 < 2 ^ 64"
  obtains t where "HeaderDownload_headers checks now A X D d [] pid = Some (d\<lparr>hd_timeout := t\<rparr>, Ok ())" "to_inv t"
    "owed t pid ExpectHeaders = 0"
  using replies.received_law [OF assms(1,3), of checks pid ExpectHeaders] assms(2) that
  by (auto simp: HeaderDownload_headers_def Let_def)

end
