(* ===== verification/Node_Sync.thy ===== *)
theory Node_Sync
  imports Node_Properties P2P_Handshake Chain_Sync
begin

text \<open>
  The download of a whole chain by the running node, from the bytes of one message to the next: the request goes
  through the control thread and the socket to the peer, and its answer through the event loop, the dispatcher
  and the download into the chain database.
\<close>

section \<open>A connection at rest\<close>

text \<open>The handshake is complete, and nothing is on its way to or from the peer.\<close>

definition rests :: "Peer \<Rightarrow> bool" where
  "rests p \<longleftrightarrow>
     p_connected p \<and> p_queue p = [] \<and> buf_inv (p_write_buffer p) \<and> unread (p_write_buffer p) = [] \<and>
     holds_bytes (p_read_buffer p) []"

definition at_rest :: "P2P \<Rightarrow> PeerId \<Rightarrow> bool" where
  "at_rest n pid \<longleftrightarrow>
     pid_network pid = ''bitcoin'' \<and> P2P_is_listener n (pid_token pid) = None \<and>
     HeaderDownload_is_serving_blocks n pid \<and> (\<exists>p. peer n pid = Some p \<and> rests p)"

definition writing :: "attempts \<Rightarrow> event" where
  "writing ws = \<lparr>ev_hup = False, ev_writable = True, ev_readable = False, ev_attempts = ws, ev_data = Ok []\<rparr>"

lemma at_rest_change:
  assumes "at_rest n pid" "peer n' pid = Some q" "rests q" "\<And>p. peer n pid = Some p \<Longrightarrow> p_version q = p_version p" "n_listener n' = n_listener n"
  shows "at_rest n' pid"
  using assms
  by (auto simp: at_rest_def HeaderDownload_is_serving_blocks_def P2PControlSender_peer_version_def P2P_is_listener_def)

text \<open>A request is written to the socket.\<close>

lemma request_written:
  assumes p: "peer n pid = Some (p\<lparr>p_queue := [m], p_writeable := True\<rparr>)" "rests p" and "grants E" "willing ws"
    "length (c_ser C (BitcoinP2PConfig_wrap (n_config n) m)) \<le> length ws"
    "length (c_ser C (BitcoinP2PConfig_wrap (n_config n) m)) \<le> length (c_iobuf C)"
  obtains q where "on_writable E C n pid (writing ws) =
      Some ((set_peer n pid q)\<lparr>n_sent := n_sent n @ [(pid, c_ser C (BitcoinP2PConfig_wrap (n_config n) m))]\<rparr>, Ok ())"
    "rests q" "p_version q = p_version p"
proof -
  let ?p = "p\<lparr>p_queue := [m], p_writeable := True\<rparr>"
  have b: "buf_inv (p_write_buffer ?p)" "unread (p_write_buffer ?p) = []" using p(2) by (simp_all add: rests_def)
  have s: "to_send (n_config n) (c_ser C) ?p = c_ser C (BitcoinP2PConfig_wrap (n_config n) m)" using b by (simp add: to_send_def)
  obtain q r k where q: "write_loop (n_config n) (c_ser C) E (c_iobuf C) ?p ws [] =
      Some (q, c_ser C (BitcoinP2PConfig_wrap (n_config n) m), r)" "to_send (n_config n) (c_ser C) q = []"
    "r = snd (Peer_reregister_read E k)"
    using write_loop_flushes [OF assms(4), of "n_config n" "c_ser C" ?p "c_iobuf C" E "[]"] b s assms(5,6) by auto
  have "r = Ok ()" using q(3) assms(3) by (auto simp: Peer_reregister_read_def grants_def)
  moreover have "rests q" "p_version q = p_version p"
    using write_loop_conserves [OF q(1) b(1)] q(2) p(2) calculation by (auto simp: frame rests_def to_send_def)
  ultimately show thesis using that q(1) p(1) by (simp add: on_writable_def writing_def)
qed

text \<open>An answer that arrives in one read is handed to the dispatcher.\<close>

lemma answer_read:
  assumes codec: "codec_ok M (c_ser C) (c_dec C)" "m \<in> M" "c_ser C m \<noteq> []" and p: "peer n pid = Some p" "rests p"
  obtains b where "rests (p\<lparr>p_read_buffer := b\<rparr>)"
    "P2P_readable E C n pid needed (reading (c_ser C m)) =
       Some (dispatch (set_peer n pid (p\<lparr>p_read_buffer := b\<rparr>)) (Incoming pid (raw_payload m)), Ok ())"
proof -
  let ?f = "\<lambda>s. s\<lparr>r_incoming := r_incoming s @ [m]\<rparr>"
  have "on_message (n_config n) E needed m s = (?f s, Ok True)"
    if "s = \<lparr>r_peer = p\<lparr>p_read_buffer := b\<rparr>, r_incoming = [], r_disconnect = False, r_ban = False, r_handshake = False, r_address = None\<rparr>"
    for s b using that p(2) by (simp add: on_message_def rests_def)
  then obtain b where "holds_bytes b []" "P2P_readable E C n pid needed (reading (c_ser C m)) =
       Some (dispatch (set_peer n pid (p\<lparr>p_read_buffer := b\<rparr>)) (Incoming pid (raw_payload m)), Ok ())"
    using one_message [OF codec p(1), of "reading (c_ser C m)" E needed ?f] p(2)
    by (auto simp: rests_def reading_def after_read_def Let_def BitcoinP2PConfig_unwrap_def)
  then show thesis using that p(2) by (simp add: rests_def)
qed

section \<open>The control thread\<close>

lemma wrap_height [simp]: "BitcoinP2PConfig_wrap (BitcoinP2PConfig_set_height cfg h) = BitcoinP2PConfig_wrap cfg"
  by (simp add: fun_eq_iff BitcoinP2PConfig_wrap_def BitcoinP2PConfig_set_height_def config_defs)

lemma heights_drained:
  assumes "set hts \<subseteq> range Height" "co_control nd = hts"
  shows "\<exists>cfg. node_run checks C A X D (replicate (length hts) (Control E)) nd =
      Some (nd\<lparr>co_p2p := (co_p2p nd)\<lparr>n_config := cfg\<rparr>, co_control := []\<rparr>, Ok ()) \<and>
    BitcoinP2PConfig_wrap cfg = BitcoinP2PConfig_wrap (n_config (co_p2p nd))"
  using assms
proof (induction hts arbitrary: nd)
  case Nil
  then show ?case by (intro exI [of _ "n_config (co_p2p nd)"]) simp
next
  case (Cons c hts)
  then obtain h where c: "c = Height h" by auto
  let ?n = "(co_p2p nd)\<lparr>n_config := BitcoinP2PConfig_set_height (n_config (co_p2p nd)) h\<rparr>"
  let ?nd = "nd\<lparr>co_p2p := ?n, co_control := hts\<rparr>"
  have "control_thread checks E nd = (?nd, Ok ())" using Cons.prems(2) c by (simp add: control_thread_def control_step_def)
  then show ?case using Cons.IH [of ?nd] Cons.prems(1) by auto
qed

text \<open>The control thread hands the request to the peer.\<close>

lemma request_queued:
  assumes "at_rest (co_p2p nd) pid" "grants E" "co_control nd = Send pid m # hts" "set hts \<subseteq> range Height"
  obtains n p where "node_run checks C A X D (replicate (length (co_control nd)) (Control E)) nd =
      Some (nd\<lparr>co_p2p := n, co_control := []\<rparr>, Ok ())"
    "peer (co_p2p nd) pid = Some p" "rests p" "peer n pid = Some (p\<lparr>p_queue := [m], p_writeable := True\<rparr>)"
    "n_dispatched n = n_dispatched (co_p2p nd)" "n_listener n = n_listener (co_p2p nd)"
    "BitcoinP2PConfig_wrap (n_config n) = BitcoinP2PConfig_wrap (n_config (co_p2p nd))"
proof -
  obtain p where p: "peer (co_p2p nd) pid = Some p" "rests p" using assms(1) by (auto simp: at_rest_def)
  let ?n = "set_peer (co_p2p nd) pid (p\<lparr>p_queue := [m], p_writeable := True\<rparr>)"
  let ?nd = "nd\<lparr>co_p2p := ?n, co_control := hts\<rparr>"
  have 1: "control_thread checks E nd = (?nd, Ok ())"
    using p assms(2,3) by (simp add: control_thread_def control_step_def send_granted_eq rests_def)
  obtain cfg where cfg: "node_run checks C A X D (replicate (length hts) (Control E)) ?nd =
      Some (?nd\<lparr>co_p2p := ?n\<lparr>n_config := cfg\<rparr>, co_control := []\<rparr>, Ok ())"
    "BitcoinP2PConfig_wrap cfg = BitcoinP2PConfig_wrap (n_config ?n)"
    using heights_drained [OF assms(4), of ?nd checks C A X D E] by auto
  then have "node_run checks C A X D (replicate (length (co_control nd)) (Control E)) nd =
      Some (nd\<lparr>co_p2p := ?n\<lparr>n_config := cfg\<rparr>, co_control := []\<rparr>, Ok ())"
    using 1 assms(3) by simp
  then show thesis using p cfg(2) by (intro that [of "?n\<lparr>n_config := cfg\<rparr>" p]) (simp_all add: set_peer_def update_conv')
qed

section \<open>The modules\<close>

text \<open>The dispatcher and both modules work on one message of the network layer, which the ping ignores.\<close>

lemma message_handled:
  assumes "idle nd" "n_dispatched n = n_dispatched (co_p2p nd) @ [msg]" "nd' = nd\<lparr>co_p2p := n, co_control := q\<rparr>"
    "HeaderDownload_message checks now A X D n (download_of nd') msg = Some (d, Ok ())"
    "\<And>p. ping_message checks now p msg = Ok p"
  obtains nd'' where "node_run checks C A X D [Dispatch, Download now, PingTake now] nd' = Some (nd'', Ok ())" "idle nd''"
    "download_of nd'' = d" "co_p2p nd'' = n"
proof -
  define nd1 where "nd1 = nd'\<lparr>co_dispatcher := \<lparr>listeners = [Some [msg], Some [msg]]\<rparr>, nd_taken := Suc (nd_taken nd)\<rparr>"
  have 1: "dispatcher_thread nd' = nd1"
    using assms(1-3)
    by (cases "co_dispatcher nd") (simp add: nd1_def dispatcher_thread_def Dispatcher_forward_def PeerMessageSender_send_def idle_def)
  define nd2 where "nd2 = (set_download nd1 d)\<lparr>co_dispatcher := \<lparr>listeners = [Some [], Some [msg]]\<rparr>,
    nd_download_seen := nd_download_seen nd @ [msg]\<rparr>"
  have 2: "download_thread checks A X D now nd1 = Some (nd2, Ok ())"
    using assms(3,4) by (simp add: download_thread_def channel_recv_def nd1_def nd2_def download_of_def)
  define nd3 where "nd3 = nd2\<lparr>co_dispatcher := \<lparr>listeners = [Some [], Some []]\<rparr>, nd_ping_seen := nd_ping_seen nd @ [msg]\<rparr>"
  have 3: "ping_thread checks now nd2 = (nd3, Ok ())"
    using assms(3,5)
    by (simp add: ping_thread_def channel_recv_def nd3_def nd2_def nd1_def set_ping_def ping_of_def set_download_def Let_def)
  show thesis
    by (rule that [of nd3]) (use 1 2 3 assms(1-3) in \<open>simp_all add: nd3_def nd2_def nd1_def set_download_def download_of_def idle_def\<close>)
qed

section \<open>An exchange with the peer\<close>

text \<open>
  A request and its answer. The control thread works through its channel; the event loop writes to the socket; the
  peer, a function of the bytes it gets to those it sends, answers; the event loop reads that; and the
  dispatcher and the modules handle it. If there is nothing to send, nothing happens.
\<close>

definition exchange ::
  "bool \<Rightarrow> codec \<Rightarrow> 'd db_api \<Rightarrow> ext \<Rightarrow> 's Downstream \<Rightarrow> os \<Rightarrow> attempts \<Rightarrow> (u8 list \<Rightarrow> u8 list) \<Rightarrow> PeerId \<Rightarrow> u64 \<Rightarrow>
   ('d, 's) Node \<Rightarrow> (('d, 's) Node \<times> unit result) option" where
  "exchange checks C A X D E ws remote pid now nd =
     (if co_control nd = [] then Some (nd, Ok ())
      else
        (case node_run checks C A X D
            (replicate (length (co_control nd)) (Control E) @ [Event E (pid_token pid) (writing ws)]) nd of
           Some (nd, Ok _) \<Rightarrow>
             node_run checks C A X D
               [Event E (pid_token pid) (reading (remote (snd (last (n_sent (co_p2p nd)))))), Dispatch, Download now, PingTake now] nd
         | r \<Rightarrow> r))"

fun exchanges ::
  "bool \<Rightarrow> codec \<Rightarrow> 'd db_api \<Rightarrow> ext \<Rightarrow> 's Downstream \<Rightarrow> os \<Rightarrow> attempts \<Rightarrow> (u8 list \<Rightarrow> u8 list) \<Rightarrow> PeerId \<Rightarrow> u64 list \<Rightarrow>
   ('d, 's) Node \<Rightarrow> (('d, 's) Node \<times> unit result) option" where
  "exchanges checks C A X D E ws remote pid [] nd = Some (nd, Ok ())"
| "exchanges checks C A X D E ws remote pid (now # nows) nd =
     (case exchange checks C A X D E ws remote pid now nd of
        Some (nd, Ok _) \<Rightarrow> exchanges checks C A X D E ws remote pid nows nd
      | r \<Rightarrow> r)"

lemma event_of_peer:
  assumes "P2P_is_listener (co_p2p nd) (pid_token pid) = None" "pid_network pid = ''bitcoin''"
  shows "on_writable E C (co_p2p nd) pid (writing ws) = Some (n, Ok ()) \<Longrightarrow>
      event_step checks C E (pid_token pid) (writing ws) nd = Some (nd\<lparr>co_p2p := n\<rparr>, Ok ())"
    "P2P_readable E C (co_p2p nd) pid 0 (reading bytes) = Some (n, Ok ()) \<Longrightarrow>
      event_step checks C E (pid_token pid) (reading bytes) nd = Some (nd\<lparr>co_p2p := n\<rparr>, Ok ())"
proof -
  have "\<lparr>pid_network = ''bitcoin'', pid_token = pid_token pid\<rparr> = pid" using assms(2) by (cases pid) simp
  then show "on_writable E C (co_p2p nd) pid (writing ws) = Some (n, Ok ()) \<Longrightarrow>
      event_step checks C E (pid_token pid) (writing ws) nd = Some (nd\<lparr>co_p2p := n\<rparr>, Ok ())"
    "P2P_readable E C (co_p2p nd) pid 0 (reading bytes) = Some (n, Ok ()) \<Longrightarrow>
      event_step checks C E (pid_token pid) (reading bytes) nd = Some (nd\<lparr>co_p2p := n\<rparr>, Ok ())"
    using assms(1) by (simp_all add: event_step_def poll_event_def P2P_event_processor_def writing_def reading_def)
qed

text \<open>The network part of an exchange: the answer is reported to the dispatcher.\<close>

lemma exchange_answered:
  assumes nd: "at_rest (co_p2p nd) pid" "co_control nd = Send pid m # hts" "set hts \<subseteq> range Height" and "grants E" "willing ws"
    and bytes: "bytes = c_ser C (BitcoinP2PConfig_wrap (n_config (co_p2p nd)) m)" "length bytes \<le> length ws" "length bytes \<le> length (c_iobuf C)"
    and codec: "codec_ok M (c_ser C) (c_dec C)" "r \<in> M" "c_ser C r \<noteq> []" "remote bytes = c_ser C r"
  obtains n where "exchange checks C A X D E ws remote pid now nd =
      node_run checks C A X D [Dispatch, Download now, PingTake now] (nd\<lparr>co_p2p := n, co_control := []\<rparr>)"
    "at_rest n pid" "n_dispatched n = n_dispatched (co_p2p nd) @ [Incoming pid (raw_payload r)]"
    "BitcoinP2PConfig_wrap (n_config n) = BitcoinP2PConfig_wrap (n_config (co_p2p nd))"
proof -
  obtain n1 p where 1: "node_run checks C A X D (replicate (length (co_control nd)) (Control E)) nd =
      Some (nd\<lparr>co_p2p := n1, co_control := []\<rparr>, Ok ())"
    "peer (co_p2p nd) pid = Some p" "rests p" "peer n1 pid = Some (p\<lparr>p_queue := [m], p_writeable := True\<rparr>)"
    "n_dispatched n1 = n_dispatched (co_p2p nd)" "n_listener n1 = n_listener (co_p2p nd)"
    "BitcoinP2PConfig_wrap (n_config n1) = BitcoinP2PConfig_wrap (n_config (co_p2p nd))"
    by (rule request_queued [OF nd(1) assms(4) nd(2,3)])
  obtain q where q: "on_writable E C n1 pid (writing ws) = Some ((set_peer n1 pid q)\<lparr>n_sent := n_sent n1 @ [(pid, bytes)]\<rparr>, Ok ())"
    "rests q" "p_version q = p_version p"
    using request_written [OF 1(4,3) assms(4,5), of C] bytes 1(7) by metis
  define n2 where "n2 = (set_peer n1 pid q)\<lparr>n_sent := n_sent n1 @ [(pid, bytes)]\<rparr>"
  have n2: "peer n2 pid = Some q" by (simp add: n2_def)
  obtain b where b: "rests (q\<lparr>p_read_buffer := b\<rparr>)" "P2P_readable E C n2 pid 0 (reading (c_ser C r)) =
      Some (dispatch (set_peer n2 pid (q\<lparr>p_read_buffer := b\<rparr>)) (Incoming pid (raw_payload r)), Ok ())"
    by (rule answer_read [OF codec(1-3) n2 q(2)])
  define n3 where "n3 = dispatch (set_peer n2 pid (q\<lparr>p_read_buffer := b\<rparr>)) (Incoming pid (raw_payload r))"
  have l: "pid_network pid = ''bitcoin''" "P2P_is_listener n1 (pid_token pid) = None" "P2P_is_listener n2 (pid_token pid) = None"
    using nd(1) 1(6) by (simp_all add: at_rest_def P2P_is_listener_def n2_def set_peer_def)
  have e1: "event_step checks C E (pid_token pid) (writing ws) (nd\<lparr>co_p2p := n1, co_control := []\<rparr>) =
      Some (nd\<lparr>co_p2p := n2, co_control := []\<rparr>, Ok ())"
    using event_of_peer(1) [of "nd\<lparr>co_p2p := n1, co_control := []\<rparr>" pid E C ws n2 checks] l q(1) by (simp add: n2_def)
  have e2: "event_step checks C E (pid_token pid) (reading (c_ser C r)) (nd\<lparr>co_p2p := n2, co_control := []\<rparr>) =
      Some (nd\<lparr>co_p2p := n3, co_control := []\<rparr>, Ok ())"
    using event_of_peer(2) [of "nd\<lparr>co_p2p := n2, co_control := []\<rparr>" pid E C "c_ser C r" n3 checks] l b(2) by (simp add: n3_def)
  have w: "node_run checks C A X D (replicate (length (co_control nd)) (Control E) @ [Event E (pid_token pid) (writing ws)]) nd =
      Some (nd\<lparr>co_p2p := n2, co_control := []\<rparr>, Ok ())"
    using e1 by (simp add: node_run_append 1(1))
  have "snd (last (n_sent n2)) = bytes" "co_control nd \<noteq> []" using nd(2) by (simp_all add: n2_def)
  then have x: "exchange checks C A X D E ws remote pid now nd =
      node_run checks C A X D [Dispatch, Download now, PingTake now] (nd\<lparr>co_p2p := n3, co_control := []\<rparr>)"
    using e2 codec(4) unfolding exchange_def w by simp
  show thesis
  proof (rule that [OF x])
    show "at_rest n3 pid"
      by (rule at_rest_change [OF nd(1), of _ "q\<lparr>p_read_buffer := b\<rparr>"])
        (use b(1) 1(2,6) q(3) in \<open>auto simp: n3_def n2_def dispatch_def set_peer_def update_conv'\<close>)
  qed (use 1(5,7) in \<open>simp_all add: n3_def n2_def dispatch_def set_peer_def\<close>)
qed

section \<open>The whole chain\<close>

text \<open>The locator for a trunk.\<close>

definition locator_of :: "hash list \<Rightarrow> hash list" where
  "locator_of ts = locator_loop (rev ts) [] 1 0 0"

lemma locators_of_trunk: "ChainDB_header_locators cd = locator_of (hc_trunk (cd_headercache cd))"
  by (simp add: ChainDB_header_locators_def HeaderCache_locator_hashes_def locator_of_def)

text \<open>
  A peer, as a function on bytes, that has the chain: to a request with the locator of a part of the chain it answers
  with a message that holds the reply. The request fits into the buffer for input and output, and the socket
  takes it.
\<close>

definition remote_serves ::
  "RawNetworkMessage set \<Rightarrow> codec \<Rightarrow> BitcoinP2PConfig \<Rightarrow> attempts \<Rightarrow> ext \<Rightarrow> BlockHeader list \<Rightarrow> (hash list \<Rightarrow> BlockHeader list) \<Rightarrow>
   (u8 list \<Rightarrow> u8 list) \<Rightarrow> bool" where
  "remote_serves M C cfg ws X chain reply remote \<longleftrightarrow>
     (\<forall>k. 0 < k \<longrightarrow> k \<le> length chain \<longrightarrow>
        (let loc = locator_of (map (x_hash X) (take k chain));
             bytes = c_ser C (BitcoinP2PConfig_wrap cfg (GetHeaders loc (hd loc)))
         in length bytes \<le> length ws \<and> length bytes \<le> length (c_iobuf C) \<and>
            (\<exists>r\<in>M. raw_payload r = Headers (reply loc) \<and> c_ser C r \<noteq> [] \<and> remote bytes = c_ser C r)))"

text \<open>The node has a part of the chain; it has asked for what follows; it has been told that there is no more.\<close>

definition has_chain :: "'d db_api \<Rightarrow> ext \<Rightarrow> PeerId \<Rightarrow> BlockHeader list \<Rightarrow> ('d, 's) Node \<Rightarrow> bool" where
  "has_chain A X pid known nd \<longleftrightarrow>
     idle nd \<and> at_rest (co_p2p nd) pid \<and> cd_inv A X (co_chaindb nd) \<and> to_inv (co_timeout nd) \<and>
     trunk_linked (cd_headercache (co_chaindb nd)) \<and>
     hc_trunk (cd_headercache (co_chaindb nd)) = map (x_hash X) known"

definition asking :: "'d db_api \<Rightarrow> ext \<Rightarrow> PeerId \<Rightarrow> BlockHeader list \<Rightarrow> ('d, 's) Node \<Rightarrow> bool" where
  "asking A X pid known nd \<longleftrightarrow>
     has_chain A X pid known nd \<and> owed (co_timeout nd) pid ExpectHeaders = 1 \<and>
     (\<exists>hts. set hts \<subseteq> range Height \<and>
        co_control nd = Send pid (GetHeaders (locator_of (map (x_hash X) known)) (hd (locator_of (map (x_hash X) known)))) # hts)"

lemma has_chainD:
  assumes "has_chain A X pid known nd"
  shows "idle nd" "at_rest (co_p2p nd) pid" "cd_inv A X (co_chaindb nd)" "to_inv (co_timeout nd)"
    "trunk_linked (cd_headercache (co_chaindb nd))" "hc_trunk (cd_headercache (co_chaindb nd)) = map (x_hash X) known"
    "hc_inv X (cd_headercache (co_chaindb nd))" "ChainDB_header_locators (co_chaindb nd) = locator_of (map (x_hash X) known)"
  using assms by (auto simp: has_chain_def cd_inv_def locators_of_trunk)

lemma headers_message:
  "at_rest n pid \<Longrightarrow> HeaderDownload_message checks now A X D n d (Incoming pid (Headers hs)) =
     HeaderDownload_headers checks now A X D d hs pid"
  "ping_message checks now p (Incoming pid (Headers hs)) = Ok p" "ping_message checks now p (Connected pid a) = Ok p"
  by (simp_all add: HeaderDownload_message_def at_rest_def ping_message_def)

lemma download_ofD:
  "download_of nd = d \<Longrightarrow> co_control nd = hd_p2p d \<and> co_chaindb nd = hd_chaindb d \<and> co_timeout nd = hd_timeout d \<and>
     co_downstream nd = hd_downstream d"
  by (auto simp: download_of_def)

text \<open>An exchange is the handling of the peer's reply by the download.\<close>

lemma exchange_delivers:
  assumes ok: "grants E" "willing ws" "codec_ok M (c_ser C) (c_dec C)" and nd: "asking A X pid known nd"
    and peer: "remote_serves M C (n_config (co_p2p nd)) ws X (known @ missing) reply remote"
  obtains n d where "at_rest n pid" "BitcoinP2PConfig_wrap (n_config n) = BitcoinP2PConfig_wrap (n_config (co_p2p nd))"
    "hd_p2p d = []" "hd_chaindb d = co_chaindb nd" "hd_timeout d = co_timeout nd" "hd_downstream d = co_downstream nd"
    "\<forall>d'. HeaderDownload_headers checks now A X D d (reply (locator_of (map (x_hash X) known))) pid = Some (d', Ok ()) \<longrightarrow>
       (\<exists>nd'. exchange checks C A X D E ws remote pid now nd = Some (nd', Ok ()) \<and> idle nd' \<and> download_of nd' = d' \<and> co_p2p nd' = n)"
proof -
  let ?loc = "locator_of (map (x_hash X) known)"
  define bytes where "bytes = c_ser C (BitcoinP2PConfig_wrap (n_config (co_p2p nd)) (GetHeaders ?loc (hd ?loc)))"
  have "has_chain A X pid known nd" using nd by (simp add: asking_def)
  note H = has_chainD [OF this]
  obtain hts where hts: "co_control nd = Send pid (GetHeaders ?loc (hd ?loc)) # hts" "set hts \<subseteq> range Height"
    using nd by (auto simp: asking_def)
  have k: "known \<noteq> []" using tree_inv_trunk(1) H(6,7) by (auto simp: hc_inv_def)
  obtain r where r: "r \<in> M" "raw_payload r = Headers (reply ?loc)" "c_ser C r \<noteq> []" "remote bytes = c_ser C r"
    and l: "length bytes \<le> length ws" "length bytes \<le> length (c_iobuf C)"
    using peer k unfolding remote_serves_def Let_def bytes_def by (auto dest!: spec [of _ "length known"])
  obtain n where n: "exchange checks C A X D E ws remote pid now nd =
      node_run checks C A X D [Dispatch, Download now, PingTake now] (nd\<lparr>co_p2p := n, co_control := []\<rparr>)"
    "at_rest n pid" "n_dispatched n = n_dispatched (co_p2p nd) @ [Incoming pid (Headers (reply ?loc))]"
    "BitcoinP2PConfig_wrap (n_config n) = BitcoinP2PConfig_wrap (n_config (co_p2p nd))"
    using exchange_answered [where remote = remote, OF H(2) hts ok(1,2) bytes_def l ok(3) r(1,3,4), of checks A X D now]
    unfolding r(2) by metis
  define nd1 where "nd1 = nd\<lparr>co_p2p := n, co_control := []\<rparr>"
  have "\<exists>nd2. exchange checks C A X D E ws remote pid now nd = Some (nd2, Ok ()) \<and> idle nd2 \<and> download_of nd2 = d' \<and> co_p2p nd2 = n"
    if "HeaderDownload_headers checks now A X D (download_of nd1) (reply ?loc) pid = Some (d', Ok ())" for d'
    using message_handled [OF H(1) n(3) nd1_def, of checks now A X D d' C] that n(1,2)
    unfolding headers_message(1) [OF n(2)] nd1_def [symmetric] headers_message(2) by metis
  then show thesis using n(2,4) by (intro that [of n "download_of nd1"]) (simp_all add: nd1_def download_of_def)
qed

lemma exchange_takes:
  assumes ok: "db_ok A" "never_fails A" "grants E" "willing ws" "codec_ok M (c_ser C) (c_dec C)" "unat now + 60 < 2 ^ 64"
    and nd: "asking A X pid known nd" "extends X (cd_headercache (co_chaindb nd)) missing"
    and peer: "serves X (known @ missing) reply" "remote_serves M C (n_config (co_p2p nd)) ws X (known @ missing) reply remote"
  obtains hs rest nd' where "missing = hs @ rest" "missing \<noteq> [] \<longrightarrow> hs \<noteq> []"
    "exchange checks C A X recorder E ws remote pid now nd = Some (nd', Ok ())"
    "hs \<noteq> [] \<longrightarrow> asking A X pid (known @ hs) nd'" "extends X (cd_headercache (co_chaindb nd')) rest"
    "hs = [] \<longrightarrow> has_chain A X pid known nd' \<and> owed (co_timeout nd') pid ExpectHeaders = 0 \<and> co_control nd' = []"
    "map fst (connected_of (co_downstream nd')) = map fst (connected_of (co_downstream nd)) @ hs"
    "BitcoinP2PConfig_wrap (n_config (co_p2p nd')) = BitcoinP2PConfig_wrap (n_config (co_p2p nd))"
proof -
  have h: "has_chain A X pid known nd" "owed (co_timeout nd) pid ExpectHeaders = 1" using nd(1) by (simp_all add: asking_def)
  note H = has_chainD [OF h(1)]
  define hs where "hs = reply (locator_of (map (x_hash X) known))"
  obtain rest where rest: "missing = hs @ rest" "missing \<noteq> [] \<longrightarrow> hs \<noteq> []"
    using served [OF peer(1) H(7,6) refl] unfolding H(8) hs_def by blast
  obtain n d where n: "at_rest n pid" "BitcoinP2PConfig_wrap (n_config n) = BitcoinP2PConfig_wrap (n_config (co_p2p nd))"
    and d: "hd_p2p d = []" "hd_chaindb d = co_chaindb nd" "hd_timeout d = co_timeout nd" "hd_downstream d = co_downstream nd"
    and go: "\<forall>d'. HeaderDownload_headers checks now A X recorder d hs pid = Some (d', Ok ()) \<longrightarrow>
       (\<exists>nd'. exchange checks C A X recorder E ws remote pid now nd = Some (nd', Ok ()) \<and> idle nd' \<and> download_of nd' = d' \<and> co_p2p nd' = n)"
    unfolding hs_def by (rule exchange_delivers [where checks = checks, OF ok(3-5) nd(1) peer(2)])
  show thesis
  proof (cases "hs = []")
    case True
    obtain t where t: "HeaderDownload_headers checks now A X recorder d hs pid = Some (d\<lparr>hd_timeout := t\<rparr>, Ok ())"
      "to_inv t" "owed t pid ExpectHeaders = 0"
      unfolding True by (rule empty_answer [of d pid now checks A X recorder]) (use H(4) h(2) d(3) ok(6) in simp_all)
    obtain nd2 where nd2: "exchange checks C A X recorder E ws remote pid now nd = Some (nd2, Ok ())" "idle nd2"
      "download_of nd2 = d\<lparr>hd_timeout := t\<rparr>" "co_p2p nd2 = n" using go t(1) by blast
    note f = download_ofD [OF nd2(3)]
    have "has_chain A X pid known nd2" using nd2(2,4) f n(1) t(2) H d by (simp add: has_chain_def)
    moreover have "missing = []" using rest True by simp
    ultimately show thesis by (intro that [of "[]" missing nd2]) (simp_all add: nd2 f t(3) n(2) d)
  next
    case False
    obtain d' hts where a: "HeaderDownload_headers checks now A X recorder d hs pid = Some (d', Ok ())"
      "cd_inv A X (hd_chaindb d')" "trunk_linked (cd_headercache (hd_chaindb d'))"
      "hc_trunk (cd_headercache (hd_chaindb d')) = hc_trunk (cd_headercache (hd_chaindb d)) @ map (x_hash X) hs"
      "extends X (cd_headercache (hd_chaindb d')) rest"
      "map fst (connected_of (hd_downstream d')) = map fst (connected_of (hd_downstream d)) @ hs"
      "hd_p2p d' = hd_p2p d @ Send pid (GetHeaders (ChainDB_header_locators (hd_chaindb d'))
         (hd (ChainDB_header_locators (hd_chaindb d')))) # hts" "set hts \<subseteq> range Height"
      "owed (hd_timeout d') pid ExpectHeaders = 1" "to_inv (hd_timeout d')"
      by (rule answer_taken [OF ok(1,2) _ _ _ _ ok(6) False, of X d pid rest checks])
        (use nd(2) rest(1) d H(3-5) h(2) in simp_all)
    obtain nd2 where nd2: "exchange checks C A X recorder E ws remote pid now nd = Some (nd2, Ok ())" "idle nd2"
      "download_of nd2 = d'" "co_p2p nd2 = n" using go a(1) by blast
    note f = download_ofD [OF nd2(3)]
    have "has_chain A X pid (known @ hs) nd2" using nd2(2,4) f a n(1) H(6) d(2) by (simp add: has_chain_def)
    then have "asking A X pid (known @ hs) nd2"
      using a(7-9) f d(1) has_chainD(8) [of A X pid "known @ hs" nd2] by (simp add: asking_def)
    then show thesis by (intro that [of hs rest nd2]) (use rest nd2 f a d(4) n(2) False in auto)
  qed
qed

lemma remote_serves_wrap:
  "BitcoinP2PConfig_wrap cfg = BitcoinP2PConfig_wrap cfg' \<Longrightarrow>
   remote_serves M C cfg ws X chain reply remote = remote_serves M C cfg' ws X chain reply remote"
  by (simp add: remote_serves_def)

lemma nothing_asked: "co_control nd = [] \<Longrightarrow> exchanges checks C A X D E ws remote pid nows nd = Some (nd, Ok ())"
  by (induction nows) (simp_all add: exchange_def)

lemma chain_exchanged:
  assumes ok: "db_ok A" "never_fails A" "grants E" "willing ws" "codec_ok M (c_ser C) (c_dec C)"
    and nd: "asking A X pid known nd" "extends X (cd_headercache (co_chaindb nd)) missing"
    and peer: "serves X (known @ missing) reply" "remote_serves M C (n_config (co_p2p nd)) ws X (known @ missing) reply remote"
    and nows: "length missing < length nows" "\<forall>now\<in>set nows. unat now + 60 < 2 ^ 64"
  shows "\<exists>nd'. exchanges checks C A X recorder E ws remote pid nows nd = Some (nd', Ok ()) \<and>
    has_chain A X pid (known @ missing) nd' \<and> owed (co_timeout nd') pid ExpectHeaders = 0 \<and> co_control nd' = [] \<and>
    map fst (connected_of (co_downstream nd')) = map fst (connected_of (co_downstream nd)) @ missing"
  using nd peer nows
proof (induction nows arbitrary: nd known missing)
  case (Cons now nows)
  have now: "unat now + 60 < 2 ^ 64" using Cons.prems(6) by simp
  obtain hs rest nd1 where x: "missing = hs @ rest" "missing \<noteq> [] \<longrightarrow> hs \<noteq> []"
    "exchange checks C A X recorder E ws remote pid now nd = Some (nd1, Ok ())"
    "hs \<noteq> [] \<longrightarrow> asking A X pid (known @ hs) nd1" "extends X (cd_headercache (co_chaindb nd1)) rest"
    "hs = [] \<longrightarrow> has_chain A X pid known nd1 \<and> owed (co_timeout nd1) pid ExpectHeaders = 0 \<and> co_control nd1 = []"
    "map fst (connected_of (co_downstream nd1)) = map fst (connected_of (co_downstream nd)) @ hs"
    "BitcoinP2PConfig_wrap (n_config (co_p2p nd1)) = BitcoinP2PConfig_wrap (n_config (co_p2p nd))"
    by (rule exchange_takes [where checks = checks, OF ok now Cons.prems(1-4)])
  show ?case
  proof (cases "hs = []")
    case True
    then have "missing = []" "has_chain A X pid known nd1" "owed (co_timeout nd1) pid ExpectHeaders = 0" and q: "co_control nd1 = []"
      using x(2,6) by blast+
    then show ?thesis using x(3,7) True nothing_asked [OF q] by (intro exI [of _ nd1]) simp
  next
    case False
    have "length rest < length nows" using Cons.prems(5) x(1) False by (cases hs) auto
    then show ?thesis
      using Cons.IH [OF x(4) [rule_format, OF False] x(5)] x(1,3,7) Cons.prems(3,4,6) remote_serves_wrap [OF x(8)] by auto
  qed
qed simp

text \<open>
  C7. The node downloads the chain. When it has got connected to a peer that serves blocks, and the peer has a chain of
  which the node's trunk is a beginning and whose other headers extend it with proof of work, then the node, as
  its threads take turns, asks the peer again and again, with the bytes of one request at a time, until it has the whole chain: at
  the end its trunk is that chain, linked and on disk, the application has been told of each new header once
  and in order, nothing is expected of the peer, and no thread has anything left to do. It
  takes at most one exchange for each header that was missing, and one more.
\<close>
theorem chain_downloaded:
  assumes ok: "db_ok A" "never_fails A" "grants E" "willing ws" "codec_ok M (c_ser C) (c_dec C)"
    and nd: "listeners (co_dispatcher nd) = [Some [], Some []]"
      "drop (nd_taken nd) (n_dispatched (co_p2p nd)) = [Connected pid addr]" "at_rest (co_p2p nd) pid" "co_control nd = []"
      "cd_inv A X (co_chaindb nd)" "to_inv (co_timeout nd)" "owed (co_timeout nd) pid ExpectHeaders = 0"
    and chain: "trunk_linked (cd_headercache (co_chaindb nd))"
      "hc_trunk (cd_headercache (co_chaindb nd)) = map (x_hash X) known" "extends X (cd_headercache (co_chaindb nd)) missing"
    and peer: "serves X (known @ missing) reply" "remote_serves M C (n_config (co_p2p nd)) ws X (known @ missing) reply remote"
    and nows: "length missing < length nows" "\<forall>now\<in>set (now0 # nows). unat now + 60 < 2 ^ 64"
  shows "\<exists>nd1 nd'. node_run checks C A X recorder [Dispatch, Download now0, PingTake now0] nd = Some (nd1, Ok ()) \<and>
    exchanges checks C A X recorder E ws remote pid nows nd1 = Some (nd', Ok ()) \<and>
    hc_trunk (cd_headercache (co_chaindb nd')) = map (x_hash X) (known @ missing) \<and>
    trunk_linked (cd_headercache (co_chaindb nd')) \<and> cd_inv A X (co_chaindb nd') \<and>
    map fst (connected_of (co_downstream nd')) = map fst (connected_of (co_downstream nd)) @ missing \<and>
    owed (co_timeout nd') pid ExpectHeaders = 0 \<and> co_control nd' = [] \<and> idle nd' \<and> at_rest (co_p2p nd') pid"
proof -
  define n where "n = (co_p2p nd)\<lparr>n_dispatched := take (nd_taken nd) (n_dispatched (co_p2p nd))\<rparr>"
  have "nd_taken nd < length (n_dispatched (co_p2p nd))" using nd(2) by (metis drop_eq_Nil leI list.distinct(1))
  then have i: "idle (nd\<lparr>co_p2p := n\<rparr>)" using nd(1) by (simp add: idle_def n_def)
  have m: "n_dispatched (co_p2p nd) = n_dispatched (co_p2p (nd\<lparr>co_p2p := n\<rparr>)) @ [Connected pid addr]"
    using nd(2) append_take_drop_id [of "nd_taken nd" "n_dispatched (co_p2p nd)"] by (simp add: n_def)
  have e: "nd = (nd\<lparr>co_p2p := n\<rparr>)\<lparr>co_p2p := co_p2p nd, co_control := []\<rparr>" using nd(4) by simp
  have hc: "hc_inv X (cd_headercache (co_chaindb nd))" using nd(5) by (simp add: cd_inv_def)
  let ?loc = "locator_of (map (x_hash X) known)"
  obtain t where t: "HeaderDownload_get_headers checks now0 (download_of nd) pid =
      ((download_of nd)\<lparr>hd_p2p := [Send pid (GetHeaders ?loc (hd ?loc))], hd_timeout := t\<rparr>, Ok ())"
    "owed t pid ExpectHeaders = 1" "to_inv t"
    using ask_idle [of "download_of nd" now0 pid X checks] nd(4,6,7) nows(2) hc chain(2)
    by (auto simp: download_of_def locators_of_trunk)
  have "HeaderDownload_message checks now0 A X recorder (co_p2p nd) (download_of nd) (Connected pid addr) =
      Some ((download_of nd)\<lparr>hd_p2p := [Send pid (GetHeaders ?loc (hd ?loc))], hd_timeout := t\<rparr>, Ok ())"
    using t(1) nd(3) by (simp add: HeaderDownload_message_def at_rest_def)
  from message_handled [OF i m e this headers_message(3), of C] obtain nd1 where
    1: "node_run checks C A X recorder [Dispatch, Download now0, PingTake now0] nd = Some (nd1, Ok ())" "idle nd1"
      "download_of nd1 = (download_of nd)\<lparr>hd_p2p := [Send pid (GetHeaders ?loc (hd ?loc))], hd_timeout := t\<rparr>" "co_p2p nd1 = co_p2p nd"
    by metis
  then have f: "co_control nd1 = [Send pid (GetHeaders ?loc (hd ?loc))]" "co_timeout nd1 = t" "co_chaindb nd1 = co_chaindb nd"
    "co_downstream nd1 = co_downstream nd" by (simp_all add: download_of_def)
  have "asking A X pid known nd1" using 1 f t nd(3,5) chain by (simp add: asking_def has_chain_def)
  from chain_exchanged [OF ok this, of missing reply remote nows checks] show ?thesis
    using 1 f chain(3) peer nows by (auto simp: has_chain_def)
qed

section \<open>An instance\<close>

text \<open>A node that has the header 1, and a peer that has 2 on top of it.\<close>

definition sync_chain :: "BlockHeader list" where
  "sync_chain = [mk_header easy 1 0, mk_header easy 2 1]"

definition sync_reply :: "hash list \<Rightarrow> BlockHeader list" where
  "sync_reply loc = (if hd loc = 1 then [mk_header easy 2 1] else [])"

definition sync_answer :: "BlockHeader list \<Rightarrow> RawNetworkMessage" where
  "sync_answer hs = BitcoinP2PConfig_wrap sample_cfg (Headers hs)"

definition sync_codec :: codec where
  "sync_codec =
     (let C = pair_codec (sync_answer [mk_header easy 2 1]) (sync_answer []) (sync_answer [mk_header easy 1 0])
      in C\<lparr>c_ser := (\<lambda>m. if raw_payload m = GetHeaders [2, 1] 2 then [4] else c_ser C m)\<rparr>)"

definition sync_remote :: "u8 list \<Rightarrow> u8 list" where
  "sync_remote bytes = (if bytes = [3] then [1] else [2])"

definition sync_node :: "(mem_db, notice list) Node" where
  "sync_node = sample_node (serving_peer\<lparr>n_dispatched := [Connected (sample_pid 1) None]\<rparr>) (sample_1 Bitcoin)"

lemma sync_codec_ok:
  "codec_ok {sync_answer [mk_header easy 2 1], sync_answer []} (c_ser sync_codec) (c_dec sync_codec)"
proof -
  let ?a = "sync_answer [mk_header easy 2 1]" and ?b = "sync_answer []" and ?c = "sync_answer [mk_header easy 1 0]"
  have d: "?a \<noteq> ?b" "?a \<noteq> ?c" "?b \<noteq> ?c" by (simp_all add: sync_answer_def BitcoinP2PConfig_wrap_def mk_header_def)
  have "raw_payload (sync_answer hs) \<noteq> GetHeaders l k" for hs l k by (simp add: sync_answer_def BitcoinP2PConfig_wrap_def)
  then show ?thesis using pair_codec_ok [OF d] by (auto simp: codec_ok_def sync_codec_def Let_def)
qed

lemma sync_locators: "locator_of [1] = [1]" "locator_of [1, 2] = [2, 1]"
  by (simp_all add: locator_of_def)

lemma sync_serves: "serves sample_ext sync_chain sync_reply"
  unfolding serves_def
proof (intro allI impI, goal_cases)
  case (1 i loc)
  then consider "i = 0" | "i = 1" by (force simp: sync_chain_def)
  then show ?case
  proof cases
    case 1
    then show ?thesis using \<open>hd loc = _\<close> by (intro exI [of _ 1]) (simp add: sync_chain_def sync_reply_def)
  next
    case 2
    then show ?thesis using \<open>hd loc = _\<close> by (intro exI [of _ 0]) (simp add: sync_chain_def sync_reply_def)
  qed
qed

lemma sync_remote_serves:
  "remote_serves {sync_answer [mk_header easy 2 1], sync_answer []} sync_codec sample_cfg [Inr 5] sample_ext sync_chain
     sync_reply sync_remote"
  unfolding remote_serves_def
proof (intro allI impI, goal_cases)
  case (1 k)
  then consider "k = 1" | "k = 2" by (force simp: sync_chain_def)
  then show ?case
    by cases (simp_all add: sync_chain_def sync_locators sync_reply_def sync_codec_def pair_codec_def sync_remote_def sync_answer_def
        BitcoinP2PConfig_wrap_def Let_def)
qed

lemma sync_node_rests: "at_rest (co_p2p sync_node) (sample_pid 1)"
  using serving_peer_simps(2) new_buffer_holds
  by (auto simp: at_rest_def sync_node_def sample_node_simps serving_peer_def set_peer_def one_peer_def update_conv' sample_pid_def
      P2P_is_listener_def HeaderDownload_is_serving_blocks_def P2PControlSender_peer_version_def rests_def Peer_new_def P2P_new_def
      holds_bytes_def)

theorem chain_downloaded_witness:
  "\<exists>nd1 nd'. node_run True sync_codec mem_api sample_ext recorder [Dispatch, Download 1000, PingTake 1000] sync_node = Some (nd1, Ok ()) \<and>
    exchanges True sync_codec mem_api sample_ext recorder sample_os [Inr 5] sync_remote (sample_pid 1) [1001, 1002] nd1 = Some (nd', Ok ()) \<and>
    hc_trunk (cd_headercache (co_chaindb nd')) = [1, 2]"
proof -
  have c: "cd_headercache (co_chaindb sync_node) = sample_1 Bitcoin" by (simp add: sync_node_def sample_node_simps)
  have "\<exists>nd1 nd'. node_run True sync_codec mem_api sample_ext recorder [Dispatch, Download 1000, PingTake 1000] sync_node = Some (nd1, Ok ()) \<and>
    exchanges True sync_codec mem_api sample_ext recorder sample_os [Inr 5] sync_remote (sample_pid 1) [1001, 1002] nd1 = Some (nd', Ok ()) \<and>
    hc_trunk (cd_headercache (co_chaindb nd')) = map (x_hash sample_ext) ([mk_header easy 1 0] @ [mk_header easy 2 1]) \<and>
    trunk_linked (cd_headercache (co_chaindb nd')) \<and> cd_inv mem_api sample_ext (co_chaindb nd') \<and>
    map fst (connected_of (co_downstream nd')) = map fst (connected_of (co_downstream sync_node)) @ [mk_header easy 2 1] \<and>
    owed (co_timeout nd') (sample_pid 1) ExpectHeaders = 0 \<and> co_control nd' = [] \<and> idle nd' \<and> at_rest (co_p2p nd') (sample_pid 1)"
  proof (rule chain_downloaded [OF mem_api_ok sample_os_grants _ sync_codec_ok])
    show "serves sample_ext ([mk_header easy 1 0] @ [mk_header easy 2 1]) sync_reply" using sync_serves by (simp add: sync_chain_def)
    show "remote_serves {sync_answer [mk_header easy 2 1], sync_answer []} sync_codec (n_config (co_p2p sync_node)) [Inr 5] sample_ext
        ([mk_header easy 1 0] @ [mk_header easy 2 1]) sync_reply sync_remote"
      using sync_remote_serves by (simp add: sync_chain_def sync_node_def sample_node_simps serving_peer_def set_peer_def one_peer_def P2P_new_def)
    show "cd_inv mem_api sample_ext (co_chaindb sync_node)"
      using sample_chain_inv [OF sample_1_inv(1)] by (simp add: sync_node_def sample_node_simps)
    show "trunk_linked (cd_headercache (co_chaindb sync_node))" using sample_1_inv(2) c by simp
    show "hc_trunk (cd_headercache (co_chaindb sync_node)) = map (x_hash sample_ext) [mk_header easy 1 0]" unfolding c by (simp add: sample_1_def)
    show "extends sample_ext (cd_headercache (co_chaindb sync_node)) [mk_header easy 2 1]"
      unfolding c by (simp add: sample_add_2) (simp add: sample_1_def HeaderCache_tip_hash_def)
    show "at_rest (co_p2p sync_node) (sample_pid 1)" by (rule sync_node_rests)
  qed (simp_all add: willing_def sync_node_def sample_node_simps)
  then show ?thesis by simp blast
qed

end
