(* ===== verification/P2P_Steps.thy ===== *)
theory P2P_Steps
  imports P2P_Correct P2P_Samples
begin

text \<open>
  The network layer in smaller steps (\<open>src/src/p2p.rs\<close>). \<open>event_processor\<close>, \<open>ban\<close> and \<open>disconnect\<close> first do their work under the
  locks, and after these are released they tell the dispatcher, remove the peer and wake its task, one after
  the other. Here each of these is an operation of its own, and a thread has a list of them left to do. Done without a break
  they are what \<open>P2P_Node\<close> has as one step.
\<close>

section \<open>Operations after the locks\<close>

datatype op = Tell "NetworkMessage PeerMessage" | Remove PeerId | Wake PeerId

fun do_op :: "P2P \<Rightarrow> op \<Rightarrow> P2P" where
  "do_op n (Tell m) = dispatch n m"
| "do_op n (Remove pid) = remove_peer n pid"
| "do_op n (Wake pid) = wake n pid"

definition do_ops :: "P2P \<Rightarrow> op list \<Rightarrow> P2P" where
  "do_ops n ops = fold (\<lambda>op n. do_op n op) ops n"

lemma do_ops_simps [simp]:
  "do_ops n [] = n" "do_ops n (op # ops) = do_ops (do_op n op) ops" "do_ops n (xs @ ys) = do_ops (do_ops n xs) ys"
  by (simp_all add: do_ops_def)

definition disconnect_ops :: "PeerId \<Rightarrow> bool \<Rightarrow> op list" where
  "disconnect_ops pid banned = [Tell (Disconnected pid banned), Remove pid, Wake pid]"

fun deliver_ops :: "BitcoinP2PConfig \<Rightarrow> PeerId \<Rightarrow> RawNetworkMessage list \<Rightarrow> op list" where
  "deliver_ops cfg pid [] = []"
| "deliver_ops cfg pid (msg # msgs) =
     (case BitcoinP2PConfig_unwrap cfg msg of
        Ok m \<Rightarrow> [Tell (Incoming pid m)]
      | _ \<Rightarrow> disconnect_ops pid True) @ deliver_ops cfg pid msgs"

definition after_read_ops :: "BitcoinP2PConfig \<Rightarrow> PeerId \<Rightarrow> rstate \<Rightarrow> op list" where
  "after_read_ops cfg pid s =
     (if r_disconnect s then disconnect_ops pid (r_ban s)
      else (if r_handshake s then [Tell (Connected pid (r_address s)), Wake pid] else []) @ deliver_ops cfg pid (r_incoming s))"

section \<open>The work under the locks\<close>

definition ban_locked :: "bool \<Rightarrow> P2P \<Rightarrow> PeerId \<Rightarrow> u32 \<Rightarrow> P2P \<times> op list \<times> unit result" where
  "ban_locked checks n pid increment =
     (case peer n pid of
        Some p \<Rightarrow>
          (case rust_add checks (p_ban p) increment :: u32 result of
             Ok ban \<Rightarrow> (set_peer n pid (p\<lparr>p_ban := ban\<rparr>), if BAN \<le> ban then disconnect_ops pid True else [], Ok ())
           | _ \<Rightarrow> (n, [], Panicked))
      | None \<Rightarrow> (n, [], Ok ()))"

definition readable_locked ::
  "os \<Rightarrow> codec \<Rightarrow> P2P \<Rightarrow> PeerId \<Rightarrow> u64 \<Rightarrow> event \<Rightarrow> (P2P \<times> op list \<times> unit result) option" where
  "readable_locked E C n pid needed_services ev =
     (case peer n pid of
        Some p \<Rightarrow>
          (case on_readable (n_config n) (c_dec C) E needed_services p (ev_data ev) of
             None \<Rightarrow> None
           | Some (s, r) \<Rightarrow>
               Some (set_peer n pid (r_peer s), case r of Ok _ \<Rightarrow> after_read_ops (n_config n) pid s | _ \<Rightarrow> [], r))
      | None \<Rightarrow> Some (n, [], Ok ()))"

definition processor_locked ::
  "os \<Rightarrow> codec \<Rightarrow> P2P \<Rightarrow> event \<Rightarrow> PeerId \<Rightarrow> u64 \<Rightarrow> (P2P \<times> op list \<times> unit result) option" where
  "processor_locked E C n ev pid needed_services =
     (if ev_hup ev then Some (n, disconnect_ops pid False, Ok ())
      else
        (case (if ev_writable ev then on_writable E C n pid ev else Some (n, Ok ())) of
           None \<Rightarrow> None
         | Some (n, Ok _) \<Rightarrow>
             if ev_readable ev then readable_locked E C n pid needed_services ev else Some (n, [], Ok ())
         | Some (n, r) \<Rightarrow> Some (n, [], r)))"

text \<open>An event of a peer; a connection request is not one.\<close>

definition event_locked ::
  "bool \<Rightarrow> os \<Rightarrow> codec \<Rightarrow> P2P \<Rightarrow> PeerId \<Rightarrow> u64 \<Rightarrow> event \<Rightarrow> (P2P \<times> op list \<times> unit result) option" where
  "event_locked checks E C n pid needed_services ev =
     (case processor_locked E C n ev pid needed_services of
        None \<Rightarrow> None
      | Some (n, ops, Err _) \<Rightarrow> Some (ban_locked checks n pid 10)
      | Some r \<Rightarrow> Some r)"

definition control_locked :: "bool \<Rightarrow> os \<Rightarrow> P2P \<Rightarrow> NetworkMessage P2PControl \<Rightarrow> P2P \<times> op list \<times> unit result" where
  "control_locked checks E n control =
     (case control of
        Ban pid score \<Rightarrow> ban_locked checks n pid score
      | _ \<Rightarrow> (case control_step checks E n control of (n, r) \<Rightarrow> (n, [], r)))"

section \<open>Both together\<close>

definition completed :: "P2P \<times> op list \<times> unit result \<Rightarrow> P2P \<times> unit result" where
  "completed s = (case s of (n, ops, r) \<Rightarrow> (do_ops n ops, r))"

lemma disconnect_done [simp]: "do_ops n (disconnect_ops pid b) = P2P_disconnect n pid b"
  by (simp add: disconnect_ops_def P2P_disconnect_def)

lemma deliver_done: "do_ops n (deliver_ops cfg pid msgs) = deliver n pid msgs"
  by (induction msgs arbitrary: n) (simp_all add: BitcoinP2PConfig_unwrap_def)

lemma after_read_done: "do_ops n (after_read_ops cfg pid s) = after_read n pid s"
  by (simp add: after_read_ops_def after_read_def deliver_done P2P_connected_def Let_def)

lemma ban_completed: "completed (ban_locked checks n pid k) = P2P_ban checks n pid k"
  by (simp add: completed_def ban_locked_def P2P_ban_def Let_def split: option.splits outcome.splits)

lemma readable_completed: "map_option completed (readable_locked E C n pid needed ev) = P2P_readable E C n pid needed ev"
  by (auto simp: completed_def readable_locked_def P2P_readable_def after_read_done Let_def split: option.splits outcome.splits)

text \<open>
  If nothing comes between, an event of a peer and a control message, as the lock phase followed by its operations, do
  what the network layer does in one step.
\<close>
theorem steps_as_one:
  "control_step checks E n c = completed (control_locked checks E n c) \<and>
   (P2P_is_listener n token = None \<longrightarrow>
      poll_event checks E C n network needed token ev =
        map_option completed (event_locked checks E C n \<lparr>pid_network = network, pid_token = token\<rparr> needed ev))"
proof
  show "control_step checks E n c = completed (control_locked checks E n c)"
    by (cases c) (simp_all add: control_locked_def control_step_def ban_completed,
        simp_all add: completed_def split: option.splits prod.splits outcome.splits)
next
  let ?pid = "\<lparr>pid_network = network, pid_token = token\<rparr>"
  have p: "map_option completed (processor_locked E C n ev ?pid needed) = P2P_event_processor E C n ev ?pid needed"
    by (auto simp: processor_locked_def P2P_event_processor_def readable_completed completed_def [of "(_, [], _)"]
        completed_def [of "(_, disconnect_ops _ _, _)"] split: option.splits outcome.splits)
  have "\<And>n' ops e. processor_locked E C n ev ?pid needed = Some (n', ops, Err e) \<Longrightarrow> ops = []"
    by (auto simp: processor_locked_def readable_locked_def split: option.splits outcome.splits if_splits)
  then show "P2P_is_listener n token = None \<longrightarrow> poll_event checks E C n network needed token ev =
      map_option completed (event_locked checks E C n ?pid needed ev)"
    using ban_completed [of checks _ ?pid 10]
    by (auto simp: poll_event_def event_locked_def Let_def p [symmetric] completed_def split: option.splits prod.splits outcome.splits)
qed

text \<open>A peer hangs up.\<close>

definition hang_up :: event where
  "hang_up = \<lparr>ev_hup = True, ev_writable = False, ev_readable = False, ev_attempts = [], ev_data = Ok []\<rparr>"

theorem steps_as_one_witness:
  "\<exists>n. poll_event True sample_os sample_codec one_peer ''bitcoin'' 0 1 hang_up = Some (n, Ok ()) \<and> peer n (sample_pid 1) = None \<and>
     event_locked True sample_os sample_codec one_peer (sample_pid 1) 0 hang_up = Some (one_peer, disconnect_ops (sample_pid 1) False, Ok ())"
proof -
  have "P2P_is_listener one_peer 1 = None" by (simp add: one_peer_def P2P_new_def P2P_is_listener_def)
  then have "poll_event True sample_os sample_codec one_peer ''bitcoin'' 0 1 hang_up =
      map_option completed (event_locked True sample_os sample_codec one_peer (sample_pid 1) 0 hang_up)"
    using steps_as_one [of True sample_os one_peer "Height 0" 1 sample_codec "''bitcoin''" 0 hang_up] by (simp add: sample_pid_def)
  then show ?thesis
    by (simp add: completed_def event_locked_def processor_locked_def hang_up_def P2P_disconnect_def)
qed

end
