(* ===== verification/Node_Channels.thy ===== *)
theory Node_Channels
  imports Node_Properties P2P_Steps
begin

text \<open>
  The channels between the threads of the node are bounded (\<open>BACK_PRESSURE\<close>, \<open>src/src/constructor.rs\<close>): a thread that sends on
  a full channel waits. Here the threads run in the smaller steps of \<open>P2P_Steps\<close>, a message at a time: the event loop and
  the control thread tell the dispatcher, which copies each message to one module after the other. Messages are neither
  lost nor repeated, and the threads never block each other for good.
\<close>

section \<open>Threads and what they have left to do\<close>

abbreviation (input) BACK_PRESSURE :: nat where
  "BACK_PRESSURE \<equiv> 10"

text \<open>
  The node, what the event loop and the control thread have left to do, and the message that the dispatcher is copying
  with the listener that is next.
\<close>

record ('d, 's) Flow =
  fl_node :: "('d, 's) Node"
  fl_event :: "op list"
  fl_control :: "op list"
  fl_copy :: "(NetworkMessage PeerMessage \<times> nat) option"

text \<open>The channel to the dispatcher.\<close>

definition waiting :: "('d, 's) Node \<Rightarrow> NetworkMessage PeerMessage list" where
  "waiting nd = drop (nd_taken nd) (n_dispatched (co_p2p nd))"

definition op_step :: "op list \<Rightarrow> ('d, 's) Node \<Rightarrow> (op list \<times> ('d, 's) Node) option" where
  "op_step ops nd =
     (case ops of
        [] \<Rightarrow> None
      | op # ops \<Rightarrow>
          (case op of
             Tell _ \<Rightarrow> if length (waiting nd) < BACK_PRESSURE then Some (ops, nd\<lparr>co_p2p := do_op (co_p2p nd) op\<rparr>) else None
           | _ \<Rightarrow> Some (ops, nd\<lparr>co_p2p := do_op (co_p2p nd) op\<rparr>)))"

definition take_step :: "('d, 's) Flow \<Rightarrow> ('d, 's) Flow option" where
  "take_step f =
     (case fl_copy f of
        Some _ \<Rightarrow> None
      | None \<Rightarrow>
          (case waiting (fl_node f) of
             [] \<Rightarrow> None
           | m # _ \<Rightarrow> Some (f\<lparr>fl_node := (fl_node f)\<lparr>nd_taken := Suc (nd_taken (fl_node f))\<rparr>, fl_copy := Some (m, 0)\<rparr>)))"

definition copy_step :: "('d, 's) Flow \<Rightarrow> ('d, 's) Flow option" where
  "copy_step f =
     (case fl_copy f of
        None \<Rightarrow> None
      | Some (m, i) \<Rightarrow>
          let ls = listeners (co_dispatcher (fl_node f)) in
          (case ls ! i of
             Some ch \<Rightarrow>
               if length ch < BACK_PRESSURE
               then Some (f\<lparr>fl_node := (fl_node f)\<lparr>co_dispatcher := \<lparr>listeners = ls[i := PeerMessageSender_send (ls ! i) m]\<rparr>\<rparr>,
                            fl_copy := if Suc i < length ls then Some (m, Suc i) else None\<rparr>)
               else None
           | None \<Rightarrow> None))"

text \<open>A module takes a message when there is one. After a panic its thread is gone.\<close>

definition handle_step :: "bool \<Rightarrow> 'd db_api \<Rightarrow> ext \<Rightarrow> 's Downstream \<Rightarrow> u64 \<Rightarrow> ('d, 's) Node \<Rightarrow> ('d, 's) Node option" where
  "handle_step checks A X D now nd =
     (case channel_recv 0 (co_dispatcher nd) of
        None \<Rightarrow> None
      | Some _ \<Rightarrow> (case download_thread checks A X D now nd of Some (nd, Ok _) \<Rightarrow> Some nd | _ \<Rightarrow> None))"

definition pong_step :: "bool \<Rightarrow> u64 \<Rightarrow> ('d, 's) Node \<Rightarrow> ('d, 's) Node option" where
  "pong_step checks now nd =
     (case channel_recv 1 (co_dispatcher nd) of
        None \<Rightarrow> None
      | Some _ \<Rightarrow> (case ping_thread checks now nd of (nd, Ok _) \<Rightarrow> Some nd | _ \<Rightarrow> None))"

text \<open>Whose turn it is; \<open>None\<close> if that thread waits.\<close>

datatype turn = EventOp | ControlOp | Take | Copy | Handle u64 | Pong u64

fun flow_turn :: "bool \<Rightarrow> 'd db_api \<Rightarrow> ext \<Rightarrow> 's Downstream \<Rightarrow> turn \<Rightarrow> ('d, 's) Flow \<Rightarrow> ('d, 's) Flow option" where
  "flow_turn checks A X D EventOp f =
     map_option (\<lambda>(ops, nd). f\<lparr>fl_node := nd, fl_event := ops\<rparr>) (op_step (fl_event f) (fl_node f))"
| "flow_turn checks A X D ControlOp f =
     map_option (\<lambda>(ops, nd). f\<lparr>fl_node := nd, fl_control := ops\<rparr>) (op_step (fl_control f) (fl_node f))"
| "flow_turn checks A X D Take f = take_step f"
| "flow_turn checks A X D Copy f = copy_step f"
| "flow_turn checks A X D (Handle now) f = map_option (\<lambda>nd. f\<lparr>fl_node := nd\<rparr>) (handle_step checks A X D now (fl_node f))"
| "flow_turn checks A X D (Pong now) f = map_option (\<lambda>nd. f\<lparr>fl_node := nd\<rparr>) (pong_step checks now (fl_node f))"

text \<open>
  New work: an event, which is a connection request or one of a peer, a control message, or one of the steps of \<open>Node_Threads\<close> that tell the dispatcher nothing. The event loop
  and the control thread start on it when they have finished the last one.
\<close>

datatype job = EventJob os nat event | ControlJob os | Other action

fun tells_nothing :: "action \<Rightarrow> bool" where
  "tells_nothing (DownloadIdle now) = True"
| "tells_nothing (PingIdle now rnd) = True"
| "tells_nothing (KeepConnecting E rnd) = True"
| "tells_nothing (PollTask pid) = True"
| "tells_nothing (ExpireTask pid) = True"
| "tells_nothing _ = False"

fun flow_start :: "bool \<Rightarrow> codec \<Rightarrow> 'd db_api \<Rightarrow> ext \<Rightarrow> 's Downstream \<Rightarrow> job \<Rightarrow> ('d, 's) Flow \<Rightarrow> ('d, 's) Flow option" where
  "flow_start checks C A X D (EventJob E token ev) f =
     (if fl_event f \<noteq> [] then None
      else
        (case P2P_is_listener (co_p2p (fl_node f)) token of
           Some _ \<Rightarrow>
             Some (f\<lparr>fl_node := set_tasks (fl_node f)
               (spawn_peer E ''bitcoin'' (IncomingFrom token) (co_p2p (fl_node f), co_tasks (fl_node f)))\<rparr>)
         | None \<Rightarrow>
             (case event_locked checks E C (co_p2p (fl_node f)) \<lparr>pid_network = ''bitcoin'', pid_token = token\<rparr> 0 ev of
                Some (n, ops, Ok _) \<Rightarrow> Some (f\<lparr>fl_node := (fl_node f)\<lparr>co_p2p := n\<rparr>, fl_event := ops\<rparr>)
              | _ \<Rightarrow> None)))"
| "flow_start checks C A X D (ControlJob E) f =
     (if fl_control f \<noteq> [] then None
      else
        (case co_control (fl_node f) of
           [] \<Rightarrow> None
         | c # cs \<Rightarrow>
             (case control_locked checks E (co_p2p (fl_node f)) c of
                (n, ops, Ok _) \<Rightarrow> Some (f\<lparr>fl_node := (fl_node f)\<lparr>co_p2p := n, co_control := cs\<rparr>, fl_control := ops\<rparr>)
              | _ \<Rightarrow> None)))"
| "flow_start checks C A X D (Other a) f =
     (if tells_nothing a
      then (case node_step checks C A X D a (fl_node f) of Some (nd, Ok _) \<Rightarrow> Some (f\<lparr>fl_node := nd\<rparr>) | _ \<Rightarrow> None)
      else None)"

section \<open>The invariant\<close>

text \<open>
  The channels hold at most what they may. Each module has handled, and has waiting, what the dispatcher has taken, but for
  the message that is being copied and that it does not have yet.
\<close>

definition left_for :: "nat \<Rightarrow> ('d, 's) Flow \<Rightarrow> NetworkMessage PeerMessage list" where
  "left_for k f = (case fl_copy f of Some (m, i) \<Rightarrow> if i \<le> k then [m] else [] | None \<Rightarrow> [])"

definition channels_hold ::
  "('d, 's) Flow \<Rightarrow> NetworkMessage PeerMessage list \<Rightarrow> NetworkMessage PeerMessage list \<Rightarrow> bool" where
  "channels_hold f c d \<longleftrightarrow>
     (let nd = fl_node f; taken = take (nd_taken nd) (n_dispatched (co_p2p nd)) in
      listeners (co_dispatcher nd) = [Some c, Some d] \<and> length c \<le> BACK_PRESSURE \<and> length d \<le> BACK_PRESSURE \<and>
      nd_taken nd \<le> length (n_dispatched (co_p2p nd)) \<and> length (waiting nd) \<le> BACK_PRESSURE \<and>
      nd_download_seen nd @ c @ left_for 0 f = taken \<and> nd_ping_seen nd @ d @ left_for 1 f = taken \<and>
      (\<forall>m i. fl_copy f = Some (m, i) \<longrightarrow> i < 2))"

definition flow_channels :: "('d, 's) Flow \<Rightarrow> bool" where
  "flow_channels f \<longleftrightarrow> (\<exists>c d. channels_hold f c d)"

definition flow_ok :: "'d db_api \<Rightarrow> ext \<Rightarrow> ('d, 's) Flow \<Rightarrow> bool" where
  "flow_ok A X f \<longleftrightarrow>
     flow_channels f \<and> cd_inv A X (co_chaindb (fl_node f)) \<and> one_each (co_timeout (fl_node f)) \<and>
     distinct (map fst (n_peers (co_p2p (fl_node f))))"

lemma channels_holdD:
  assumes "channels_hold f c d"
  shows "listeners (co_dispatcher (fl_node f)) = [Some c, Some d]" "length c \<le> 10" "length d \<le> 10"
    "nd_taken (fl_node f) \<le> length (n_dispatched (co_p2p (fl_node f)))" "length (waiting (fl_node f)) \<le> 10"
    "nd_download_seen (fl_node f) @ c @ left_for 0 f = take (nd_taken (fl_node f)) (n_dispatched (co_p2p (fl_node f)))"
    "nd_ping_seen (fl_node f) @ d @ left_for 1 f = take (nd_taken (fl_node f)) (n_dispatched (co_p2p (fl_node f)))"
    "\<forall>m i. fl_copy f = Some (m, i) \<longrightarrow> i < 2"
  using assms unfolding channels_hold_def Let_def by blast+

lemma flow_channelsI: "channels_hold f c d \<Longrightarrow> flow_channels f"
  by (auto simp: flow_channels_def)

text \<open>What does not touch the channels.\<close>

lemma flow_channels_same:
  assumes "flow_channels f" "n_dispatched (co_p2p (fl_node f')) = n_dispatched (co_p2p (fl_node f))"
    "nd_taken (fl_node f') = nd_taken (fl_node f)"
    "co_dispatcher (fl_node f') = co_dispatcher (fl_node f)" "nd_download_seen (fl_node f') = nd_download_seen (fl_node f)"
    "nd_ping_seen (fl_node f') = nd_ping_seen (fl_node f)" "fl_copy f' = fl_copy f"
  shows "flow_channels f'"
  using assms unfolding flow_channels_def channels_hold_def waiting_def left_for_def Let_def by presburger

text \<open>How many turns are left: a message takes six, from the thread that tells it to the second module that handles it.\<close>

fun op_effort :: "op \<Rightarrow> nat" where
  "op_effort (Tell m) = 6"
| "op_effort (Remove pid) = 1"
| "op_effort (Wake pid) = 1"

definition effort :: "('d, 's) Flow \<Rightarrow> nat" where
  "effort f =
     sum_list (map op_effort (fl_event f)) + sum_list (map op_effort (fl_control f)) + 5 * length (waiting (fl_node f)) +
     (case fl_copy f of Some (m, i) \<Rightarrow> if i = 0 then 4 else 2 | None \<Rightarrow> 0) +
     sum_list (map (\<lambda>l. case l of Some ch \<Rightarrow> length ch | None \<Rightarrow> 0) (listeners (co_dispatcher (fl_node f))))"

text \<open>What has been and will be told to the dispatcher.\<close>

fun tells :: "op list \<Rightarrow> NetworkMessage PeerMessage list" where
  "tells [] = []"
| "tells (Tell m # ops) = m # tells ops"
| "tells (_ # ops) = tells ops"

definition told :: "('d, 's) Flow \<Rightarrow> NetworkMessage PeerMessage list" where
  "told f = n_dispatched (co_p2p (fl_node f)) @ tells (fl_event f) @ tells (fl_control f)"

section \<open>The network layer\<close>

definition keeps :: "P2P \<Rightarrow> P2P \<Rightarrow> bool" where
  "keeps n n' \<longleftrightarrow>
     n_dispatched n' = n_dispatched n \<and> (distinct (map fst (n_peers n)) \<longrightarrow> distinct (map fst (n_peers n')))"

lemma keeps_refl [simp]: "keeps n n"
  by (simp add: keeps_def)

lemma keeps_trans: "keeps n n' \<Longrightarrow> keeps n' n'' \<Longrightarrow> keeps n n''"
  by (simp add: keeps_def)

lemma keeps_simps [simp]:
  "keeps n (set_peer n pid p)" "keeps n (remove_peer n pid)" "keeps n (wake n pid)"
  "keeps n ((set_peer n pid p)\<lparr>n_sent := s\<rparr>)" "keeps n (n\<lparr>n_config := cfg\<rparr>)" "keeps n (n\<lparr>n_waker := w\<rparr>)" "keeps n (n\<lparr>n_closed := l\<rparr>)"
  by (simp_all add: keeps_def set_peer_def remove_peer_def wake_def distinct_update distinct_delete)

lemma ban_locked_keeps: "ban_locked checks n pid k = (n', ops, r) \<Longrightarrow> keeps n n'"
  by (auto simp: ban_locked_def split: option.splits outcome.splits)

lemma event_locked_keeps:
  assumes "event_locked checks E C n pid needed ev = Some (n', ops, r)"
  shows "keeps n n'"
proof -
  have w: "keeps n m" if "on_writable E C n pid ev = Some (m, q)" for m q
    using that by (auto simp: on_writable_def split: option.splits prod.splits)
  have r: "keeps m m'" if "readable_locked E C m pid needed ev = Some (m', o', q)" for m m' o' q
    using that by (auto simp: readable_locked_def split: option.splits prod.splits)
  have p: "keeps n m" if "processor_locked E C n ev pid needed = Some (m, o', q)" for m o' q
    using that w r keeps_trans [OF w r]
    by (auto simp: processor_locked_def split: if_splits option.splits prod.splits outcome.splits)
  show ?thesis
    using assms p keeps_trans [OF p ban_locked_keeps]
    by (auto simp: event_locked_def split: option.splits prod.splits outcome.splits)
qed

lemma send_all_keys: "map fst (fst (send_all E m ps)) = map fst ps"
  by (induction E m ps rule: send_all.induct) (auto split: prod.splits outcome.splits)

lemma control_locked_keeps:
  assumes "control_locked checks E n c = (n', ops, r)"
  shows "keeps n n'"
proof (cases c)
  case (Broadcast m)
  then show ?thesis
    using assms send_all_keys [of E m "n_peers n"]
    by (auto simp: control_locked_def control_step_def keeps_def split: prod.splits)
next
  case (Bind a)
  then show ?thesis
    using assms by (auto simp: control_locked_def control_step_def P2P_add_listener_def keeps_def Let_def split: outcome.splits)
qed (use assms in \<open>auto simp: control_locked_def control_step_def ban_locked_keeps split: option.splits prod.splits outcome.splits\<close>)

lemma tasks_keep:
  "keeps n (fst (poll_task pid (n, ts)))" "keeps n (fst (expire_task pid (n, ts)))"
  "keeps n (fst (spawn_peer E network source (n, ts)))"
proof -
  have w: "keeps n (fst (poll_waiting pid addr (n, ts)))" for n ts pid addr
    by (simp add: poll_waiting_def poll_finished_def)
  have f: "keeps n (fst (task_failed pid (n, ts)))" for n ts pid
    by (simp add: task_failed_def handshake_timeout_def)
  have h: "poll_handshake n pid addr = (n', r) \<Longrightarrow> keeps n n'" for n pid addr n' r
    by (auto simp: poll_handshake_def split: option.splits if_splits)
  have hw: "keeps n (fst (poll_waiting pid addr' (n', ts)))" "keeps n (fst (task_failed pid (n', ts)))"
    if "poll_handshake n pid addr = (n', r)" for n pid addr n' r ts addr'
    using keeps_trans [OF h [OF that] w] keeps_trans [OF h [OF that] f] by simp_all
  show p: "keeps n (fst (poll_task pid (n, ts)))" for n pid ts
    using w h hw
    by (auto simp: poll_task_def split: option.splits task.splits prod.splits Async.splits outcome.splits)
  show "keeps n (fst (expire_task pid (n, ts)))"
    using p hw by (auto simp: expire_task_def split: option.splits task.splits prod.splits Async.splits)
  have i: "keeps n m" if "install_peer E n v pid out addr = (m, r)" for n v pid out addr m r
    using that by (auto simp: install_peer_def Let_def split: prod.splits outcome.splits if_splits)
  have c: "keeps n m" if "P2P_connect E n v pid source = (m, r)" for n v pid m r
    using that i by (auto simp: P2P_connect_def split: PeerSource.splits if_splits outcome.splits)
  obtain n' q r where a: "P2P_add_peer E n network source = (n', q, r)" by (rule prod_cases3)
  have "keeps n n'"
  proof -
    obtain v m s where m: "P2P_connect E (n\<lparr>n_next_peer_id := n_next_peer_id n + 1\<rparr>) v q source = (m, s)" "n' = m \<or> n' = remove_peer m q"
      using a by (auto simp: P2P_add_peer_def Let_def split: prod.splits outcome.splits)
    have "keeps n m" using c [OF m(1)] by (simp add: keeps_def)
    then show ?thesis using m(2) keeps_trans [OF _ keeps_simps(2)] by blast
  qed
  then show "keeps n (fst (spawn_peer E network source (n, ts)))"
    using a keeps_trans [OF _ p] by (auto simp: spawn_peer_def split: outcome.splits)
qed


section \<open>A turn\<close>

text \<open>A turn of any thread keeps the channels in order and is one of those that were left.\<close>

lemma op_turn:
  assumes f: "flow_channels f" and s: "op_step ops (fl_node f) = Some (ops', fl_node f')" and c: "fl_copy f' = fl_copy f"
  shows "flow_channels f'" "\<exists>op. ops = op # ops' \<and> co_p2p (fl_node f') = do_op (co_p2p (fl_node f)) op \<and>
    op_effort op + 5 * length (waiting (fl_node f)) = Suc (5 * length (waiting (fl_node f')))"
    "fl_node f' = (fl_node f)\<lparr>co_p2p := co_p2p (fl_node f')\<rparr>"
proof -
  obtain op where op: "ops = op # ops'" "fl_node f' = (fl_node f)\<lparr>co_p2p := do_op (co_p2p (fl_node f)) op\<rparr>"
    "\<forall>m. op = Tell m \<longrightarrow> length (waiting (fl_node f)) < 10"
    using s by (auto simp: op_step_def split: list.splits op.splits if_splits)
  show "fl_node f' = (fl_node f)\<lparr>co_p2p := co_p2p (fl_node f')\<rparr>" using op(2) by simp
  obtain xs where xs: "n_dispatched (do_op (co_p2p (fl_node f)) op) = n_dispatched (co_p2p (fl_node f)) @ xs"
    "length xs + length (waiting (fl_node f)) \<le> 10 \<or> xs = []" "op_effort op = Suc (5 * length xs)"
    using op(3) by (cases op) (auto simp: dispatch_def remove_peer_def wake_def)
  obtain c d where "channels_hold f c d" using f by (auto simp: flow_channels_def)
  note l = channels_holdD [OF this]
  have w: "waiting (fl_node f') = waiting (fl_node f) @ xs" using op(2) xs(1) l(4) by (simp add: waiting_def)
  show "flow_channels f'"
    by (rule flow_channelsI [of _ c d], unfold channels_hold_def Let_def, intro conjI) (use l op(2) xs(1,2) w assms(3) in \<open>auto simp: left_for_def\<close>)
  show "\<exists>op. ops = op # ops' \<and> co_p2p (fl_node f') = do_op (co_p2p (fl_node f)) op \<and>
    op_effort op + 5 * length (waiting (fl_node f)) = Suc (5 * length (waiting (fl_node f')))"
    using op(1,2) w xs(3) by simp
qed

lemma take_turn:
  assumes f: "flow_channels f" and s: "take_step f = Some f'"
  shows "flow_channels f'" "effort f = Suc (effort f')"
proof -
  obtain m ms where m: "fl_copy f = None" "waiting (fl_node f) = m # ms"
    "f' = f\<lparr>fl_node := (fl_node f)\<lparr>nd_taken := Suc (nd_taken (fl_node f))\<rparr>, fl_copy := Some (m, 0)\<rparr>"
    using s by (auto simp: take_step_def split: option.splits list.splits)
  obtain c d where "channels_hold f c d" using f by (auto simp: flow_channels_def)
  note l = channels_holdD [OF this]
  let ?k = "nd_taken (fl_node f)" and ?ms = "n_dispatched (co_p2p (fl_node f))"
  have k: "?k < length ?ms" "?ms ! ?k = m" "drop (Suc ?k) ?ms = ms"
    using m(2) unfolding waiting_def by (metis drop_eq_Nil leI list.distinct(1), metis nth_via_drop, metis drop_Suc list.sel(3) tl_drop)
  then have t: "take (Suc ?k) ?ms = take ?k ?ms @ [m]" by (simp add: take_Suc_conv_app_nth)
  have w: "waiting (fl_node f') = ms" using m(3) k(3) by (simp add: waiting_def)
  show "flow_channels f'"
    by (rule flow_channelsI [of _ c d], unfold channels_hold_def Let_def, intro conjI) (use l m w t k(1) in \<open>auto simp: left_for_def\<close>)
  show "effort f = Suc (effort f')" using w m by (simp add: effort_def)
qed

lemma copy_turn:
  assumes f: "flow_channels f" and s: "copy_step f = Some f'"
  shows "flow_channels f'" "effort f = Suc (effort f')"
proof -
  obtain c d where "channels_hold f c d" using f by (auto simp: flow_channels_def)
  note l = channels_holdD [OF this]
  obtain m i where m: "fl_copy f = Some (m, i)" "i < 2" using s l(8) by (auto simp: copy_step_def split: option.splits)
  then consider "i = 0" | "i = 1" by linarith
  then have "flow_channels f' \<and> effort f = Suc (effort f')"
  proof cases
    case 1
    then have "length c < 10" and f': "f' = f\<lparr>fl_node := (fl_node f)\<lparr>co_dispatcher := \<lparr>listeners = [Some (c @ [m]), Some d]\<rparr>\<rparr>, fl_copy := Some (m, 1)\<rparr>"
      using s l(1) m(1) by (auto simp: copy_step_def Let_def PeerMessageSender_send_def split: if_splits)
    then have "flow_channels f'"
      by (intro flow_channelsI [of _ "c @ [m]" d], unfold channels_hold_def Let_def, intro conjI) (use l m 1 in \<open>auto simp: left_for_def waiting_def\<close>)
    then show ?thesis using f' l(1) m 1 by (simp add: effort_def waiting_def)
  next
    case 2
    then have "length d < 10" and f': "f' = f\<lparr>fl_node := (fl_node f)\<lparr>co_dispatcher := \<lparr>listeners = [Some c, Some (d @ [m])]\<rparr>\<rparr>, fl_copy := None\<rparr>"
      using s l(1) m(1) by (auto simp: copy_step_def Let_def PeerMessageSender_send_def split: if_splits)
    then have "flow_channels f'"
      by (intro flow_channelsI [of _ c "d @ [m]"], unfold channels_hold_def Let_def, intro conjI) (use l m 2 in \<open>auto simp: left_for_def waiting_def\<close>)
    then show ?thesis using f' l(1) m 2 by (simp add: effort_def waiting_def)
  qed
  then show "flow_channels f'" "effort f = Suc (effort f')" by simp_all
qed

text \<open>A module that has a message handles it. The network layer is not changed, nor what waits for the dispatcher.\<close>

lemma handle_turn:
  assumes ok: "db_ok A" "never_fails A" and f: "flow_ok A X f" "parents_known (told f)" and now: "unat now + 60 < 2 ^ 64"
    and s: "handle_step checks A X D now (fl_node f) = Some (fl_node f')" and same: "fl_copy f' = fl_copy f"
      "fl_event f' = fl_event f" "fl_control f' = fl_control f"
  shows "flow_ok A X f' \<and> effort f = Suc (effort f') \<and> told f' = told f"
proof -
  let ?nd = "fl_node f"
  have i: "flow_channels f" "cd_inv A X (hd_chaindb (download_of ?nd))" "one_each (hd_timeout (download_of ?nd))"
    "to_inv (hd_timeout (download_of ?nd))" using f(1) by (simp_all add: flow_ok_def download_of_def one_each_def)
  obtain c d where "channels_hold f c d" using i(1) by (auto simp: flow_channels_def)
  note l = channels_holdD [OF this]
  obtain m c' where c: "c = m # c'" "channel_recv 0 (co_dispatcher ?nd) = Some (m, \<lparr>listeners = [Some c', Some d]\<rparr>)"
    using s l(1) by (cases c) (auto simp: handle_step_def channel_recv_def)
  obtain x r where x: "HeaderDownload_message checks now A X D (co_p2p ?nd) (download_of ?nd) m = Some (x, r)"
    "fl_node f' = (set_download ?nd x)\<lparr>co_dispatcher := \<lparr>listeners = [Some c', Some d]\<rparr>, nd_download_seen := nd_download_seen ?nd @ [m]\<rparr>"
    using s c(2) by (auto simp: handle_step_def download_thread_def split: option.splits outcome.splits)
  have "m \<in> set (nd_download_seen ?nd @ c @ left_for 0 f)" using c(1) by simp
  then have "m \<in> set (told f)" unfolding l(6) told_def using in_set_takeD by fastforce
  then have "prev_blockhash h \<noteq> 0" if "m = Incoming pid (Headers hs)" "h \<in> set hs" for pid hs h
    using f(2) that unfolding parents_known_def by blast
  then have "cd_inv A X (hd_chaindb x)"
    using message_safe [OF ok i(2,4) now, of m checks D "co_p2p ?nd"] x(1) by auto
  moreover have "one_each (hd_timeout x)" by (rule message_one_each [OF i(3) now x(1)])
  moreover have "flow_channels f'"
    by (rule flow_channelsI [of _ c' d], unfold channels_hold_def Let_def, intro conjI) (use l c(1) x(2) same(1) in \<open>auto simp: left_for_def waiting_def set_download_def\<close>)
  ultimately show ?thesis
    using f(1) x(2) same l(1) c(1) by (simp add: flow_ok_def effort_def told_def waiting_def set_download_def)
qed

lemma ping_message_returns:
  assumes "one_each (ping_timeout p)" "unat now + 60 < 2 ^ 64"
  shows "\<exists>p'. ping_message checks now p m = Ok p'"
proof -
  have "\<exists>t. Timeout_received checks now (ping_timeout p) pid 1 ExpectPong = Ok t" for pid
    using replies.received_law [of "ping_timeout p" now checks pid ExpectPong] assms by (auto simp: one_each_def)
  then obtain t where "\<And>pid. Timeout_received checks now (ping_timeout p) pid 1 ExpectPong = Ok (t pid)" by metis
  then show ?thesis by (auto simp: ping_message_def Let_def split: PeerMessage.splits NetworkMessage.splits)
qed

lemma pong_turn:
  assumes f: "flow_ok A X f" and now: "unat now + 60 < 2 ^ 64"
    and s: "pong_step checks now (fl_node f) = Some (fl_node f')" and same: "fl_copy f' = fl_copy f"
      "fl_event f' = fl_event f" "fl_control f' = fl_control f"
  shows "flow_ok A X f' \<and> effort f = Suc (effort f') \<and> told f' = told f"
proof -
  let ?nd = "fl_node f"
  have i: "flow_channels f" "one_each (ping_timeout (ping_of ?nd))" using f by (simp_all add: flow_ok_def ping_of_def)
  obtain c d where "channels_hold f c d" using i(1) by (auto simp: flow_channels_def)
  note l = channels_holdD [OF this]
  obtain m d' where d: "d = m # d'" "channel_recv 1 (co_dispatcher ?nd) = Some (m, \<lparr>listeners = [Some c, Some d']\<rparr>)"
    using s l(1) by (cases d) (auto simp: pong_step_def channel_recv_def)
  let ?nd1 = "?nd\<lparr>co_dispatcher := \<lparr>listeners = [Some c, Some d']\<rparr>, nd_ping_seen := nd_ping_seen ?nd @ [m]\<rparr>"
  have "ping_of ?nd1 = ping_of ?nd" by (simp add: ping_of_def)
  then obtain p where p: "ping_message checks now (ping_of ?nd) m = Ok p" "fl_node f' = set_ping ?nd1 p"
    using s d(2) by (auto simp: pong_step_def ping_thread_def Let_def split: outcome.splits)
  have "one_each (ping_timeout p)" by (rule ping_message_one_each [OF i(2) now p(1)])
  moreover have "flow_channels f'"
    by (rule flow_channelsI [of _ c d'], unfold channels_hold_def Let_def, intro conjI) (use l d(1) p(2) same(1) in \<open>auto simp: left_for_def waiting_def set_ping_def\<close>)
  ultimately show ?thesis
    using f p(2) same l(1) d(1) by (simp add: flow_ok_def effort_def told_def waiting_def set_ping_def)
qed

lemma tells_do_op: "n_dispatched (do_op n op) = n_dispatched n @ tells [op]"
  by (cases op) (simp_all add: dispatch_def remove_peer_def wake_def)

lemma do_op_distinct: "distinct (map fst (n_peers n)) \<Longrightarrow> distinct (map fst (n_peers (do_op n op)))"
  by (cases op) (simp_all add: dispatch_def remove_peer_def wake_def distinct_delete)

lemma tells_Cons: "tells (op # ops) = tells [op] @ tells ops"
  by (cases op) simp_all

text \<open>The clock of a turn.\<close>

fun turn_in_time :: "turn \<Rightarrow> bool" where
  "turn_in_time (Handle now) \<longleftrightarrow> unat now + 60 < 2 ^ 64"
| "turn_in_time (Pong now) \<longleftrightarrow> unat now + 60 < 2 ^ 64"
| "turn_in_time _ \<longleftrightarrow> True"

lemma turn_keeps:
  assumes ok: "db_ok A" "never_fails A" and f: "flow_ok A X f" "parents_known (told f)" "turn_in_time t"
    and s: "flow_turn checks A X D t f = Some f'"
  shows "flow_ok A X f' \<and> effort f = Suc (effort f') \<and> set (told f') = set (told f)"
proof -
  have fc: "flow_channels f" using f(1) by (simp add: flow_ok_def)
  have op: ?thesis
    if o: "op_step ops (fl_node f) = Some (ops', fl_node f')" "fl_copy f' = fl_copy f"
      "(ops = fl_event f \<and> fl_event f' = ops' \<and> fl_control f' = fl_control f) \<or>
       (ops = fl_control f \<and> fl_control f' = ops' \<and> fl_event f' = fl_event f)" for ops ops'
  proof -
    note T = op_turn [OF fc o(1,2)]
    obtain p where p: "ops = p # ops'" "co_p2p (fl_node f') = do_op (co_p2p (fl_node f)) p"
      "op_effort p + 5 * length (waiting (fl_node f)) = Suc (5 * length (waiting (fl_node f')))" using T(2) by blast
    have nd: "co_chaindb (fl_node f') = co_chaindb (fl_node f)" "co_timeout (fl_node f') = co_timeout (fl_node f)"
      "co_dispatcher (fl_node f') = co_dispatcher (fl_node f)" by (subst T(3), simp)+
    have "flow_ok A X f'" using f(1) T(1) nd do_op_distinct by (simp add: flow_ok_def p(2))
    moreover from o(3) have "effort f = Suc (effort f')"
    proof
      assume "ops = fl_event f \<and> fl_event f' = ops' \<and> fl_control f' = fl_control f"
      then have "fl_event f = p # ops'" "fl_event f' = ops'" "fl_control f' = fl_control f" using p(1) by simp_all
      then show ?thesis using o(2) p(3) nd(3) by (simp add: effort_def)
    next
      assume "ops = fl_control f \<and> fl_control f' = ops' \<and> fl_event f' = fl_event f"
      then have "fl_control f = p # ops'" "fl_control f' = ops'" "fl_event f' = fl_event f" using p(1) by simp_all
      then show ?thesis using o(2) p(3) nd(3) by (simp add: effort_def)
    qed
    moreover have "set (told f') = set (told f)" using o(3) p(1) tells_Cons [of p ops'] by (auto simp: told_def p(2) tells_do_op)
    ultimately show ?thesis by simp
  qed
  show ?thesis
  proof (cases t)
    case EventOp
    then obtain ops nd where o: "op_step (fl_event f) (fl_node f) = Some (ops, nd)" "f' = f\<lparr>fl_node := nd, fl_event := ops\<rparr>"
      using s by auto
    then show ?thesis by (intro op [of "fl_event f" ops]) simp_all
  next
    case ControlOp
    then obtain ops nd where o: "op_step (fl_control f) (fl_node f) = Some (ops, nd)" "f' = f\<lparr>fl_node := nd, fl_control := ops\<rparr>"
      using s by auto
    then show ?thesis by (intro op [of "fl_control f" ops]) simp_all
  next
    case Take
    then have s': "take_step f = Some f'" using s by simp
    then have "co_chaindb (fl_node f') = co_chaindb (fl_node f) \<and> co_timeout (fl_node f') = co_timeout (fl_node f) \<and>
        co_p2p (fl_node f') = co_p2p (fl_node f) \<and> told f' = told f"
      by (auto simp: take_step_def told_def split: option.splits list.splits)
    then show ?thesis using take_turn [OF fc s'] f(1) by (simp add: flow_ok_def)
  next
    case Copy
    then have s': "copy_step f = Some f'" using s by simp
    then have "co_chaindb (fl_node f') = co_chaindb (fl_node f) \<and> co_timeout (fl_node f') = co_timeout (fl_node f) \<and>
        co_p2p (fl_node f') = co_p2p (fl_node f) \<and> told f' = told f"
      by (auto simp: copy_step_def told_def Let_def split: option.splits if_splits)
    then show ?thesis using copy_turn [OF fc s'] f(1) by (simp add: flow_ok_def)
  next
    case (Handle now)
    then show ?thesis using handle_turn [OF ok f(1,2), of now checks D f'] f(3) s by auto
  next
    case (Pong now)
    then show ?thesis using pong_turn [OF f(1), of now checks f'] f(3) s by auto
  qed
qed

section \<open>Progress\<close>

text \<open>Nothing is left to do, and both modules have handled all that the network layer told.\<close>

definition drained :: "('d, 's) Flow \<Rightarrow> bool" where
  "drained f \<longleftrightarrow>
     fl_event f = [] \<and> fl_control f = [] \<and> fl_copy f = None \<and> idle (fl_node f) \<and>
     nd_download_seen (fl_node f) = n_dispatched (co_p2p (fl_node f)) \<and> nd_ping_seen (fl_node f) = n_dispatched (co_p2p (fl_node f))"

text \<open>The header download panics on its next message.\<close>

definition download_panics :: "bool \<Rightarrow> 'd db_api \<Rightarrow> ext \<Rightarrow> 's Downstream \<Rightarrow> u64 \<Rightarrow> ('d, 's) Flow \<Rightarrow> bool" where
  "download_panics checks A X D now f \<longleftrightarrow>
     channel_recv 0 (co_dispatcher (fl_node f)) \<noteq> None \<and>
     (case download_thread checks A X D now (fl_node f) of Some (nd, r) \<Rightarrow> r = Panicked | None \<Rightarrow> False)"

text \<open>
  A module that has a message can handle it. If neither has one, their channels have room and the dispatcher can copy; if it copies nothing,
  it can take what waits; and if nothing waits, the others can tell.
\<close>

lemma some_turn:
  assumes ok: "db_ok A" "never_fails A" and f: "flow_ok A X f" "parents_known (told f)" and now: "unat now + 60 < 2 ^ 64"
    and stuck: "\<forall>t\<in>{EventOp, ControlOp, Take, Copy, Handle now, Pong now}. flow_turn checks A X D t f = None"
  shows "drained f \<or> download_panics checks A X D now f"
proof (rule disjCI)
  assume np: "\<not> download_panics checks A X D now f"
  let ?nd = "fl_node f"
  have i: "flow_channels f" "cd_inv A X (hd_chaindb (download_of ?nd))" "to_inv (hd_timeout (download_of ?nd))"
    "\<And>nd. co_timeout nd = co_timeout ?nd \<Longrightarrow> one_each (ping_timeout (ping_of nd))"
    using f(1) by (simp_all add: flow_ok_def download_of_def one_each_def ping_of_def)
  obtain c d where "channels_hold f c d" using i(1) by (auto simp: flow_channels_def)
  note l = channels_holdD [OF this]
  have c: "c = []"
  proof (cases c)
    case (Cons m c')
    then have r: "channel_recv 0 (co_dispatcher ?nd) = Some (m, \<lparr>listeners = [Some c', Some d]\<rparr>)"
      using l(1) by (simp add: channel_recv_def)
    have "m \<in> set (nd_download_seen ?nd @ c @ left_for 0 f)" using Cons by simp
    then have "m \<in> set (told f)" unfolding l(6) told_def using in_set_takeD by fastforce
    then have "prev_blockhash h \<noteq> 0" if "m = Incoming pid (Headers hs)" "h \<in> set hs" for pid hs h
      using f(2) that unfolding parents_known_def by blast
    then obtain x s where "HeaderDownload_message checks now A X D (co_p2p ?nd) (download_of ?nd) m = Some (x, s)"
      using message_safe [OF ok i(2,3) now, of m checks D "co_p2p ?nd"] by blast
    then show ?thesis using np stuck r by (auto simp: download_panics_def handle_step_def download_thread_def split: if_splits)
  qed simp
  have d: "d = []"
  proof (cases d)
    case (Cons m d')
    then have r: "channel_recv 1 (co_dispatcher ?nd) = Some (m, \<lparr>listeners = [Some c, Some d']\<rparr>)"
      using l(1) by (simp add: channel_recv_def)
    let ?nd1 = "?nd\<lparr>co_dispatcher := \<lparr>listeners = [Some c, Some d']\<rparr>, nd_ping_seen := nd_ping_seen ?nd @ [m]\<rparr>"
    obtain p where "ping_message checks now (ping_of ?nd1) m = Ok p"
      using ping_message_returns [OF i(4) [of ?nd1] now, of checks m] by auto
    then show ?thesis using stuck r by (simp add: pong_step_def ping_thread_def)
  qed simp
  have copy: "fl_copy f = None"
  proof (cases "fl_copy f")
    case (Some mi)
    then obtain m i where m: "fl_copy f = Some (m, i)" by (cases mi) auto
    then consider "i = 0" | "i = 1" using l(8) by fastforce
    then show ?thesis using stuck m l(1) c d by cases (simp_all add: copy_step_def Let_def)
  qed simp
  then have w: "waiting ?nd = []" using stuck by (simp add: take_step_def split: list.splits)
  then have t: "nd_taken ?nd = length (n_dispatched (co_p2p ?nd))" using l(4) by (simp add: waiting_def)
  have "ops = []" if "op_step ops ?nd = None" for ops
    using that w by (auto simp: op_step_def split: list.splits op.splits)
  then have "fl_event f = []" "fl_control f = []" using stuck by simp_all
  then show "drained f" using copy t c d l(1,6,7) by (simp add: drained_def idle_def left_for_def)
qed

section \<open>Starting\<close>

lemma node_step_quiet:
  assumes a: "tells_nothing a" "admissible a nd" and i: "cd_inv A X (co_chaindb nd)" "one_each (co_timeout nd)"
      "distinct (map fst (n_peers (co_p2p nd)))"
    and s: "node_step checks C A X D a nd = Some (nd', Ok u)"
  shows "keeps (co_p2p nd) (co_p2p nd') \<and> cd_inv A X (co_chaindb nd') \<and> one_each (co_timeout nd') \<and> nd_taken nd' = nd_taken nd \<and>
    co_dispatcher nd' = co_dispatcher nd \<and> nd_download_seen nd' = nd_download_seen nd \<and> nd_ping_seen nd' = nd_ping_seen nd"
proof (cases a)
  case (DownloadIdle now)
  then show ?thesis
    using s i check_one_each [of "co_timeout nd" now "co_control nd" "[ExpectHeaders]"]
    by (auto simp: download_idle_def set_download_def HeaderDownload_tick_def download_of_def split: prod.splits)
next
  case (PingIdle now rnd)
  have "one_each (ping_timeout (ping_of nd))" using i(2) by (simp add: ping_of_def)
  then show ?thesis
    using PingIdle s i(1,2) a(2) ping_round_one_each [of "ping_of nd" now "co_p2p nd" checks rnd] i(3)
    by (auto simp: ping_idle_def set_ping_def split: outcome.splits)
next
  case (KeepConnecting E rnd)
  have "keeps (co_p2p nd) (fst (snd (KeepConnected_poll E rnd (nd_keep nd) (co_p2p nd, co_tasks nd))))"
    by (auto simp: KeepConnected_poll_def Let_def tasks_keep(3))
  then show ?thesis using KeepConnecting s i by (auto simp: keep_thread_def set_tasks_def)
qed (use assms tasks_keep in \<open>auto simp: set_tasks_def\<close>)

text \<open>When a job may start.\<close>

fun job_admissible :: "job \<Rightarrow> ('d, 's) Node \<Rightarrow> bool" where
  "job_admissible (Other a) nd \<longleftrightarrow> admissible a nd"
| "job_admissible _ nd \<longleftrightarrow> True"

lemma start_keeps:
  assumes f: "flow_ok A X f" "job_admissible j (fl_node f)" and s: "flow_start checks C A X D j f = Some f'"
  shows "flow_ok A X f'"
proof -
  have p2p: "flow_ok A X f'"
    if "keeps (co_p2p (fl_node f)) n" "fl_node f' = (fl_node f)\<lparr>co_p2p := n, co_control := q\<rparr>" "fl_copy f' = fl_copy f" for n q
  proof -
    have "flow_channels f'" by (rule flow_channels_same [of f]) (use that f(1) in \<open>simp_all add: flow_ok_def keeps_def\<close>)
    then show ?thesis using that f(1) by (simp add: flow_ok_def keeps_def)
  qed
  show ?thesis
  proof (cases j)
    case (EventJob E token ev)
    show ?thesis
    proof (cases "P2P_is_listener (co_p2p (fl_node f)) token")
      case (Some a)
      then have "fl_node f' = (fl_node f)\<lparr>co_p2p := n, co_tasks := ts\<rparr>" "fl_copy f' = fl_copy f"
        if "spawn_peer E ''bitcoin'' (IncomingFrom token) (co_p2p (fl_node f), co_tasks (fl_node f)) = (n, ts)" for n ts
        using s EventJob that by (auto simp: set_tasks_def split: if_splits)
      then show ?thesis
        using f(1) tasks_keep(3) [of "co_p2p (fl_node f)" E "''bitcoin''" "IncomingFrom token" "co_tasks (fl_node f)"]
        by (cases "spawn_peer E ''bitcoin'' (IncomingFrom token) (co_p2p (fl_node f), co_tasks (fl_node f))")
          (auto simp: flow_ok_def keeps_def intro: flow_channels_same [of f f'])
    next
      case None
      then obtain pid n ops u where e: "event_locked checks E C (co_p2p (fl_node f)) pid 0 ev = Some (n, ops, Ok u)"
        "f' = f\<lparr>fl_node := (fl_node f)\<lparr>co_p2p := n\<rparr>, fl_event := ops\<rparr>"
        using s EventJob by (auto split: if_splits option.splits prod.splits outcome.splits)
      then show ?thesis by (intro p2p [OF event_locked_keeps [OF e(1)], of "co_control (fl_node f)"]) simp_all
    qed
  next
    case (ControlJob E)
    then obtain c cs n ops u where e: "control_locked checks E (co_p2p (fl_node f)) c = (n, ops, Ok u)"
      "f' = f\<lparr>fl_node := (fl_node f)\<lparr>co_p2p := n, co_control := cs\<rparr>, fl_control := ops\<rparr>"
      using s by (auto split: if_splits list.splits prod.splits outcome.splits)
    then show ?thesis by (intro p2p [OF control_locked_keeps [OF e(1)], of cs]) simp_all
  next
    case (Other a)
    then obtain nd u where e: "tells_nothing a" "node_step checks C A X D a (fl_node f) = Some (nd, Ok u)" "f' = f\<lparr>fl_node := nd\<rparr>"
      using s by (auto split: if_splits option.splits prod.splits outcome.splits)
    have N: "keeps (co_p2p (fl_node f)) (co_p2p nd) \<and> cd_inv A X (co_chaindb nd) \<and> one_each (co_timeout nd) \<and>
        nd_taken nd = nd_taken (fl_node f) \<and> co_dispatcher nd = co_dispatcher (fl_node f) \<and>
        nd_download_seen nd = nd_download_seen (fl_node f) \<and> nd_ping_seen nd = nd_ping_seen (fl_node f)"
      by (rule node_step_quiet [OF e(1) _ _ _ _ e(2)]) (use f Other in \<open>simp_all add: flow_ok_def\<close>)
    have "flow_channels f'" by (rule flow_channels_same [of f]) (use N e(3) f(1) in \<open>simp_all add: flow_ok_def keeps_def\<close>)
    then show ?thesis using N e(3) f(1) by (simp add: flow_ok_def keeps_def)
  qed
qed

section \<open>Runs\<close>

definition flow_of :: "('d, 's) Node \<Rightarrow> ('d, 's) Flow" where
  "flow_of nd = \<lparr>fl_node = nd, fl_event = [], fl_control = [], fl_copy = None\<rparr>"

inductive flow_reaches ::
  "bool \<Rightarrow> codec \<Rightarrow> 'd db_api \<Rightarrow> ext \<Rightarrow> 's Downstream \<Rightarrow> ('d, 's) Flow \<Rightarrow> ('d, 's) Flow \<Rightarrow> bool"
  for checks C A X D f where
  here: "flow_reaches checks C A X D f f"
| start: "flow_reaches checks C A X D f f1 \<Longrightarrow> job_admissible j (fl_node f1) \<Longrightarrow> flow_start checks C A X D j f1 = Some f2 \<Longrightarrow>
    flow_reaches checks C A X D f f2"
| turn: "flow_reaches checks C A X D f f1 \<Longrightarrow> turn_in_time t \<Longrightarrow> flow_turn checks A X D t f1 = Some f2 \<Longrightarrow>
    flow_reaches checks C A X D f f2"

fun flow_run :: "bool \<Rightarrow> 'd db_api \<Rightarrow> ext \<Rightarrow> 's Downstream \<Rightarrow> turn list \<Rightarrow> ('d, 's) Flow \<Rightarrow> ('d, 's) Flow option" where
  "flow_run checks A X D [] f = Some f"
| "flow_run checks A X D (t # ts) f = Option.bind (flow_turn checks A X D t f) (flow_run checks A X D ts)"

lemma flow_run_append: "flow_run checks A X D (ts @ us) f = Option.bind (flow_run checks A X D ts f) (flow_run checks A X D us)"
proof (induction ts arbitrary: f)
  case (Cons t ts)
  then show ?case by (cases "flow_turn checks A X D t f") simp_all
qed simp

lemma flow_of_ok:
  assumes "node_ok checks C A X nd" "idle nd"
  shows "flow_ok A X (flow_of nd)"
proof -
  have "flow_channels (flow_of nd)"
    by (rule flow_channelsI [of _ "[]" "[]"], unfold channels_hold_def Let_def, intro conjI)
      (use assms in \<open>auto simp: flow_of_def left_for_def waiting_def idle_def node_ok_def parts_ok_def channels_ok_def Let_def\<close>)
  then show ?thesis
    using assms(1) parts_ok_inv [OF node_ok_parts [OF assms(1)]]
    by (simp add: flow_ok_def flow_of_def node_ok_def parts_ok_def node_inv_def)
qed

text \<open>What has been told stays told.\<close>

lemma turn_told:
  assumes "flow_turn checks A X D t f = Some f'"
  shows "set (told f) \<subseteq> set (told f')"
proof -
  have op: "set (n_dispatched (co_p2p nd)) \<union> set (tells ops) \<subseteq> set (n_dispatched (co_p2p nd')) \<union> set (tells ops')"
    if o: "op_step ops nd = Some (ops', nd')" for ops ops' and nd nd' :: "('a, 'b) Node"
  proof -
    obtain p where "ops = p # ops'" "nd' = nd\<lparr>co_p2p := do_op (co_p2p nd) p\<rparr>"
      using o by (auto simp: op_step_def split: list.splits op.splits if_splits)
    then show ?thesis using tells_Cons [of p ops'] by (auto simp: tells_do_op)
  qed
  have "co_p2p nd' = co_p2p nd" if "handle_step checks A X D now nd = Some nd'" for now nd nd'
    using that by (auto simp: handle_step_def download_thread_def set_download_def split: option.splits prod.splits outcome.splits)
  moreover have "co_p2p nd' = co_p2p nd" if "pong_step checks now nd = Some nd'" for now and nd nd' :: "('a, 'b) Node"
    using that by (auto simp: pong_step_def ping_thread_def set_ping_def Let_def split: option.splits prod.splits outcome.splits)
  ultimately show ?thesis
    using assms op [of "fl_event f" "fl_node f"] op [of "fl_control f" "fl_node f"]
    by (cases t) (auto simp: told_def take_step_def copy_step_def Let_def split: option.splits list.splits if_splits)
qed

lemma start_told:
  assumes "flow_start checks C A X D j f = Some f'"
  shows "set (told f) \<subseteq> set (told f')"
proof -
  have k: "n_dispatched n' = n_dispatched n" if "keeps n n'" for n n' using that by (simp add: keeps_def)
  show ?thesis
  proof (cases j)
    case (EventJob E token ev)
    then show ?thesis
      using assms k [OF event_locked_keeps] k [OF tasks_keep(3)]
      by (auto simp: told_def set_tasks_def split: if_splits option.splits prod.splits outcome.splits)
  next
    case (ControlJob E)
    then show ?thesis
      using assms k [OF control_locked_keeps]
      by (auto simp: told_def split: if_splits list.splits prod.splits outcome.splits)
  next
    case (Other a)
    then obtain nd u where e: "tells_nothing a" "node_step checks C A X D a (fl_node f) = Some (nd, Ok u)" "f' = f\<lparr>fl_node := nd\<rparr>"
      using assms by (auto split: if_splits option.splits prod.splits outcome.splits)
    have "n_dispatched (co_p2p nd) = n_dispatched (co_p2p (fl_node f))"
      using e(1,2) k [OF tasks_keep(1)] k [OF tasks_keep(2)] k [OF tasks_keep(3)]
      by (cases a) (auto simp: download_idle_def set_download_def ping_idle_def set_ping_def set_tasks_def keep_thread_def
          KeepConnected_poll_def Let_def split: outcome.splits if_splits)
    then show ?thesis using e(3) by (simp add: told_def)
  qed
qed

lemma flow_reaches_ok:
  assumes ok: "db_ok A" "never_fails A" and f: "flow_reaches checks C A X D f f'" "flow_ok A X f" "parents_known (told f')"
  shows "flow_ok A X f'"
  using f(1,3)
proof (induction rule: flow_reaches.induct)
  case here
  then show ?case using f(2) by simp
next
  case (start f1 j f2)
  have "parents_known (told f1)" using start.prems start_told [OF start.hyps(3)] unfolding parents_known_def by blast
  then show ?case using start_keeps [OF _ start.hyps(2,3)] start.IH by blast
next
  case (turn f1 t f2)
  have "parents_known (told f1)" using turn.prems turn_told [OF turn.hyps(3)] unfolding parents_known_def by blast
  then show ?case using turn_keeps [OF ok _ _ turn.hyps(2,3)] turn.IH by blast
qed

lemma run_keeps:
  assumes "db_ok A" "never_fails A"
  shows "flow_run checks A X D ts f = Some f' \<Longrightarrow> flow_ok A X f \<Longrightarrow> parents_known (told f) \<Longrightarrow> \<forall>t\<in>set ts. turn_in_time t \<Longrightarrow>
    flow_ok A X f' \<and> effort f = length ts + effort f' \<and> set (told f') = set (told f)"
proof (induction ts arbitrary: f)
  case (Cons t ts)
  obtain f1 where f1: "flow_turn checks A X D t f = Some f1" "flow_run checks A X D ts f1 = Some f'"
    using Cons.prems(1) by (auto simp: bind_eq_Some_conv)
  have T: "flow_ok A X f1" "effort f = Suc (effort f1)" "set (told f1) = set (told f)"
    using turn_keeps [OF assms Cons.prems(2,3) _ f1(1)] Cons.prems(4) by simp_all
  then have "parents_known (told f1)" using Cons.prems(3) by (simp add: parents_known_def)
  then show ?case using Cons.IH [OF f1(2) T(1)] Cons.prems(4) T(2,3) by simp
qed simp

text \<open>
  C12. The threads of the node never block each other for good, though a thread that sends on a full channel waits. Take any state that the
  node reaches from one where nothing waits, and let no new work start: in whatever order the threads take turns, the channels hold at most ten
  messages each, every turn is one less to take, and when no thread can go on, all that was told has been
  handled by both modules in that order. The exception is a download that panics on its next message. The store does not fail,
  and no peer has sent a header that claims to have no parent.
\<close>
theorem channels_drain:
  assumes "db_ok A" "never_fails A" "node_ok checks C A X nd" "idle nd" "flow_reaches checks C A X D (flow_of nd) f"
    "parents_known (told f)" "flow_run checks A X D ts f = Some f'" "\<forall>t\<in>set ts. turn_in_time t" "unat now + 60 < 2 ^ 64"
  shows "flow_channels f' \<and> effort f = length ts + effort f' \<and> set (told f') = set (told f) \<and>
    ((\<forall>t\<in>{EventOp, ControlOp, Take, Copy, Handle now, Pong now}. flow_turn checks A X D t f' = None) \<longrightarrow>
       drained f' \<or> download_panics checks A X D now f')"
proof -
  have "flow_ok A X f" by (rule flow_reaches_ok [OF assms(1,2,5) flow_of_ok [OF assms(3,4)] assms(6)])
  then have R: "flow_ok A X f'" "effort f = length ts + effort f'" "set (told f') = set (told f)"
    using run_keeps [OF assms(1,2,7) _ assms(6,8)] by simp_all
  then have "parents_known (told f')" using assms(6) by (simp add: parents_known_def)
  then show ?thesis using R some_turn [OF assms(1,2) R(1) _ assms(9)] by (simp add: flow_ok_def)
qed

text \<open>A peer hangs up, and eight turns later both modules know.\<close>

theorem channels_drain_witness:
  "\<exists>nd f f'. flow_reaches True sample_codec mem_api sample_ext recorder (flow_of nd) f \<and> effort f = 8 \<and>
     flow_run True mem_api sample_ext recorder [EventOp, EventOp, EventOp, Take, Copy, Copy, Handle 1000, Pong 1000] f = Some f' \<and>
     effort f' = 0 \<and> drained f' \<and> last (nd_ping_seen (fl_node f')) = Disconnected (sample_pid 0) False"
proof -
  obtain n a where n: "reachable_sample n" "n_dispatched n = [Connected (sample_pid 0) a]" "n_listener n = []" using run_1 by blast
  let ?D = "Disconnected (sample_pid 0) False"
  define nd where "nd = (sample_node n (sample_1 Bitcoin))\<lparr>nd_taken := 1, nd_download_seen := n_dispatched n, nd_ping_seen := n_dispatched n\<rparr>"
  have ok: "node_ok True sample_codec mem_api sample_ext nd" "idle nd"
    using sample_node_ok [OF n(1)] n(2) by (auto simp: nd_def node_ok_def parts_ok_def idle_def channels_ok_def sample_node_def Let_def)
  define f where "f = (flow_of nd)\<lparr>fl_event := disconnect_ops (sample_pid 0) False\<rparr>"
  have "flow_start True sample_codec mem_api sample_ext recorder (EventJob sample_os 0 hang_up) (flow_of nd) = Some f"
    using n(3) by (simp add: f_def flow_of_def nd_def sample_node_def P2P_is_listener_def event_locked_def processor_locked_def
        hang_up_def sample_pid_def)
  then have R: "flow_reaches True sample_codec mem_api sample_ext recorder (flow_of nd) f"
    by (intro flow_reaches.start [OF flow_reaches.here, of "EventJob sample_os 0 hang_up"]) simp_all
  have told: "told f = [Connected (sample_pid 0) a, ?D]" by (simp add: told_def f_def flow_of_def nd_def sample_node_def n(2) disconnect_ops_def)
  then have k: "parents_known (told f)" by (simp add: parents_known_def)
  have e: "effort f = 8" by (simp add: effort_def f_def flow_of_def nd_def sample_node_def n(2) disconnect_ops_def waiting_def)
  let ?ts = "[EventOp, EventOp, EventOp, Take, Copy, Copy, Handle 1000, Pong 1000]"
  define n' where "n' = do_ops n (disconnect_ops (sample_pid 0) False)"
  have n': "n_dispatched n' = [Connected (sample_pid 0) a, ?D]"
    by (simp add: n'_def P2P_disconnect_def dispatch_def remove_peer_def wake_def n(2))
  have 1: "flow_run True mem_api sample_ext recorder [EventOp, EventOp, EventOp] f = Some (flow_of (nd\<lparr>co_p2p := n'\<rparr>))"
    by (simp add: f_def flow_of_def nd_def sample_node_def n(2) n'_def disconnect_ops_def op_step_def waiting_def)
  obtain f' where f': "flow_run True mem_api sample_ext recorder [Take, Copy, Copy, Handle 1000, Pong 1000] (flow_of (nd\<lparr>co_p2p := n'\<rparr>)) = Some f'"
    "fl_event f' = []" "fl_control f' = []" "fl_copy f' = None"
    "listeners (co_dispatcher (fl_node f')) = [Some [], Some []]" "waiting (fl_node f') = []" "nd_ping_seen (fl_node f') = [Connected (sample_pid 0) a, ?D]"
    by (simp add: flow_of_def nd_def sample_node_def n(2) n' take_step_def copy_step_def handle_step_def
        pong_step_def waiting_def Let_def PeerMessageSender_send_def channel_recv_def download_thread_def
        HeaderDownload_message_def set_download_def download_of_def ping_thread_def ping_message_def set_ping_def ping_of_def)
  have r: "flow_run True mem_api sample_ext recorder ?ts f = Some f'"
    using 1 f'(1) flow_run_append [of True mem_api sample_ext recorder "[EventOp, EventOp, EventOp]" _ f] by simp
  have stuck: "\<forall>t\<in>{EventOp, ControlOp, Take, Copy, Handle 1000, Pong 1000}. flow_turn True mem_api sample_ext recorder t f' = None"
    using f' by (simp add: op_step_def take_step_def copy_step_def handle_step_def pong_step_def channel_recv_def)
  have "\<not> download_panics True mem_api sample_ext recorder 1000 f'" using f'(5) by (simp add: download_panics_def channel_recv_def)
  then have "effort f = length ?ts + effort f' \<and> drained f'"
    using channels_drain [OF mem_api_ok ok R k r, of 1000] stuck by simp
  then have "effort f' = 0" "drained f'" "last (nd_ping_seen (fl_node f')) = ?D" using e f'(7) by simp_all
  then show ?thesis using R e r by blast
qed

text \<open>
  C38. While the event loop delivers what it has read from a peer, the control thread can ban that peer: the dispatcher is told that the peer is gone and after
  that gets a message of it.
\<close>
theorem told_after_gone:
  assumes "fl_event f = [Tell (Incoming pid m)]" "fl_control f = []" "co_control (fl_node f) = Ban pid 100 # cs"
    "peer (co_p2p (fl_node f)) pid = Some p" "p_ban p < 100" "length (waiting (fl_node f)) < 9"
  shows "\<exists>f1 f2. flow_start checks C A X D (ControlJob E) f = Some f1 \<and> flow_run checks A X D [ControlOp, EventOp] f1 = Some f2 \<and>
    n_dispatched (co_p2p (fl_node f2)) = n_dispatched (co_p2p (fl_node f)) @ [Disconnected pid True, Incoming pid m]"
proof -
  let ?n = "co_p2p (fl_node f)"
  have p: "unat (p_ban p) < 100" using assms(5) by (simp add: word_less_nat_alt)
  then have "(rust_add checks (p_ban p) 100 :: u32 result) = Ok (p_ban p + 100)" "100 \<le> p_ban p + 100"
    by (simp_all add: rust_add_Ok word_le_nat_alt unat_word_ariths)
  then have b: "ban_locked checks ?n pid 100 = (set_peer ?n pid (p\<lparr>p_ban := p_ban p + 100\<rparr>), disconnect_ops pid True, Ok ())"
    using assms(4) by (simp add: ban_locked_def)
  show ?thesis
    using assms b by (simp add: control_locked_def disconnect_ops_def op_step_def waiting_def dispatch_def set_peer_def)
qed

theorem told_after_gone_witness:
  "\<exists>f f1 f2 :: (mem_db, notice list) Flow. flow_start True sample_codec mem_api sample_ext recorder (ControlJob sample_os) f = Some f1 \<and>
     flow_run True mem_api sample_ext recorder [ControlOp, EventOp] f1 = Some f2 \<and>
     n_dispatched (co_p2p (fl_node f2)) = [Disconnected (sample_pid 1) True, Incoming (sample_pid 1) Verack]"
proof -
  let ?f = "\<lparr>fl_node = (sample_node one_peer (sample_1 Bitcoin))\<lparr>co_control := [Ban (sample_pid 1) 100]\<rparr>,
    fl_event = [Tell (Incoming (sample_pid 1) Verack)], fl_control = [], fl_copy = None\<rparr> :: (mem_db, notice list) Flow"
  show ?thesis
    using told_after_gone [of ?f "sample_pid 1" Verack "[]" _ True sample_codec mem_api sample_ext recorder sample_os]
    by (fastforce simp: sample_node_def one_peer_def P2P_new_def waiting_def Peer_new_def)
qed

end
