(* ===== verification/P2P_Greeting.thy ===== *)
theory P2P_Greeting
  imports P2P_Properties
begin

text \<open>
  The handshake over a stream (\<open>src/src/p2p.rs\<close>, the reading half of \<open>event_processor\<close> under \<open>poll_events\<close>): whatever
  pieces the socket delivers, a peer that sends an acceptable version and an acknowledgement gets connected, and the
  messages that follow are delivered after that.
\<close>

section \<open>What is still to come\<close>

text \<open>
  The messages that a peer is still to send, of its version \<open>mv\<close>, its acknowledgement \<open>ma\<close> and the messages
  \<open>ms\<close> after them, and what this node has noted by then.
\<close>

definition due ::
  "BitcoinP2PConfig \<Rightarrow> u64 \<Rightarrow> VersionCarrier \<Rightarrow> RawNetworkMessage \<Rightarrow> RawNetworkMessage \<Rightarrow> RawNetworkMessage list \<Rightarrow>
   Peer \<Rightarrow> RawNetworkMessage list \<Rightarrow> bool" where
  "due cfg needed v mv ma ms p rest \<longleftrightarrow>
     rest = mv # ma # ms \<and> p_version p = None \<and> \<not> p_got_verack p \<and> \<not> p_connected p \<and> acceptable cfg needed (p_outgoing p) v \<or>
     rest = ma # ms \<and> p_version p = Some (reduced cfg v) \<and> \<not> p_got_verack p \<and> \<not> p_connected p \<or>
     p_connected p \<and> p_version p = Some (reduced cfg v) \<and> (\<exists>before. ms = before @ rest)"

text \<open>The messages that have been delivered by then.\<close>

definition delivered :: "RawNetworkMessage list \<Rightarrow> RawNetworkMessage list \<Rightarrow> RawNetworkMessage list" where
  "delivered ms rest = take (length ms - length rest) ms"

lemma due_buffer [simp]: "due cfg needed v mv ma ms (p\<lparr>p_read_buffer := b\<rparr>) rest = due cfg needed v mv ma ms p rest"
  by (simp add: due_def)

lemma due_delivers:
  "due cfg needed v mv ma ms p (m # rest) \<Longrightarrow> p_connected p \<Longrightarrow> delivered ms rest = delivered ms (m # rest) @ [m]"
  by (auto simp: due_def delivered_def)

lemma due_silent:
  "due cfg needed v mv ma ms p (m # rest) \<Longrightarrow> \<not> p_connected p \<Longrightarrow> delivered ms rest = [] \<and> delivered ms (m # rest) = []"
  by (auto simp: due_def delivered_def)

lemma due_finished: "due cfg needed v mv ma ms p [] \<Longrightarrow> p_connected p \<and> p_version p = Some (reduced cfg v)"
  by (auto simp: due_def)

section \<open>Messages\<close>

lemma due_message:
  assumes ok: "grants E" "raw_payload ma = Verack" "is_version (raw_payload mv) = Some v"
    and s: "due cfg needed v mv ma ms (r_peer s) (m # rest)"
  shows "\<exists>s' inc. on_message cfg E needed m s = (s', Ok True) \<and> due cfg needed v mv ma ms (r_peer s') rest \<and>
    p_read_buffer (r_peer s') = p_read_buffer (r_peer s) \<and> r_disconnect s' = r_disconnect s \<and>
    r_incoming s' = r_incoming s @ inc \<and> delivered ms rest = delivered ms (m # rest) @ inc \<and>
    (p_connected (r_peer s) \<longrightarrow> p_connected (r_peer s')) \<and>
    (r_handshake s' \<longleftrightarrow> r_handshake s \<or> \<not> p_connected (r_peer s) \<and> p_connected (r_peer s'))"
proof (cases "p_connected (r_peer s)")
  case True
  then show ?thesis
    using s due_delivers [OF s True]
    by (intro exI [of _ "s\<lparr>r_incoming := r_incoming s @ [m]\<rparr>"] exI [of _ "[m]"])
      (auto simp: on_message_def due_def)
next
  case False
  note D = due_silent [OF s False]
  show ?thesis
  proof (cases "p_version (r_peer s)")
    case None
    then have m: "m = mv" "rest = ma # ms" "\<not> p_got_verack (r_peer s)" "acceptable cfg needed (p_outgoing (r_peer s)) v"
      using s False by (auto simp: due_def)
    obtain s' where s': "on_message cfg E needed mv s = (s', Ok True)"
      "same_but_queue ((r_peer s)\<lparr>p_version := Some (reduced cfg v)\<rparr>) (r_peer s')" "r_disconnect s' = r_disconnect s"
      "r_incoming s' = r_incoming s" "r_handshake s' = r_handshake s"
      using message_version [OF ok(1) m(4) ok(3) None m(3) False] by (auto simp: reduced_def)
    then show ?thesis
      using m False D by (intro exI [of _ s'] exI [of _ "[]"]) (simp add: due_def frame)
  next
    case (Some w)
    then have m: "m = ma" "rest = ms" "\<not> p_got_verack (r_peer s)" "w = reduced cfg v" using s False by (auto simp: due_def)
    define s' where "s' = complete_handshake E (s\<lparr>r_peer := (r_peer s)\<lparr>p_got_verack := True\<rparr>\<rparr>)"
    have "on_message cfg E needed ma s = (s', Ok True)" using message_verack [OF ok(2)] Some m(3) False by (simp add: s'_def)
    then show ?thesis
      using Some m False D by (intro exI [of _ s'] exI [of _ "[]"]) (simp add: due_def s'_def complete_handshake_def)
  qed
qed

lemma receive_due:
  assumes codec: "codec_ok M ser dec" "incomplete M ser part"
    and ok: "grants E" "raw_payload ma = Verack" "is_version (raw_payload mv) = Some v"
  shows "due cfg needed v mv ma ms (r_peer s) (now @ rest) \<Longrightarrow> set now \<subseteq> M \<Longrightarrow>
    holds_bytes (p_read_buffer (r_peer s)) (concat (map ser now) @ part) \<Longrightarrow>
    \<exists>s' inc. receive_loop cfg dec E needed s = Some (s', Ok ()) \<and> due cfg needed v mv ma ms (r_peer s') rest \<and>
      holds_bytes (p_read_buffer (r_peer s')) part \<and> r_disconnect s' = r_disconnect s \<and>
      r_incoming s' = r_incoming s @ inc \<and> delivered ms rest = delivered ms (now @ rest) @ inc \<and>
      (p_connected (r_peer s) \<longrightarrow> p_connected (r_peer s')) \<and>
      (r_handshake s' \<longleftrightarrow> r_handshake s \<or> \<not> p_connected (r_peer s) \<and> p_connected (r_peer s'))"
proof (induction now arbitrary: s)
  case Nil
  obtain b where b: "BitcoinP2PConfig_decode dec (p_read_buffer (r_peer s)) = Ok (b, Ok None)" "holds_bytes b part"
    using decode_partial [OF codec(1) _ codec(2)] Nil.prems(3) by auto
  then show ?case
    using Nil.prems(1) by (intro exI [of _ "s\<lparr>r_peer := (r_peer s)\<lparr>p_read_buffer := b\<rparr>\<rparr>"] exI [of _ "[]"]) (simp add: receive_loop.simps)
next
  case (Cons m now)
  obtain b where b: "BitcoinP2PConfig_decode dec (p_read_buffer (r_peer s)) = Ok (b, Ok (Some m))"
    "holds_bytes b (concat (map ser now) @ part)"
    using decode_complete [OF codec(1), of m _ "concat (map ser now) @ part"] Cons.prems(2,3) by auto
  define t where "t = s\<lparr>r_peer := (r_peer s)\<lparr>p_read_buffer := b\<rparr>\<rparr>"
  obtain s1 inc1 where s1: "on_message cfg E needed m t = (s1, Ok True)" "due cfg needed v mv ma ms (r_peer s1) (now @ rest)"
    "p_read_buffer (r_peer s1) = b" "r_disconnect s1 = r_disconnect s" "r_incoming s1 = r_incoming s @ inc1"
    "delivered ms (now @ rest) = delivered ms (m # now @ rest) @ inc1" "p_connected (r_peer s) \<longrightarrow> p_connected (r_peer s1)"
    "r_handshake s1 \<longleftrightarrow> r_handshake s \<or> \<not> p_connected (r_peer s) \<and> p_connected (r_peer s1)"
    using due_message [OF ok, of cfg needed ms t m "now @ rest"] Cons.prems(1) by (auto simp: t_def)
  obtain s' inc where s': "receive_loop cfg dec E needed s1 = Some (s', Ok ())" "due cfg needed v mv ma ms (r_peer s') rest"
    "holds_bytes (p_read_buffer (r_peer s')) part" "r_disconnect s' = r_disconnect s1" "r_incoming s' = r_incoming s1 @ inc"
    "delivered ms rest = delivered ms (now @ rest) @ inc" "p_connected (r_peer s1) \<longrightarrow> p_connected (r_peer s')"
    "r_handshake s' \<longleftrightarrow> r_handshake s1 \<or> \<not> p_connected (r_peer s1) \<and> p_connected (r_peer s')"
    using Cons.IH [OF s1(2)] Cons.prems(2) b(2) s1(3) by auto
  have run: "receive_loop cfg dec E needed s = Some (s', Ok ())"
    using decode_step [OF b(1)] s1(1) s'(1) by (simp add: t_def)
  have "r_handshake s' \<longleftrightarrow> r_handshake s \<or> \<not> p_connected (r_peer s) \<and> p_connected (r_peer s')" using s1(7,8) s'(7,8) by blast
  then show ?case
    using run s1 s' by (intro exI [of _ s'] exI [of _ "inc1 @ inc"]) simp
qed

section \<open>Reads\<close>

text \<open>
  A stage of the conversation: what is to come, what the read buffer holds of it, and what the dispatcher has been
  told since the beginning.
\<close>

definition greeted ::
  "BitcoinP2PConfig \<Rightarrow> u64 \<Rightarrow> VersionCarrier \<Rightarrow> RawNetworkMessage \<Rightarrow> RawNetworkMessage \<Rightarrow> RawNetworkMessage list \<Rightarrow>
   NetworkMessage PeerMessage list \<Rightarrow> PeerId \<Rightarrow> P2P \<Rightarrow> RawNetworkMessage list \<Rightarrow> u8 list \<Rightarrow> bool" where
  "greeted cfg needed v mv ma ms told pid n rest part \<longleftrightarrow>
     n_config n = cfg \<and> P2P_is_listener n (pid_token pid) = None \<and>
     (\<exists>p a. peer n pid = Some p \<and> due cfg needed v mv ma ms p rest \<and> holds_bytes (p_read_buffer p) part \<and>
        n_dispatched n =
          told @ (if p_connected p then [Connected pid a] else []) @ map (Incoming pid) (map raw_payload (delivered ms rest)))"

lemma undelivered: "due cfg needed v mv ma ms p rest \<Longrightarrow> \<not> p_connected p \<Longrightarrow> delivered ms rest = []"
  by (auto simp: due_def delivered_def)

lemma read_due:
  assumes codec: "codec_ok M (c_ser C) (c_dec C)"
    and ok: "grants E" "raw_payload ma = Verack" "is_version (raw_payload mv) = Some v"
    and n: "greeted cfg needed v mv ma ms told pid n (now @ rest) part0"
    and c: "part0 @ c = concat (map (c_ser C) now) @ part" "incomplete M (c_ser C) part" "set now \<subseteq> M" "c \<noteq> []"
  shows "\<exists>n'. poll_event checks E C n (pid_network pid) needed (pid_token pid) (handshake_event c) = Some (n', Ok ()) \<and>
    greeted cfg needed v mv ma ms told pid n' rest part"
proof -
  obtain p a where p: "peer n pid = Some p" "due cfg needed v mv ma ms p (now @ rest)" "holds_bytes (p_read_buffer p) part0"
    "n_dispatched n = told @ (if p_connected p then [Connected pid a] else []) @
       map (Incoming pid) (map raw_payload (delivered ms (now @ rest)))"
    and g: "n_config n = cfg" "P2P_is_listener n (pid_token pid) = None"
    using n unfolding greeted_def by blast
  define s where "s = \<lparr>r_peer = p\<lparr>p_read_buffer := Buffer_write_all (p_read_buffer p) c\<rparr>, r_incoming = [],
    r_disconnect = False, r_ban = False, r_handshake = False, r_address = None\<rparr>"
  have b: "holds_bytes (p_read_buffer (r_peer s)) (concat (map (c_ser C) now) @ part)"
    using p(3) net.write_law [of "p_read_buffer p" c] c(1) by (simp add: holds_bytes_def s_def)
  obtain s' inc where s': "receive_loop cfg (c_dec C) E needed s = Some (s', Ok ())" "due cfg needed v mv ma ms (r_peer s') rest"
    "holds_bytes (p_read_buffer (r_peer s')) part" "\<not> r_disconnect s'" "r_incoming s' = inc"
    "delivered ms rest = delivered ms (now @ rest) @ inc" "p_connected p \<longrightarrow> p_connected (r_peer s')"
    "r_handshake s' \<longleftrightarrow> \<not> p_connected p \<and> p_connected (r_peer s')"
    using receive_due [OF codec c(2) ok, of cfg needed ms s now rest] p(2) b c(3) by (auto simp: s_def)
  define n' where "n' = after_read (set_peer n pid (r_peer s')) pid s'"
  have "on_readable (n_config n) (c_dec C) E needed p (Ok c) = Some (s', Ok ())"
    using s'(1) c(4) g(1) by (simp add: on_readable_def s_def)
  then have "P2P_readable E C n pid needed (handshake_event c) = Some (n', Ok ())"
    using p(1) by (simp add: P2P_readable_def handshake_event_def n'_def)
  then have run: "poll_event checks E C n (pid_network pid) needed (pid_token pid) (handshake_event c) = Some (n', Ok ())"
    using g(2) by (cases pid) (simp add: poll_event_def P2P_event_processor_def handshake_event_def Let_def)
  have n': "n_config n' = cfg" "P2P_is_listener n' (pid_token pid) = None" "peer n' pid = Some (r_peer s')"
    using g s'(4) after_read_listener [of "set_peer n pid (r_peer s')" pid s']
    by (simp_all add: n'_def after_read_def P2P_is_listener_def set_peer_def Let_def update_conv')
  have "n_dispatched n' = n_dispatched n @ (if r_handshake s' then [Connected pid (r_address s')] else []) @
      map (Incoming pid) (map raw_payload inc)"
    using s'(4,5) by (simp add: n'_def after_read_def Let_def)
  then have "\<exists>a. n_dispatched n' = told @ (if p_connected (r_peer s') then [Connected pid a] else []) @
      map (Incoming pid) (map raw_payload (delivered ms rest))"
    using p(4) s'(6-8) undelivered [OF p(2)] by (cases "p_connected p") auto
  then show ?thesis using run n' s'(2,3) unfolding greeted_def by blast
qed

lemma reads_due:
  assumes codec: "codec_ok M (c_ser C) (c_dec C)"
    and ok: "grants E" "raw_payload ma = Verack" "is_version (raw_payload mv) = Some v"
  shows "greeted cfg needed v mv ma ms told pid n rest part0 \<Longrightarrow> incomplete M (c_ser C) part0 \<Longrightarrow>
    part0 @ concat reads = concat (map (c_ser C) rest) @ part \<Longrightarrow> incomplete M (c_ser C) part \<Longrightarrow> set rest \<subseteq> M \<Longrightarrow> [] \<notin> set reads \<Longrightarrow>
    \<exists>n'. P2P_poll_events checks C n (pid_network pid) needed (map (\<lambda>c. (E, pid_token pid, handshake_event c)) reads) = Some (n', Ok ()) \<and>
      greeted cfg needed v mv ma ms told pid n' [] part"
proof (induction reads arbitrary: n rest part0)
  case Nil
  have "rest = []" by (rule no_message_left [OF codec Nil.prems(2) _ Nil.prems(5)]) (use Nil.prems(3) in simp)
  then show ?case using Nil.prems by simp
next
  case (Cons c cs)
  have "(part0 @ c) @ concat cs = concat (map (c_ser C) rest) @ part" using Cons.prems(3) by simp
  then obtain now later part1 where S: "rest = now @ later" "part0 @ c = concat (map (c_ser C) now) @ part1"
    "incomplete M (c_ser C) part1" "part1 @ concat cs = concat (map (c_ser C) later) @ part"
    using prefix_of_messages [OF _ Cons.prems(4,5)] by blast
  obtain n1 where n1: "poll_event checks E C n (pid_network pid) needed (pid_token pid) (handshake_event c) = Some (n1, Ok ())"
    "greeted cfg needed v mv ma ms told pid n1 later part1"
    using read_due [OF codec ok _ S(2,3), of cfg needed ms told pid n later checks] Cons.prems(1,5,6) S(1) by auto
  then show ?case using Cons.IH [OF n1(2) S(3,4) Cons.prems(4)] Cons.prems(5,6) S(1) by simp
qed

section \<open>The handshake\<close>

text \<open>
  C16. A peer that performs the handshake as the protocol asks gets connected, however the socket cuts its stream into reads:
  when its version message, acceptable to this node, its acknowledgement and any messages after them arrive, complete or up
  to the beginning of another message, the event loop completes without an error, remembers the version reduced to this node's, and
  tells the dispatcher of the connection, once, and then of the messages after it, in order.
  (Bytes that do not decode are excluded: see \<open>handshake_unreported\<close>.)
\<close>
theorem handshake_completes:
  assumes codec: "codec_ok M (c_ser C) (c_dec C)" "{mv, ma} \<union> set ms \<subseteq> M" "raw_payload ma = Verack"
      "is_version (raw_payload mv) = Some v"
    and p: "peer n pid = Some p" "p_version p = None" "\<not> p_got_verack p" "\<not> p_connected p" "holds_bytes (p_read_buffer p) []"
      "P2P_is_listener n (pid_token pid) = None"
    and ok: "grants E" "acceptable (n_config n) needed (p_outgoing p) v"
    and data: "concat reads = c_ser C mv @ c_ser C ma @ concat (map (c_ser C) ms) @ part" "incomplete M (c_ser C) part"
      "[] \<notin> set reads"
  shows "\<exists>n' q a. P2P_poll_events checks C n (pid_network pid) needed
      (map (\<lambda>c. (E, pid_token pid, handshake_event c)) reads) = Some (n', Ok ()) \<and>
    peer n' pid = Some q \<and> p_connected q \<and> holds_bytes (p_read_buffer q) part \<and>
    p_version q = Some (v\<lparr>vc_version := min (vc_version v) (cfg_max_protocol_version (n_config n))\<rparr>) \<and>
    n_dispatched n' = n_dispatched n @ Connected pid a # map (Incoming pid) (map raw_payload ms)"
proof -
  have "due (n_config n) needed v mv ma ms p (mv # ma # ms)" using p(2-4) ok(2) by (simp add: due_def)
  then have "greeted (n_config n) needed v mv ma ms (n_dispatched n) pid n (mv # ma # ms) []"
    unfolding greeted_def using p by (simp add: delivered_def)
  moreover have "incomplete M (c_ser C) []" using data(2) incomplete_prefix [of M "c_ser C" "[]" part] by simp
  ultimately obtain n' where n': "P2P_poll_events checks C n (pid_network pid) needed
      (map (\<lambda>c. (E, pid_token pid, handshake_event c)) reads) = Some (n', Ok ())"
    "greeted (n_config n) needed v mv ma ms (n_dispatched n) pid n' [] part"
    using reads_due [OF codec(1) ok(1) codec(3,4), of "n_config n" needed ms "n_dispatched n" pid n "mv # ma # ms" "[]" reads part checks]
      data codec(2) by auto
  then obtain q a where q: "peer n' pid = Some q" "due (n_config n) needed v mv ma ms q []" "holds_bytes (p_read_buffer q) part"
    "n_dispatched n' = n_dispatched n @ (if p_connected q then [Connected pid a] else []) @
      map (Incoming pid) (map raw_payload (delivered ms []))"
    unfolding greeted_def by blast
  show ?thesis using n'(1) q due_finished [OF q(2)] by (auto simp: reduced_def delivered_def)
qed

theorem handshake_completes_witness:
  "\<exists>n' q a. P2P_poll_events True sample_codec one_peer ''bitcoin'' 0
      (map (\<lambda>c. (sample_os, 1, handshake_event c)) [[3], [0, 0, 1, 2], [2, 2]]) = Some (n', Ok ()) \<and>
     peer n' (sample_pid 1) = Some q \<and> p_connected q \<and>
     n_dispatched n' = [Connected (sample_pid 1) a, Incoming (sample_pid 1) (NetworkMessage.Ping 7)]"
proof -
  obtain v where v: "is_version (Version sample_version) = Some v" by simp
  have c: "codec_ok sample_messages (c_ser sample_codec) (c_dec sample_codec)"
    using sample_codec_ok by (simp add: sample_codec_def)
  have i: "incomplete sample_messages (c_ser sample_codec) [2]" using sample_incomplete(2) by (simp add: sample_codec_def)
  have "\<exists>n' q a. P2P_poll_events True sample_codec one_peer (pid_network (sample_pid 1)) 0
      (map (\<lambda>c. (sample_os, pid_token (sample_pid 1), handshake_event c)) [[3], [0, 0, 1, 2], [2, 2]]) = Some (n', Ok ()) \<and>
    peer n' (sample_pid 1) = Some q \<and> p_connected q \<and> holds_bytes (p_read_buffer q) [2] \<and>
    p_version q = Some (v\<lparr>vc_version := min (vc_version v) (cfg_max_protocol_version (n_config one_peer))\<rparr>) \<and>
    n_dispatched n' = n_dispatched one_peer @ Connected (sample_pid 1) a #
      map (Incoming (sample_pid 1)) (map raw_payload [sample_raw (NetworkMessage.Ping 7)])"
    by (rule handshake_completes [OF c, of "sample_raw (Version sample_version)" "sample_raw Verack" _ _ _ _ "Peer_new (sample_pid 1) True"])
      (use v sample_acceptable [OF v] new_buffer_holds sample_os_grants i in
        \<open>simp_all add: one_peer_simps Peer_new_def sample_codec_def P2P_is_listener_def one_peer_def P2P_new_def\<close>)
  then show ?thesis by (simp add: sample_pid_def one_peer_simps del: P2P_poll_events.simps) blast
qed

end
