(* ===== verification/Spec2Isabelle.thy ===== *)
theory Spec2Isabelle
  imports Node_Silence Node_Sync Node_Channels P2P_Greeting
begin

text \<open>
  Murmel is a light client for the Bitcoin network. It connects to peers, downloads the headers of all blocks,
  checks their proof of work, keeps the tree of headers with the chain of most work (the trunk), stores it, and
  tells an application of new and of orphaned blocks. This development models the library and its
  command line client, and proves what makes the parts correct. Line numbers are those of \<open>src/src\<close>.

  \<^bold>\<open>The program and how its parts interact.\<close> The network layer (\<open>p2p.rs\<close>) owns the sockets. An event of a socket
  is handled by \<open>event_processor\<close>: bytes go into the read buffer of a peer, messages are decoded from it, the
  handshake is performed, and messages of connected peers are sent to the dispatcher
  (\<open>dispatcher.rs\<close>), which copies them to its listeners. There are two of them: the ping (\<open>ping.rs\<close>) and
  the download of headers (\<open>headerdownload.rs\<close>). They share a table of the replies they expect
  (\<open>timeout.rs\<close>) and talk back through the control channel of the network layer: send a message, ban a peer. The
  download adds headers to the chain database (\<open>chaindb.rs\<close>), which consists of the header cache
  (\<open>headercache.rs\<close>) and a persistent store, and calls the application (\<open>downstream.rs\<close>; \<open>lightning.rs\<close> is one
  implementation). The constructor (\<open>constructor.rs\<close>) puts all of this together and keeps the node connected
  to addresses found by \<open>dns.rs\<close>; \<open>bin/client.rs\<close> is the program.

  \<^bold>\<open>The theories.\<close>
  \<^item> \<open>Prelude\<close>: outcomes (\<open>Ok\<close>, \<open>Err\<close>, \<open>Panicked\<close>), checked and wrapping arithmetic, lemmas on lists and maps.
  \<^item> \<open>Murmel_Error\<close> (\<open>error.rs\<close>): the error type, its texts and conversions.
  \<^item> \<open>Header_Work\<close> (\<open>headercache.rs\<close>, 36 to 103, 167 to 185, 338 to 354): compact targets, work, proof of work. Decoding of
    targets and the check of proof of work are exact; the lossy encoding keeps all but one part in \<open>2 ^ 15\<close>.
  \<^item> \<open>Header_Cache\<close> (\<open>headercache.rs\<close>, 105 to 408): the cache, one definition per function, with the loops of
    \<open>add_header_to_tree\<close> as definitions of their own; the invariant \<open>hc_inv\<close>. \<open>Header_Trunk\<close>: lemmas on trunks, retargeting
    and the locator. \<open>Header_Cache_Correct\<close>: \<open>add_header\<close> returns, keeps the invariant, stores exactly headers with proof of work,
    moves the tip to most work; heights, retargeting, locator; and the defects of the handling of forks.
  \<^item> \<open>Store_Interface\<close>: the locale \<open>header_store\<close>, what a client of a store of headers relies on. The header cache and the
    chain database are both interpretations of it.
  \<^item> \<open>Chain_DB\<close> (\<open>chaindb.rs\<close>): the database over the store; what is added is read back. \<open>Chain_Restart\<close>: what of it is
    permanent, every reachable state is consistent with the store, and a restart at any moment recovers the chain as
    of the last batch.
  \<^item> \<open>Net_Buffer\<close>, \<open>Net_Codec\<close>, \<open>P2P_Types\<close>, \<open>P2P_Peer\<close>, \<open>P2P_Streams\<close>, \<open>P2P_Node\<close> (\<open>p2p.rs\<close>): the buffer, which refines a
    queue of bytes with a checkpoint; encoding and decoding over any buffer with checkpoints (the locale
    \<open>checkpointed_buffer\<close>, interpreted by the buffer); the data; a peer with its reading and writing loops; its two
    streams; the layer with its control loop, tasks and events.
  \<^item> \<open>P2P_Correct\<close>, \<open>P2P_Properties\<close>, with the sample data of \<open>P2P_Samples\<close>: the invariant of the layer in every reachable state,
    what the dispatcher is told, reassembly of messages, writing, the ban score, and three defects. \<open>P2P_Greeting\<close>: the
    handshake completes however the stream of a peer is cut into reads.
  \<^item> \<open>Peer_Timeout\<close> (\<open>timeout.rs\<close>): the table, which refines a ledger of replies owed; the locale \<open>reply_tracker\<close> is what the
    modules rely on. \<open>Node_Modules\<close> (\<open>dispatcher.rs\<close>, \<open>downstream.rs\<close>, \<open>ping.rs\<close>). \<open>Peer_Ping\<close>: silent peers are banned.
  \<^item> \<open>Header_Download\<close> and \<open>Download_Correct\<close> (\<open>headerdownload.rs\<close>): the handler does what adding the headers one by one does,
    it is safe whatever a peer sends, it asks for more, it bans, and what it added survives a restart. \<open>Shared_Timeout\<close>: ping and download on one table never
    have two requests of one kind open.
  \<^item> \<open>Node_Stack\<close> (\<open>constructor.rs\<close>, \<open>dns.rs\<close>, \<open>lightning.rs\<close>, \<open>bin/client.rs\<close>): the assembly and the command line.
  \<^item> \<open>P2P_Handshake\<close>: two nodes of this program complete the handshake with each other.
  \<^item> \<open>Node_Threads\<close>: the running node. Its state is what the constructor made, with the channels between the
    threads; each thread and task is a step on it (\<open>node_step\<close>): an event of a socket, a message of the control
    channel, of the dispatcher, of the download or of the ping, a round of one of these, a tick of the interval that
    keeps the node connected, a poll of the task of a peer, and the end of the time for its handshake.
  \<^item> \<open>P2P_Bans\<close> and \<open>Node_Runs\<close>: the invariant of the whole node, built from those of the parts. \<open>parts_ok\<close> (all but the
    database) is kept by every step and so by every run (\<open>node_reaches\<close>), whatever the peers send; \<open>node_ok\<close> adds that the database is
    consistent, which holds as long as no peer has sent a header that claims to have no parent (\<open>parents_known\<close>). A lost
    wake-up of a task. \<open>Node_Properties\<close>: the modules handle what the
    network layer reports, in order; a peer that sends a header without proof of work is removed. \<open>Node_Silence\<close>: so is one
    of which nothing is heard, whatever else the node does meanwhile. \<open>Chain_Sync\<close> and \<open>Node_Sync\<close>: the node downloads the whole chain of a peer, from the bytes of one request
    to those of its answer, and so on until nothing is missing. \<open>Node_Tasks\<close>: every peer is watched by a task, which closes it if the handshake takes too long.
  \<^item> \<open>P2P_Steps\<close>: the network layer in smaller steps. What a function does under the locks is one step, and each call after they
    are released (tell the dispatcher, remove the peer, wake its task) another; without a break they are the step of \<open>P2P_Node\<close>.
    \<open>Node_Channels\<close>: the threads in these steps, a message at a time, over channels of ten messages on which a sender waits
    when they are full (\<open>Flow\<close>, \<open>flow_turn\<close>, \<open>flow_start\<close>). No message is lost or repeated, the threads never block each other for good, and the number
    of turns left (\<open>effort\<close>) goes down by one with each; but a peer can be banned while its messages are being delivered.
  \<^item> The theorem below spans the client, the constructor and the runs of the node it starts.

  \<^bold>\<open>How the code is represented.\<close> A struct is a record, an enum a datatype, an integer a word of its width; tokens of
  sockets and positions in memory (\<open>usize\<close>) are natural numbers, so that the counter from which tokens are given out does not wrap around,
  as it would after \<open>2 ^ 64\<close> connections. The \<open>i32\<close> of the locator wraps around without a panic, which needs more headers than \<open>locator_positions\<close> allows. A method that
  changes its object returns the new object with its outcome, also when the outcome is an error or a
  panic. Whether overflow panics or wraps around depends on the build: it is the flag \<open>checks\<close>, and the properties hold
  for both unless they say otherwise. A loop that may run forever is a \<open>partial_function (option)\<close>; its
  result \<open>None\<close> stands for not returning, and the properties that say that a call returns exclude it. No
  definition uses fuel. Hash maps are functions or association lists with distinct keys; where the code
  iterates over a hash map, the order is that of the list. A channel is the list of what was sent, and a loop
  that waits on a channel is a function on the list of what it delivers. A run of the node is any sequence of
  steps, so the scheduler, the thread pool and the timers are an arbitrary order; the handling of one message is
  one step. Floating point numbers are
  rationals with infinities and not-a-number; the logarithm is an argument.

  \<^bold>\<open>Code of other crates\<close> is an argument of the definitions, and what is relied on is a named hypothesis: \<open>ext\<close> with
  \<open>ext_ok\<close> (hashes, 256-bit integers and logarithms), \<open>db_api\<close> with \<open>db_ok\<close> and \<open>never_fails\<close> (the store: what is put is found;
  writes succeed), the function \<open>reopen\<close> with \<open>durable\<close> (what a store holds when it is opened again: what it held when its last batch was finished), \<open>codec\<close> with \<open>codec_ok\<close> (messages decode as they were encoded, the beginning of one asks for more),
  \<open>os\<close> with \<open>grants\<close> and \<open>registered\<close> (the operating system accepts registrations; events carry registered tokens) or with the weaker
  \<open>answers\<close> (a registration succeeds or fails). For runs, \<open>admissible\<close> says that an event carries a token that was given
  out and that the clock has room for a timeout of a minute, and \<open>parents_known\<close> that no peer sends a header
  whose parent is the hash zero: such a header is a defect of its own (\<open>second_root_accepted\<close>). It is a hypothesis on what has been
  reported, not a part of \<open>node_reaches\<close> or \<open>flow_reaches\<close>. For the download of a chain, \<open>serves\<close> and \<open>remote_serves\<close> say that the peer answers a request for headers with those that follow the
  first hash of the locator, some at a time and none at the end of its chain, as bytes that arrive in one read, and \<open>extends\<close> that the headers which are missing have
  proof of work and add to it. The runs of that download (\<open>exchange\<close>) are one schedule of the steps of the node: the control channel is
  emptied, the request is written, the answer read, dispatched and handled. The
  clock, random numbers, the name service and the parsers of numbers are arguments too. Each property
  with hypotheses is applied to concrete arguments that satisfy them.

  \<^bold>\<open>What is not modelled.\<close> Log lines, but for those of the logger of \<open>lightning.rs\<close>; \<open>lib.rs\<close>, which only declares modules; the poll
  of mio, which is the list of events it returns. A function that holds a lock is one step; a thread that takes
  a lock several times while it handles one message is one step too, so that no other thread comes between, except
  for the two locks of a task in \<open>wakeup_lost\<close> and for what the network layer does after it released its locks in \<open>Node_Channels\<close>. There
  the two phases of an event, writing and reading, are still one step, and so is the handling of a message by a module. A round
  of the ping is one step, though the code takes the lock on the table of timeouts for the check and for each peer again. The task of a new peer is
  polled for the first time, and so connects, in the step that spawns it. A
  task may be polled at any time, and not only when it is woken: that a step would end a task does not say that the task is woken (\<open>wakeup_lost\<close>). Real time is not modelled: a tick or a timeout is a step
  that may happen. The receiving ends of channels stay open: that a sender panics when the thread at the other end is gone is not
  modelled. The control channel and the queues of the peers have no limit, in the code as in the model.

  \<^bold>\<open>Plan.\<close> Done: all parts, one by one, their start, runs of the whole node, the handshake of two nodes, the download of a chain, and the
  threads over bounded channels. What is left out above is outside the program (the operating system, real time, other crates) or
  has no behaviour of its own.
\<close>

section \<open>The node as a whole\<close>

lemma control_queue_of_binds: "fold (\<lambda>addr q. P2PControlSender_send q (Bind addr)) listen q = q @ map Bind listen"
  by (induction listen arbitrary: q) (auto simp: P2PControlSender_send_def)

lemma bans_of_binds: "bans_ok (map Bind addrs)"
  by (auto simp: bans_ok_def)

lemma spawn_peers_reachable:
  assumes "reachable_node checks C network needed cfg (fst s)"
  shows "reachable_node checks C network needed cfg (fst (fold (\<lambda>addr. spawn_peer E network (OutgoingTo addr)) peers s))"
  using assms by (induction peers arbitrary: s) (simp_all add: spawn_peer_reachable)

lemma spawn_peers_watched:
  assumes "answers E" "watched (fst s) (snd s)"
  shows "watched (fst (fold (\<lambda>addr. spawn_peer E network (OutgoingTo addr)) peers s))
    (snd (fold (\<lambda>addr. spawn_peer E network (OutgoingTo addr)) peers s))"
  using assms(2)
proof (induction peers arbitrary: s)
  case (Cons a peers)
  then show ?case using watched_spawn [OF Cons.prems assms(1), of network "OutgoingTo a"] by simp
qed simp

lemma started_ok:
  assumes "reachable_node checks C ''bitcoin'' 0 cfg (co_p2p c)" "cd_inv A X (co_chaindb c)" "co_timeout c = Timeout_new"
    "bans_ok (co_control c)" "listeners (co_dispatcher c) = [Some [], Some []]"
  shows "node_ok checks C A X (node_start (c, kc))"
  using assms by (auto simp: node_ok_def parts_ok_def node_start_def Constructor.defs channels_ok_def one_each_def)

text \<open>
  C34. The client starts and runs: if the command line is understood, and the store is new and does not fail, the node is
  set up with a consistent database whose trunk is the network's genesis header, it is told to listen on every
  address given, and it keeps the number of connections asked for. From there on, in whatever order its threads
  and tasks run and whatever the peers send, the network layer is in one of its reachable states, at most one request of a
  kind is open with a peer, every message of the network layer is handled or waits once in the channel of each
  module, and every peer is watched by a task. The database is consistent with the store in every state in which
  no peer has sent a header that claims to have no parent (\<open>parents_known\<close>; for such headers
  see \<open>second_root_accepted\<close>).
\<close>
theorem client_starts:
  assumes "db_ok A" "never_fails A" "client_settings from_str parse_usize parse_u64 now args = Ok (Some cl)"
    "db_persistent A (cl_db cl) 100 2 = Ok db" "keyed_at A db HEADER_TIP_KEY = None"
    "prev_blockhash (G (cl_network cl)) = 0" "unat (x_work X (G (cl_network cl))) < 2 ^ 128" "answers E"
  shows "\<exists>c kc. client_main A X G E dns magic nonce downstream from_str parse_usize parse_u64 now args = Some (Ok (Some (c, kc))) \<and>
    hc_trunk (cd_headercache (co_chaindb c)) = [x_hash X (G (cl_network cl))] \<and>
    co_control c = map Bind (cl_listen cl) \<and> kc_min_connections kc = cl_connections cl \<and>
    (\<forall>nd. node_reaches checks C A X D (node_start (c, kc)) nd \<longrightarrow>
       parts_ok checks C nd \<and> watched (co_p2p nd) (co_tasks nd) \<and>
       (parents_known (n_dispatched (co_p2p nd)) \<longrightarrow> cd_inv A X (co_chaindb nd)))"
proof -
  obtain cd where cd: "Constructor_open_db A X G (Some (Some (cl_db cl))) (cl_network cl) (cl_birth cl) = Some (Ok cd)"
    "cd_inv A X cd" "hc_trunk (cd_headercache cd) = [x_hash X (G (cl_network cl))]"
    using genesis_opened [OF assms(1,2) _ assms(5), of "Some (Some (cl_db cl))" G "cl_network cl" X "cl_birth cl"] assms(4,6,7) by auto
  obtain spv where spv: "Constructor_new magic nonce downstream (cl_network cl) (cl_listen cl) cd = Ok spv"
    "co_chaindb spv = cd" "co_control spv = map Bind (cl_listen cl)" "\<exists>cfg. co_p2p spv = P2P_new cfg" "co_tasks spv = []" "co_timeout spv = Timeout_new"
    "listeners (co_dispatcher spv) = [Some [], Some []]"
    by (auto simp: Constructor_new_def Let_def control_queue_of_binds HeaderDownload_new_def Ping_new_def P2PControlSender_new_def
        Dispatcher_add_listener_def Dispatcher_new_def PeerMessageSender_new_def)
  obtain c kc where run: "Constructor_run E dns spv (cl_network cl) (cl_peers cl) (cl_connections cl) = (c, kc)"
    by (cases "Constructor_run E dns spv (cl_network cl) (cl_peers cl) (cl_connections cl)")
  then have c: "co_chaindb c = cd" "co_control c = map Bind (cl_listen cl)" "co_timeout c = Timeout_new" "kc_min_connections kc = cl_connections cl"
    "listeners (co_dispatcher c) = [Some [], Some []]"
    using spv by (auto simp: Constructor_run_def split: prod.splits)
  have "\<exists>cfg. reachable_node checks C ''bitcoin'' 0 cfg (co_p2p c)"
    using run spv(4) spawn_peers_reachable [of checks C "''bitcoin''" 0 _ "(co_p2p spv, co_tasks spv)" E "cl_peers cl"] reachable_node.start
    by (fastforce simp: Constructor_run_def split: prod.splits)
  then have "node_ok checks C A X (node_start (c, kc))" using started_ok c cd(2) by (metis bans_of_binds)
  moreover have "watched (co_p2p (node_start (c, kc))) (co_tasks (node_start (c, kc)))"
    using run spv(4,5) spawn_peers_watched [OF assms(8), of "(co_p2p spv, co_tasks spv)" "''bitcoin''" "cl_peers cl"]
    by (auto simp: Constructor_run_def node_start_def Constructor.defs watched_def P2P_new_def split: prod.splits)
  ultimately have "parts_ok checks C nd \<and> watched (co_p2p nd) (co_tasks nd) \<and>
      (parents_known (n_dispatched (co_p2p nd)) \<longrightarrow> cd_inv A X (co_chaindb nd))"
    if "node_reaches checks C A X D (node_start (c, kc)) nd" for nd
    using node_reaches_ok [OF assms(1,2) that] node_reaches_watched [OF that] node_reaches_parts [OF that]
    by (auto simp: node_ok_def)
  moreover have "client_main A X G E dns magic nonce downstream from_str parse_usize parse_u64 now args = Some (Ok (Some (c, kc)))"
    using assms(3) cd(1) spv(1) run by (simp add: client_main_def)
  ultimately show ?thesis using c cd(3) by blast
qed

theorem client_starts_witness:
  "\<exists>c kc. client_main mem_api sample_ext sample_G sample_os (\<lambda>_ _. Ok []) (\<lambda>_. 0) 7 ([] :: notice list)
     (\<lambda>_. Some sample_addr) (\<lambda>_. Some 3) (\<lambda>_. None) 0 [''client'', ''--listen'', ''a''] = Some (Ok (Some (c, kc))) \<and>
     hc_trunk (cd_headercache (co_chaindb c)) = [1] \<and> co_control c = [Bind sample_addr] \<and>
     parts_ok True sample_codec (node_start (c, kc))"
proof -
  obtain cl where cl: "client_settings (\<lambda>_. Some sample_addr) (\<lambda>_. Some 3) (\<lambda>_. None) 0 [''client'', ''--listen'', ''a''] = Ok (Some cl)"
    "cl_listen cl = [sample_addr]" "cl_network cl = Bitcoin"
    by (simp add: client_settings_def client_network_def get_peers_def get_listeners_def find_opt_def find_args_def
        find_arg_def zipped_args_def key_args_def starts_with_def Let_def)
  have "db_persistent mem_api (cl_db cl) 100 2 = Ok (Map.empty, Map.empty)" by (simp add: mem_api_def)
  from client_starts [OF mem_api_ok cl(1) this, of sample_G sample_ext sample_os "\<lambda>_ _. Ok []"
        "\<lambda>_. 0" 7 "[] :: notice list" True sample_codec recorder]
  obtain c kc where c: "client_main mem_api sample_ext sample_G sample_os (\<lambda>_ _. Ok []) (\<lambda>_. 0) 7 []
     (\<lambda>_. Some sample_addr) (\<lambda>_. Some 3) (\<lambda>_. None) 0 [''client'', ''--listen'', ''a''] = Some (Ok (Some (c, kc)))"
    "hc_trunk (cd_headercache (co_chaindb c)) = [x_hash sample_ext (sample_G Bitcoin)]" "co_control c = map Bind [sample_addr]"
    "\<And>nd. node_reaches True sample_codec mem_api sample_ext recorder (node_start (c, kc)) nd \<Longrightarrow>
       parts_ok True sample_codec nd"
    unfolding cl by (auto simp: sample_G_def sample_os_def answers_def)
  show ?thesis
    using c(1-3) c(4) [OF node_reaches.here] by (intro exI [of _ c] exI [of _ kc]) (simp add: sample_G_def)
qed

end
